(* ===== verification/Prelude.thy ===== *)
theory Prelude
  imports Main "HOL-Library.Word"
begin

text \<open>
  Shared vocabulary of the development: the machine types the C code uses, the C constants
  every component refers to, assertions as values, and the generic lemmas the component
  proofs share.

  Pointers, \<open>uintptr_t\<close>, \<open>intptr_t\<close> and thread ids are 64-bit words (an LP64 or LLP64
  platform); \<open>DWORD\<close> and \<open>LONG\<close> are 32-bit words; the C \<open>int\<close> status codes are \<open>int\<close>.
\<close>

unbundle bit_operations_syntax

type_synonym ptr = "64 word"
type_synonym intptr = "64 word"
type_synonym tid = "64 word"
type_synonym dword = "32 word"

text \<open>An object in memory and the index of the field inside it; distinct objects and
  distinct fields never alias.\<close>

type_synonym addr = "nat \<times> nat"

abbreviation NULL :: ptr where
  "NULL \<equiv> 0"

text \<open>Status codes of \<open>errno.h\<close> that the wrappers hand through.\<close>

definition EBUSY :: int where
  "EBUSY = 16"

definition ETIMEDOUT :: int where
  "ETIMEDOUT = 110"

text \<open>
  A C \<open>assert\<close>: with \<open>NDEBUG\<close> defined it does nothing, otherwise a false condition aborts
  the program. \<open>c_assert\<close> takes the build flag, the condition and the rest of the function.
\<close>

datatype fault = Assertion_failed

definition c_assert :: "bool \<Rightarrow> bool \<Rightarrow> fault + 'a \<Rightarrow> fault + 'a" where
  "c_assert ndebug c k = (if ndebug \<or> c then k else Inl Assertion_failed)"

lemma c_assert_simps [simp]:
  "c_assert True c k = k"
  "c_assert nd True k = k"
  "c_assert False False k = Inl Assertion_failed"
  by (simp_all add: c_assert_def)

lemma c_assert_eq_Inr:
  "c_assert nd c k = Inr r \<longleftrightarrow> (nd \<or> c) \<and> k = Inr r"
  by (simp add: c_assert_def)

text \<open>A C truth value.\<close>

definition c_bool :: "bool \<Rightarrow> int" where
  "c_bool b = (if b then 1 else 0)"

lemma c_bool_simps [simp]:
  "c_bool True = 1" "c_bool False = 0"
  "c_bool b = 0 \<longleftrightarrow> \<not> b" "c_bool b = 1 \<longleftrightarrow> b"
  by (simp_all add: c_bool_def)

text \<open>
  Collections: \<open>cell_laws\<close> say what an operation does to the contents of memory;
  \<open>step_defs\<close> are the step functions of the interleaving models.
\<close>

named_theorems cell_laws
named_theorems step_defs

end
