(* ===== verification/Race_Yield.thy ===== *)
theory Race_Yield
  imports Prelude
begin

text \<open>
  \<open>MULLE_THREAD_UNPLEASANT_RACE_YIELD\<close> of \<open>src/mulle-thread.h\<close>, which tests use to provoke
  races: a 32-bit xorshift generator per thread, and from its state the decision to yield, to
  sleep or to go on.
\<close>

datatype race_action = Go_on | Yields | Sleeps

text \<open>The seed is the low half of the address of the state, with the lowest bit set.\<close>

definition race_seed :: "ptr \<Rightarrow> 32 word" where
  "race_seed address = ucast address OR 1"

definition xorshift :: "32 word \<Rightarrow> 32 word" where
  "xorshift x =
     (let x1 = x XOR push_bit 13 x; x2 = x1 XOR drop_bit 17 x1 in x2 XOR push_bit 5 x2)"

definition MULLE_THREAD_UNPLEASANT_RACE_YIELD ::
  "bool \<Rightarrow> ptr \<Rightarrow> 32 word \<Rightarrow> race_action \<times> 32 word"
where
  "MULLE_THREAD_UNPLEASANT_RACE_YIELD win32 address x =
     (let x0 = (if x = 0 then race_seed address else x);
          x1 = xorshift x0
      in (if x1 AND 0x3 = 0x1
          then if \<not> win32 \<and> x1 AND 0x7 = 0x4 then Sleeps else Yields
          else Go_on, x1))"

text \<open>A number of calls from the first one on, when the state is still 0.\<close>

fun race_calls :: "bool \<Rightarrow> ptr \<Rightarrow> nat \<Rightarrow> 32 word \<Rightarrow> race_action list \<times> 32 word" where
  "race_calls win32 address 0 x = ([], x)"
| "race_calls win32 address (Suc n) x =
     (case MULLE_THREAD_UNPLEASANT_RACE_YIELD win32 address x of
        (a, x1) \<Rightarrow> (case race_calls win32 address n x1 of (as, x2) \<Rightarrow> (a # as, x2)))"

subsection \<open>The generator\<close>

text \<open>Each of its three steps can be undone: bit by bit, from the side that the shift leaves.\<close>

lemma xor_push_inj:
  fixes x y :: "'a::len word"
  assumes "0 < k" and "x XOR push_bit k x = y XOR push_bit k y"
  shows "x = y"
proof -
  have "bit x n = bit y n" if "n < LENGTH('a)" for n
    using that
  proof (induction n rule: less_induct)
    case (less n)
    have "bit (x XOR push_bit k x) n = bit (y XOR push_bit k y) n" using assms(2) by simp
    moreover have "k \<le> n \<Longrightarrow> bit x (n - k) = bit y (n - k)" using less assms(1) by simp
    ultimately show ?case using less.prems by (auto simp: bit_xor_iff bit_push_bit_iff)
  qed
  then show ?thesis by (auto intro: bit_word_eqI)
qed

lemma xor_drop_inj:
  fixes x y :: "'a::len word"
  assumes "0 < k" and "x XOR drop_bit k x = y XOR drop_bit k y"
  shows "x = y"
proof -
  have "bit x n = bit y n" for n
  proof (induction "LENGTH('a) - n" arbitrary: n rule: less_induct)
    case less
    have "bit (x XOR drop_bit k x) n = bit (y XOR drop_bit k y) n" using assms(2) by simp
    moreover have "bit x (k + n) = bit y (k + n)"
    proof (cases "n < LENGTH('a)")
      case True
      then show ?thesis using less assms(1) by simp
    next
      case False
      then show ?thesis by (auto dest: bit_imp_le_length)
    qed
    ultimately show ?case by (auto simp: bit_xor_iff bit_drop_bit_eq)
  qed
  then show ?thesis by (auto intro: bit_word_eqI)
qed

lemma xorshift_inj: "xorshift x = xorshift y \<Longrightarrow> x = y"
  unfolding xorshift_def Let_def
  using xor_push_inj [of 5] xor_drop_inj [of 17] xor_push_inj [of 13] zero_less_numeral by metis

lemma xorshift_0 [simp]: "xorshift 0 = 0"
  by (simp add: xorshift_def)

lemma xorshift_nonzero: "x \<noteq> 0 \<Longrightarrow> xorshift x \<noteq> 0"
  using xorshift_inj [of x 0] by auto

lemma race_seed_nonzero: "race_seed address \<noteq> 0"
proof -
  have "bit (race_seed address) 0" by (simp add: race_seed_def bit_or_iff)
  then show ?thesis by auto
qed

lemma mask_3_1_not_7_4: "x AND 3 = 1 \<Longrightarrow> x AND 7 \<noteq> (4 :: 32 word)"
proof
  assume a: "x AND 3 = 1" "x AND 7 = 4"
  have "x AND 3 = (x AND 7) AND 3" by (simp add: and.assoc)
  with a show False by simp
qed

lemma race_call:
  "\<exists>a x1. MULLE_THREAD_UNPLEASANT_RACE_YIELD win32 address x = (a, x1) \<and> a \<noteq> Sleeps \<and> x1 \<noteq> 0 \<and>
    (x \<noteq> 0 \<longrightarrow> x1 = xorshift x)"
  using mask_3_1_not_7_4 xorshift_nonzero race_seed_nonzero
  by (auto simp: MULLE_THREAD_UNPLEASANT_RACE_YIELD_def Let_def)

lemma race_calls_state:
  assumes "x \<noteq> 0"
  shows "snd (race_calls win32 address n x) = (xorshift ^^ n) x \<and>
    snd (race_calls win32 address n x) \<noteq> 0 \<and> Sleeps \<notin> set (fst (race_calls win32 address n x))"
  using assms
proof (induction n arbitrary: x)
  case (Suc n)
  from race_call [of win32 address x] Suc.prems obtain a x1 where
    c: "MULLE_THREAD_UNPLEASANT_RACE_YIELD win32 address x = (a, x1)" "a \<noteq> Sleeps" "x1 \<noteq> 0"
      "x1 = xorshift x" by blast
  have "race_calls win32 address (Suc n) x =
      (a # fst (race_calls win32 address n x1), snd (race_calls win32 address n x1))"
    using c(1) by (simp add: case_prod_beta)
  moreover have "(xorshift ^^ Suc n) x = (xorshift ^^ n) x1"
    unfolding c(4) by (simp add: funpow_Suc_right del: funpow.simps)
  ultimately show ?case using Suc.IH [OF c(3)] c(2) by auto
qed simp

subsection \<open>Properties\<close>

text \<open>\<open>MULLE_THREAD_UNPLEASANT_RACE_YIELD\<close> seeds its generator only once: after the first
  call the state is never 0 again, and after \<open>n + 1\<close> calls it is the seed advanced \<open>n + 1\<close>
  times. But it never sleeps, on any platform: the test for the sleep is made only where the two
  lowest bits are 1 and asks for them to be 0. The comment there promises a chance of 1:64.\<close>

theorem race_yield_never_sleeps:
  "snd (race_calls win32 address (Suc n) 0) = (xorshift ^^ Suc n) (race_seed address) \<and>
   snd (race_calls win32 address (Suc n) 0) \<noteq> 0 \<and>
   Sleeps \<notin> set (fst (race_calls win32 address (Suc n) 0))"
proof -
  have c: "MULLE_THREAD_UNPLEASANT_RACE_YIELD win32 address 0 =
      MULLE_THREAD_UNPLEASANT_RACE_YIELD win32 address (race_seed address)"
    using race_seed_nonzero [of address] by (simp add: MULLE_THREAD_UNPLEASANT_RACE_YIELD_def)
  then have "race_calls win32 address (Suc n) 0 = race_calls win32 address (Suc n) (race_seed address)"
    by simp
  with race_calls_state [OF race_seed_nonzero, of win32 address "Suc n" address] show ?thesis
    by metis
qed

end
