(* ===== verification/Atomic_Memory.thy ===== *)
theory Atomic_Memory
  imports Prelude
begin

text \<open>
  The shared memory of the C abstract machine and the operations of \<open><stdatomic.h>\<close> that
  the source uses. A memory holds the contents of every atomic object and the log of the
  accesses so far, oldest first, each with the thread that made it and its memory order.
  Accesses are executed one at a time (an interleaving of the threads); the order arguments
  are kept in the log, so that claims about synchronisation are claims about the log.
\<close>

datatype memory_order =
    memory_order_relaxed
  | memory_order_acquire
  | memory_order_release
  | memory_order_acq_rel
  | memory_order_seq_cst

datatype event =
    Load tid addr memory_order ptr
  | Store tid addr memory_order ptr
  | Rmw tid addr memory_order ptr ptr
  | Fence tid memory_order
  | Plain_load tid addr ptr
  | Plain_store tid addr ptr

record mem =
  cells :: "addr \<Rightarrow> ptr"
  log :: "event list"

definition log_event :: "event \<Rightarrow> mem \<Rightarrow> mem" where
  "log_event e m = m\<lparr>log := log m @ [e]\<rparr>"

definition set_cell :: "addr \<Rightarrow> ptr \<Rightarrow> mem \<Rightarrow> mem" where
  "set_cell a v m = m\<lparr>cells := (cells m)(a := v)\<rparr>"

lemma cells_log_event [simp]: "cells (log_event e m) = cells m"
  by (simp add: log_event_def)

lemma log_log_event [simp]: "log (log_event e m) = log m @ [e]"
  by (simp add: log_event_def)

lemma cells_set_cell [simp]: "cells (set_cell a v m) = (cells m)(a := v)"
  by (simp add: set_cell_def)

lemma log_set_cell [simp]: "log (set_cell a v m) = log m"
  by (simp add: set_cell_def)

text \<open>A plain (non-atomic) access through a cast of the atomic's address.\<close>

definition plain_load :: "tid \<Rightarrow> addr \<Rightarrow> mem \<Rightarrow> ptr \<times> mem" where
  "plain_load t a m = (cells m a, log_event (Plain_load t a (cells m a)) m)"

definition plain_store :: "tid \<Rightarrow> addr \<Rightarrow> ptr \<Rightarrow> mem \<Rightarrow> mem" where
  "plain_store t a v m = log_event (Plain_store t a v) (set_cell a v m)"

definition atomic_load_explicit :: "tid \<Rightarrow> addr \<Rightarrow> memory_order \<Rightarrow> mem \<Rightarrow> ptr \<times> mem" where
  "atomic_load_explicit t a mo m = (cells m a, log_event (Load t a mo (cells m a)) m)"

definition atomic_store_explicit :: "tid \<Rightarrow> addr \<Rightarrow> ptr \<Rightarrow> memory_order \<Rightarrow> mem \<Rightarrow> mem" where
  "atomic_store_explicit t a v mo m = log_event (Store t a mo v) (set_cell a v m)"

text \<open>
  Compare-and-exchange: the result flag and the new contents of \<open>*expected\<close>. A failed
  exchange is a load with the failure order. The weak form may fail although the values
  agree (C11 7.17.7.4); whether it does is the argument \<open>spurious\<close>, chosen by the
  environment at every call, and even then \<open>*expected\<close> receives the current contents.
\<close>

definition compare_exchange ::
  "bool \<Rightarrow> tid \<Rightarrow> addr \<Rightarrow> ptr \<Rightarrow> ptr \<Rightarrow> memory_order \<Rightarrow> memory_order \<Rightarrow> mem \<Rightarrow> (bool \<times> ptr) \<times> mem"
where
  "compare_exchange spurious t a expected desired succ fail m =
     (let current = cells m a in
      if current = expected \<and> \<not> spurious
      then ((True, expected), log_event (Rmw t a succ current desired) (set_cell a desired m))
      else ((False, current), log_event (Load t a fail current) m))"

definition atomic_compare_exchange_strong_explicit ::
  "tid \<Rightarrow> addr \<Rightarrow> ptr \<Rightarrow> ptr \<Rightarrow> memory_order \<Rightarrow> memory_order \<Rightarrow> mem \<Rightarrow> (bool \<times> ptr) \<times> mem"
where
  "atomic_compare_exchange_strong_explicit = compare_exchange False"

definition atomic_compare_exchange_weak_explicit ::
  "bool \<Rightarrow> tid \<Rightarrow> addr \<Rightarrow> ptr \<Rightarrow> ptr \<Rightarrow> memory_order \<Rightarrow> memory_order \<Rightarrow> mem \<Rightarrow> (bool \<times> ptr) \<times> mem"
where
  "atomic_compare_exchange_weak_explicit = compare_exchange"

text \<open>\<open>atomic_fetch_add_explicit\<close> returns the previous contents and wraps silently.\<close>

definition atomic_fetch_add_explicit ::
  "tid \<Rightarrow> addr \<Rightarrow> ptr \<Rightarrow> memory_order \<Rightarrow> mem \<Rightarrow> ptr \<times> mem"
where
  "atomic_fetch_add_explicit t a d mo m =
     (let current = cells m a
      in (current, log_event (Rmw t a mo current (current + d)) (set_cell a (current + d) m)))"

definition atomic_thread_fence :: "tid \<Rightarrow> memory_order \<Rightarrow> mem \<Rightarrow> mem" where
  "atomic_thread_fence t mo m = log_event (Fence t mo) m"

lemmas stdatomic_defs =
  plain_load_def plain_store_def atomic_load_explicit_def atomic_store_explicit_def
  compare_exchange_def atomic_compare_exchange_strong_explicit_def
  atomic_compare_exchange_weak_explicit_def atomic_fetch_add_explicit_def
  atomic_thread_fence_def

end
