(* ===== verification/Atomic_C11.thy ===== *)
theory Atomic_C11
  imports Atomic_Memory
begin

text \<open>
  The C11 backend, \<open>src/mulle-atomic-c11.h\<close>: every function of the header over the
  operations of \<open><stdatomic.h>\<close>. The names are the source's with the prefix \<open>c11_\<close>;
  the leading underscores are dropped and a double underscore is the suffix \<open>_actual\<close>.
  \<open>ndebug\<close> is the build flag that switches \<open>assert\<close> off, \<open>spurious\<close> the choice of the
  hardware to let a weak exchange fail. The tracing branches (\<open>MULLE_ATOMIC_TRACE\<close>) make
  the same accesses and only add output, which is not modelled.
\<close>

subsection \<open>Function pointers: set and get\<close>

definition c11_mulle_atomic_functionpointer_read_nonatomic :: "tid \<Rightarrow> addr \<Rightarrow> mem \<Rightarrow> ptr \<times> mem" where
  "c11_mulle_atomic_functionpointer_read_nonatomic t p m = plain_load t p m"

definition c11_mulle_atomic_functionpointer_nonatomic_read :: "tid \<Rightarrow> addr \<Rightarrow> mem \<Rightarrow> ptr \<times> mem" where
  "c11_mulle_atomic_functionpointer_nonatomic_read t p m = plain_load t p m"

definition c11_mulle_atomic_functionpointer_write_nonatomic :: "tid \<Rightarrow> addr \<Rightarrow> ptr \<Rightarrow> mem \<Rightarrow> mem" where
  "c11_mulle_atomic_functionpointer_write_nonatomic t p value m = plain_store t p value m"

definition c11_mulle_atomic_functionpointer_nonatomic_write :: "tid \<Rightarrow> addr \<Rightarrow> ptr \<Rightarrow> mem \<Rightarrow> mem" where
  "c11_mulle_atomic_functionpointer_nonatomic_write t p value m = plain_store t p value m"

definition c11_mulle_atomic_functionpointer_read :: "tid \<Rightarrow> addr \<Rightarrow> mem \<Rightarrow> ptr \<times> mem" where
  "c11_mulle_atomic_functionpointer_read t address m =
     atomic_load_explicit t address memory_order_seq_cst m"

definition c11_mulle_atomic_functionpointer_read_acquire :: "tid \<Rightarrow> addr \<Rightarrow> mem \<Rightarrow> ptr \<times> mem" where
  "c11_mulle_atomic_functionpointer_read_acquire t address m =
     atomic_load_explicit t address memory_order_acquire m"

definition c11_mulle_atomic_functionpointer_read_relaxed :: "tid \<Rightarrow> addr \<Rightarrow> mem \<Rightarrow> ptr \<times> mem" where
  "c11_mulle_atomic_functionpointer_read_relaxed t address m =
     atomic_load_explicit t address memory_order_relaxed m"

definition c11_mulle_atomic_functionpointer_write :: "tid \<Rightarrow> addr \<Rightarrow> ptr \<Rightarrow> mem \<Rightarrow> mem" where
  "c11_mulle_atomic_functionpointer_write t address value m =
     atomic_store_explicit t address value memory_order_seq_cst m"

definition c11_mulle_atomic_functionpointer_write_relaxed :: "tid \<Rightarrow> addr \<Rightarrow> ptr \<Rightarrow> mem \<Rightarrow> mem" where
  "c11_mulle_atomic_functionpointer_write_relaxed t address value m =
     atomic_store_explicit t address value memory_order_relaxed m"

subsection \<open>Function pointers: compare and swap\<close>

text \<open>The functions whose C name starts with two underscores return the value found
  (suffix \<open>_actual\<close> here), those with one underscore a success flag.\<close>

definition c11_mulle_atomic_functionpointer_weakcas_actual :: "bool \<Rightarrow> tid \<Rightarrow> addr \<Rightarrow> ptr \<Rightarrow> ptr \<Rightarrow> mem \<Rightarrow> ptr \<times> mem" where
  "c11_mulle_atomic_functionpointer_weakcas_actual spurious t address value expect m =
     (case atomic_compare_exchange_weak_explicit spurious t address expect value
             memory_order_seq_cst memory_order_seq_cst m of
        ((result, actual), m') \<Rightarrow> (actual, m'))"

definition c11_mulle_atomic_functionpointer_weakcas_relaxed_actual :: "bool \<Rightarrow> tid \<Rightarrow> addr \<Rightarrow> ptr \<Rightarrow> ptr \<Rightarrow> mem \<Rightarrow> ptr \<times> mem" where
  "c11_mulle_atomic_functionpointer_weakcas_relaxed_actual spurious t address value expect m =
     (case atomic_compare_exchange_weak_explicit spurious t address expect value
             memory_order_relaxed memory_order_relaxed m of
        ((result, actual), m') \<Rightarrow> (actual, m'))"

definition c11_mulle_atomic_functionpointer_weakcas :: "bool \<Rightarrow> bool \<Rightarrow> tid \<Rightarrow> addr \<Rightarrow> ptr \<Rightarrow> ptr \<Rightarrow> mem \<Rightarrow> fault + (int \<times> mem)" where
  "c11_mulle_atomic_functionpointer_weakcas spurious ndebug t address value expect m =
     c_assert ndebug (value \<noteq> expect)
       (case atomic_compare_exchange_weak_explicit spurious t address expect value
               memory_order_seq_cst memory_order_seq_cst m of
          ((result, actual), m') \<Rightarrow> Inr (c_bool result, m'))"

definition c11_mulle_atomic_functionpointer_weakcas_relaxed :: "bool \<Rightarrow> bool \<Rightarrow> tid \<Rightarrow> addr \<Rightarrow> ptr \<Rightarrow> ptr \<Rightarrow> mem \<Rightarrow> fault + (int \<times> mem)" where
  "c11_mulle_atomic_functionpointer_weakcas_relaxed spurious ndebug t address value expect m =
     c_assert ndebug (value \<noteq> expect)
       (case atomic_compare_exchange_weak_explicit spurious t address expect value
               memory_order_relaxed memory_order_relaxed m of
          ((result, actual), m') \<Rightarrow> Inr (c_bool result, m'))"

definition c11_mulle_atomic_functionpointer_cas_actual :: "tid \<Rightarrow> addr \<Rightarrow> ptr \<Rightarrow> ptr \<Rightarrow> mem \<Rightarrow> ptr \<times> mem" where
  "c11_mulle_atomic_functionpointer_cas_actual t address value expect m =
     (case atomic_compare_exchange_strong_explicit t address expect value
             memory_order_seq_cst memory_order_seq_cst m of
        ((result, actual), m') \<Rightarrow> (actual, m'))"

definition c11_mulle_atomic_functionpointer_cas_relaxed_actual :: "tid \<Rightarrow> addr \<Rightarrow> ptr \<Rightarrow> ptr \<Rightarrow> mem \<Rightarrow> ptr \<times> mem" where
  "c11_mulle_atomic_functionpointer_cas_relaxed_actual t address value expect m =
     (case atomic_compare_exchange_strong_explicit t address expect value
             memory_order_relaxed memory_order_relaxed m of
        ((result, actual), m') \<Rightarrow> (actual, m'))"

definition c11_mulle_atomic_functionpointer_cas :: "bool \<Rightarrow> tid \<Rightarrow> addr \<Rightarrow> ptr \<Rightarrow> ptr \<Rightarrow> mem \<Rightarrow> fault + (int \<times> mem)" where
  "c11_mulle_atomic_functionpointer_cas ndebug t address value expect m =
     c_assert ndebug (value \<noteq> expect)
       (case atomic_compare_exchange_strong_explicit t address expect value
               memory_order_seq_cst memory_order_seq_cst m of
          ((result, actual), m') \<Rightarrow> Inr (c_bool result, m'))"

definition c11_mulle_atomic_functionpointer_cas_relaxed :: "bool \<Rightarrow> tid \<Rightarrow> addr \<Rightarrow> ptr \<Rightarrow> ptr \<Rightarrow> mem \<Rightarrow> fault + (int \<times> mem)" where
  "c11_mulle_atomic_functionpointer_cas_relaxed ndebug t address value expect m =
     c_assert ndebug (value \<noteq> expect)
       (case atomic_compare_exchange_strong_explicit t address expect value
               memory_order_relaxed memory_order_relaxed m of
          ((result, actual), m') \<Rightarrow> Inr (c_bool result, m'))"

subsection \<open>Pointers: set and get\<close>

definition c11_mulle_atomic_pointer_nonatomic_read :: "tid \<Rightarrow> addr \<Rightarrow> mem \<Rightarrow> ptr \<times> mem" where
  "c11_mulle_atomic_pointer_nonatomic_read t p m = plain_load t p m"

definition c11_mulle_atomic_pointer_read_nonatomic :: "tid \<Rightarrow> addr \<Rightarrow> mem \<Rightarrow> ptr \<times> mem" where
  "c11_mulle_atomic_pointer_read_nonatomic t p m = plain_load t p m"

definition c11_mulle_atomic_pointer_write_nonatomic :: "tid \<Rightarrow> addr \<Rightarrow> ptr \<Rightarrow> mem \<Rightarrow> mem" where
  "c11_mulle_atomic_pointer_write_nonatomic t p value m = plain_store t p value m"

definition c11_mulle_atomic_pointer_nonatomic_write :: "tid \<Rightarrow> addr \<Rightarrow> ptr \<Rightarrow> mem \<Rightarrow> mem" where
  "c11_mulle_atomic_pointer_nonatomic_write t p value m = plain_store t p value m"

definition c11_mulle_atomic_pointer_read :: "tid \<Rightarrow> addr \<Rightarrow> mem \<Rightarrow> ptr \<times> mem" where
  "c11_mulle_atomic_pointer_read t address m =
     atomic_load_explicit t address memory_order_seq_cst m"

definition c11_mulle_atomic_pointer_read_acquire :: "tid \<Rightarrow> addr \<Rightarrow> mem \<Rightarrow> ptr \<times> mem" where
  "c11_mulle_atomic_pointer_read_acquire t address m =
     atomic_load_explicit t address memory_order_acquire m"

definition c11_mulle_atomic_pointer_read_relaxed :: "tid \<Rightarrow> addr \<Rightarrow> mem \<Rightarrow> ptr \<times> mem" where
  "c11_mulle_atomic_pointer_read_relaxed t address m =
     atomic_load_explicit t address memory_order_relaxed m"

definition c11_mulle_atomic_pointer_write :: "tid \<Rightarrow> addr \<Rightarrow> ptr \<Rightarrow> mem \<Rightarrow> mem" where
  "c11_mulle_atomic_pointer_write t address value m =
     atomic_store_explicit t address value memory_order_seq_cst m"

definition c11_mulle_atomic_pointer_write_relaxed :: "tid \<Rightarrow> addr \<Rightarrow> ptr \<Rightarrow> mem \<Rightarrow> mem" where
  "c11_mulle_atomic_pointer_write_relaxed t address value m =
     atomic_store_explicit t address value memory_order_relaxed m"

subsection \<open>Pointers: compare and swap\<close>

definition c11_mulle_atomic_pointer_cas_weak_actual :: "bool \<Rightarrow> tid \<Rightarrow> addr \<Rightarrow> ptr \<Rightarrow> ptr \<Rightarrow> mem \<Rightarrow> ptr \<times> mem" where
  "c11_mulle_atomic_pointer_cas_weak_actual spurious t address value expect m =
     (case atomic_compare_exchange_weak_explicit spurious t address expect value
             memory_order_seq_cst memory_order_seq_cst m of
        ((result, actual), m') \<Rightarrow> (actual, m'))"

definition c11_mulle_atomic_pointer_cas_weak_relaxed_actual :: "bool \<Rightarrow> tid \<Rightarrow> addr \<Rightarrow> ptr \<Rightarrow> ptr \<Rightarrow> mem \<Rightarrow> ptr \<times> mem" where
  "c11_mulle_atomic_pointer_cas_weak_relaxed_actual spurious t address value expect m =
     (case atomic_compare_exchange_weak_explicit spurious t address expect value
             memory_order_relaxed memory_order_relaxed m of
        ((result, actual), m') \<Rightarrow> (actual, m'))"

definition c11_mulle_atomic_pointer_weakcas_actual :: "bool \<Rightarrow> tid \<Rightarrow> addr \<Rightarrow> ptr \<Rightarrow> ptr \<Rightarrow> mem \<Rightarrow> ptr \<times> mem" where
  "c11_mulle_atomic_pointer_weakcas_actual spurious t address value expect m =
     c11_mulle_atomic_pointer_cas_weak_actual spurious t address value expect m"

definition c11_mulle_atomic_pointer_weakcas_relaxed_actual :: "bool \<Rightarrow> tid \<Rightarrow> addr \<Rightarrow> ptr \<Rightarrow> ptr \<Rightarrow> mem \<Rightarrow> ptr \<times> mem" where
  "c11_mulle_atomic_pointer_weakcas_relaxed_actual spurious t address value expect m =
     c11_mulle_atomic_pointer_cas_weak_relaxed_actual spurious t address value expect m"

definition c11_mulle_atomic_pointer_cas_weak :: "bool \<Rightarrow> bool \<Rightarrow> tid \<Rightarrow> addr \<Rightarrow> ptr \<Rightarrow> ptr \<Rightarrow> mem \<Rightarrow> fault + (int \<times> mem)" where
  "c11_mulle_atomic_pointer_cas_weak spurious ndebug t address value expect m =
     c_assert ndebug (value \<noteq> expect)
       (case atomic_compare_exchange_weak_explicit spurious t address expect value
               memory_order_seq_cst memory_order_seq_cst m of
          ((result, actual), m') \<Rightarrow> Inr (c_bool result, m'))"

definition c11_mulle_atomic_pointer_cas_weak_relaxed :: "bool \<Rightarrow> bool \<Rightarrow> tid \<Rightarrow> addr \<Rightarrow> ptr \<Rightarrow> ptr \<Rightarrow> mem \<Rightarrow> fault + (int \<times> mem)" where
  "c11_mulle_atomic_pointer_cas_weak_relaxed spurious ndebug t address value expect m =
     c_assert ndebug (value \<noteq> expect)
       (case atomic_compare_exchange_weak_explicit spurious t address expect value
               memory_order_relaxed memory_order_relaxed m of
          ((result, actual), m') \<Rightarrow> Inr (c_bool result, m'))"

definition c11_mulle_atomic_pointer_weakcas :: "bool \<Rightarrow> bool \<Rightarrow> tid \<Rightarrow> addr \<Rightarrow> ptr \<Rightarrow> ptr \<Rightarrow> mem \<Rightarrow> fault + (int \<times> mem)" where
  "c11_mulle_atomic_pointer_weakcas spurious ndebug t address value expect m =
     c11_mulle_atomic_pointer_cas_weak spurious ndebug t address value expect m"

definition c11_mulle_atomic_pointer_weakcas_relaxed :: "bool \<Rightarrow> bool \<Rightarrow> tid \<Rightarrow> addr \<Rightarrow> ptr \<Rightarrow> ptr \<Rightarrow> mem \<Rightarrow> fault + (int \<times> mem)" where
  "c11_mulle_atomic_pointer_weakcas_relaxed spurious ndebug t address value expect m =
     c11_mulle_atomic_pointer_cas_weak_relaxed spurious ndebug t address value expect m"

definition c11_mulle_atomic_pointer_cas_actual :: "tid \<Rightarrow> addr \<Rightarrow> ptr \<Rightarrow> ptr \<Rightarrow> mem \<Rightarrow> ptr \<times> mem" where
  "c11_mulle_atomic_pointer_cas_actual t address value expect m =
     (case atomic_compare_exchange_strong_explicit t address expect value
             memory_order_seq_cst memory_order_seq_cst m of
        ((result, actual), m') \<Rightarrow> (actual, m'))"

definition c11_mulle_atomic_pointer_cas_relaxed_actual :: "tid \<Rightarrow> addr \<Rightarrow> ptr \<Rightarrow> ptr \<Rightarrow> mem \<Rightarrow> ptr \<times> mem" where
  "c11_mulle_atomic_pointer_cas_relaxed_actual t address value expect m =
     (case atomic_compare_exchange_strong_explicit t address expect value
             memory_order_relaxed memory_order_relaxed m of
        ((result, actual), m') \<Rightarrow> (actual, m'))"

definition c11_mulle_atomic_pointer_cas :: "bool \<Rightarrow> tid \<Rightarrow> addr \<Rightarrow> ptr \<Rightarrow> ptr \<Rightarrow> mem \<Rightarrow> fault + (int \<times> mem)" where
  "c11_mulle_atomic_pointer_cas ndebug t address value expect m =
     c_assert ndebug (value \<noteq> expect)
       (case atomic_compare_exchange_strong_explicit t address expect value
               memory_order_seq_cst memory_order_seq_cst m of
          ((result, actual), m') \<Rightarrow> Inr (c_bool result, m'))"

definition c11_mulle_atomic_pointer_cas_relaxed :: "bool \<Rightarrow> tid \<Rightarrow> addr \<Rightarrow> ptr \<Rightarrow> ptr \<Rightarrow> mem \<Rightarrow> fault + (int \<times> mem)" where
  "c11_mulle_atomic_pointer_cas_relaxed ndebug t address value expect m =
     c_assert ndebug (value \<noteq> expect)
       (case atomic_compare_exchange_strong_explicit t address expect value
               memory_order_relaxed memory_order_relaxed m of
          ((result, actual), m') \<Rightarrow> Inr (c_bool result, m'))"

subsection \<open>Arithmetic and fence\<close>

text \<open>The arithmetic reads the pointer-sized cell as an integer; increment and decrement
  return the previous value, add returns the result.\<close>

definition c11_mulle_atomic_pointer_increment :: "tid \<Rightarrow> addr \<Rightarrow> mem \<Rightarrow> ptr \<times> mem" where
  "c11_mulle_atomic_pointer_increment t address m =
     atomic_fetch_add_explicit t address 1 memory_order_seq_cst m"

definition c11_mulle_atomic_pointer_increment_relaxed :: "tid \<Rightarrow> addr \<Rightarrow> mem \<Rightarrow> ptr \<times> mem" where
  "c11_mulle_atomic_pointer_increment_relaxed t address m =
     atomic_fetch_add_explicit t address 1 memory_order_relaxed m"

definition c11_mulle_atomic_pointer_decrement :: "tid \<Rightarrow> addr \<Rightarrow> mem \<Rightarrow> ptr \<times> mem" where
  "c11_mulle_atomic_pointer_decrement t address m =
     atomic_fetch_add_explicit t address (- 1) memory_order_seq_cst m"

definition c11_mulle_atomic_pointer_decrement_relaxed :: "tid \<Rightarrow> addr \<Rightarrow> mem \<Rightarrow> ptr \<times> mem" where
  "c11_mulle_atomic_pointer_decrement_relaxed t address m =
     atomic_fetch_add_explicit t address (- 1) memory_order_relaxed m"

definition c11_mulle_atomic_pointer_add :: "tid \<Rightarrow> addr \<Rightarrow> intptr \<Rightarrow> mem \<Rightarrow> ptr \<times> mem" where
  "c11_mulle_atomic_pointer_add t address diff m =
     (case atomic_fetch_add_explicit t address diff memory_order_seq_cst m of
        (previous, m') \<Rightarrow> (previous + diff, m'))"

definition c11_mulle_atomic_pointer_add_relaxed :: "tid \<Rightarrow> addr \<Rightarrow> intptr \<Rightarrow> mem \<Rightarrow> ptr \<times> mem" where
  "c11_mulle_atomic_pointer_add_relaxed t address diff m =
     (case atomic_fetch_add_explicit t address diff memory_order_relaxed m of
        (previous, m') \<Rightarrow> (previous + diff, m'))"

definition c11_mulle_atomic_memory_barrier :: "tid \<Rightarrow> mem \<Rightarrow> mem" where
  "c11_mulle_atomic_memory_barrier t m = atomic_thread_fence t memory_order_seq_cst m"

lemmas c11_pointer_defs =
  c11_mulle_atomic_pointer_nonatomic_read_def c11_mulle_atomic_pointer_read_nonatomic_def
  c11_mulle_atomic_pointer_write_nonatomic_def c11_mulle_atomic_pointer_nonatomic_write_def
  c11_mulle_atomic_pointer_read_def c11_mulle_atomic_pointer_read_acquire_def
  c11_mulle_atomic_pointer_read_relaxed_def c11_mulle_atomic_pointer_write_def
  c11_mulle_atomic_pointer_write_relaxed_def c11_mulle_atomic_pointer_cas_weak_actual_def
  c11_mulle_atomic_pointer_cas_weak_relaxed_actual_def
  c11_mulle_atomic_pointer_weakcas_actual_def
  c11_mulle_atomic_pointer_weakcas_relaxed_actual_def c11_mulle_atomic_pointer_cas_weak_def
  c11_mulle_atomic_pointer_cas_weak_relaxed_def c11_mulle_atomic_pointer_weakcas_def
  c11_mulle_atomic_pointer_weakcas_relaxed_def c11_mulle_atomic_pointer_cas_actual_def
  c11_mulle_atomic_pointer_cas_relaxed_actual_def c11_mulle_atomic_pointer_cas_def
  c11_mulle_atomic_pointer_cas_relaxed_def c11_mulle_atomic_pointer_increment_def
  c11_mulle_atomic_pointer_increment_relaxed_def c11_mulle_atomic_pointer_decrement_def
  c11_mulle_atomic_pointer_decrement_relaxed_def c11_mulle_atomic_pointer_add_def
  c11_mulle_atomic_pointer_add_relaxed_def c11_mulle_atomic_memory_barrier_def

lemmas c11_functionpointer_defs =
  c11_mulle_atomic_functionpointer_read_nonatomic_def
  c11_mulle_atomic_functionpointer_nonatomic_read_def
  c11_mulle_atomic_functionpointer_write_nonatomic_def
  c11_mulle_atomic_functionpointer_nonatomic_write_def
  c11_mulle_atomic_functionpointer_read_def c11_mulle_atomic_functionpointer_read_acquire_def
  c11_mulle_atomic_functionpointer_read_relaxed_def c11_mulle_atomic_functionpointer_write_def
  c11_mulle_atomic_functionpointer_write_relaxed_def
  c11_mulle_atomic_functionpointer_weakcas_actual_def
  c11_mulle_atomic_functionpointer_weakcas_relaxed_actual_def
  c11_mulle_atomic_functionpointer_weakcas_def
  c11_mulle_atomic_functionpointer_weakcas_relaxed_def
  c11_mulle_atomic_functionpointer_cas_actual_def
  c11_mulle_atomic_functionpointer_cas_relaxed_actual_def
  c11_mulle_atomic_functionpointer_cas_def c11_mulle_atomic_functionpointer_cas_relaxed_def

end
