(* ===== verification/Atomic_Mintomic.thy ===== *)
theory Atomic_Mintomic
  imports Atomic_C11
begin

text \<open>
  The mintomic backend, \<open>src/mulle-atomic-mintomic.h\<close>: every function of the header. The
  library mintomic is not part of the repository, so its six operations the header calls
  are a parameter, the record \<open>mintomic\<close>, and what the header relies on (its documented
  meaning) are the laws of the locale \<open>mintomic_api\<close>. Names as in \<open>Atomic_C11\<close>, with
  the prefix \<open>mint_\<close>. A function pointer is a pointer-sized cell here too: the header
  asserts the sizes equal at compile time and casts.
\<close>

record mintomic =
  mint_load_ptr_relaxed :: "tid \<Rightarrow> addr \<Rightarrow> mem \<Rightarrow> ptr \<times> mem"
  mint_store_ptr_relaxed :: "tid \<Rightarrow> addr \<Rightarrow> ptr \<Rightarrow> mem \<Rightarrow> mem"
  mint_compare_exchange_strong_ptr_relaxed ::
    "tid \<Rightarrow> addr \<Rightarrow> ptr \<Rightarrow> ptr \<Rightarrow> mem \<Rightarrow> ptr \<times> mem"
  mint_fetch_add_ptr_relaxed :: "tid \<Rightarrow> addr \<Rightarrow> ptr \<Rightarrow> mem \<Rightarrow> ptr \<times> mem"
  mint_thread_fence_seq_cst :: "tid \<Rightarrow> mem \<Rightarrow> mem"
  mint_thread_fence_acquire :: "tid \<Rightarrow> mem \<Rightarrow> mem"

subsection \<open>Value pointers\<close>

definition mint_mulle_atomic_pointer_read_nonatomic :: "mintomic \<Rightarrow> tid \<Rightarrow> addr \<Rightarrow> mem \<Rightarrow> ptr \<times> mem" where
  "mint_mulle_atomic_pointer_read_nonatomic M t address m = plain_load t address m"

definition mint_mulle_atomic_pointer_nonatomic_read :: "mintomic \<Rightarrow> tid \<Rightarrow> addr \<Rightarrow> mem \<Rightarrow> ptr \<times> mem" where
  "mint_mulle_atomic_pointer_nonatomic_read M t address m = plain_load t address m"

definition mint_mulle_atomic_pointer_nonatomic_write :: "mintomic \<Rightarrow> tid \<Rightarrow> addr \<Rightarrow> ptr \<Rightarrow> mem \<Rightarrow> mem" where
  "mint_mulle_atomic_pointer_nonatomic_write M t address value m = plain_store t address value m"

definition mint_mulle_atomic_pointer_write_nonatomic :: "mintomic \<Rightarrow> tid \<Rightarrow> addr \<Rightarrow> ptr \<Rightarrow> mem \<Rightarrow> mem" where
  "mint_mulle_atomic_pointer_write_nonatomic M t address value m = plain_store t address value m"

definition mint_mulle_atomic_pointer_read :: "mintomic \<Rightarrow> tid \<Rightarrow> addr \<Rightarrow> mem \<Rightarrow> ptr \<times> mem" where
  "mint_mulle_atomic_pointer_read M t address m =
     (case mint_load_ptr_relaxed M t address m of
        (result, m') \<Rightarrow> (result, mint_thread_fence_seq_cst M t m'))"

definition mint_mulle_atomic_pointer_read_acquire :: "mintomic \<Rightarrow> tid \<Rightarrow> addr \<Rightarrow> mem \<Rightarrow> ptr \<times> mem" where
  "mint_mulle_atomic_pointer_read_acquire M t address m =
     (case mint_load_ptr_relaxed M t address m of
        (result, m') \<Rightarrow> (result, mint_thread_fence_acquire M t m'))"

definition mint_mulle_atomic_pointer_read_relaxed :: "mintomic \<Rightarrow> tid \<Rightarrow> addr \<Rightarrow> mem \<Rightarrow> ptr \<times> mem" where
  "mint_mulle_atomic_pointer_read_relaxed M t address m = mint_load_ptr_relaxed M t address m"

definition mint_mulle_atomic_pointer_write :: "mintomic \<Rightarrow> tid \<Rightarrow> addr \<Rightarrow> ptr \<Rightarrow> mem \<Rightarrow> mem" where
  "mint_mulle_atomic_pointer_write M t address value m =
     mint_store_ptr_relaxed M t address value (mint_thread_fence_seq_cst M t m)"

definition mint_mulle_atomic_pointer_write_relaxed :: "mintomic \<Rightarrow> tid \<Rightarrow> addr \<Rightarrow> ptr \<Rightarrow> mem \<Rightarrow> mem" where
  "mint_mulle_atomic_pointer_write_relaxed M t address value m =
     mint_store_ptr_relaxed M t address value m"

definition mint_mulle_atomic_pointer_cas_actual :: "mintomic \<Rightarrow> tid \<Rightarrow> addr \<Rightarrow> ptr \<Rightarrow> ptr \<Rightarrow> mem \<Rightarrow> ptr \<times> mem" where
  "mint_mulle_atomic_pointer_cas_actual M t address value expect m =
     mint_compare_exchange_strong_ptr_relaxed M t address expect value m"

definition mint_mulle_atomic_pointer_cas_relaxed_actual :: "mintomic \<Rightarrow> tid \<Rightarrow> addr \<Rightarrow> ptr \<Rightarrow> ptr \<Rightarrow> mem \<Rightarrow> ptr \<times> mem" where
  "mint_mulle_atomic_pointer_cas_relaxed_actual M t address value expect m =
     mint_compare_exchange_strong_ptr_relaxed M t address expect value m"

definition mint_mulle_atomic_pointer_cas_weak_actual :: "mintomic \<Rightarrow> tid \<Rightarrow> addr \<Rightarrow> ptr \<Rightarrow> ptr \<Rightarrow> mem \<Rightarrow> ptr \<times> mem" where
  "mint_mulle_atomic_pointer_cas_weak_actual M t address value expect m =
     mint_mulle_atomic_pointer_cas_actual M t address value expect m"

definition mint_mulle_atomic_pointer_cas_weak_relaxed_actual :: "mintomic \<Rightarrow> tid \<Rightarrow> addr \<Rightarrow> ptr \<Rightarrow> ptr \<Rightarrow> mem \<Rightarrow> ptr \<times> mem" where
  "mint_mulle_atomic_pointer_cas_weak_relaxed_actual M t address value expect m =
     mint_mulle_atomic_pointer_cas_relaxed_actual M t address value expect m"

definition mint_mulle_atomic_pointer_weakcas_actual :: "mintomic \<Rightarrow> tid \<Rightarrow> addr \<Rightarrow> ptr \<Rightarrow> ptr \<Rightarrow> mem \<Rightarrow> ptr \<times> mem" where
  "mint_mulle_atomic_pointer_weakcas_actual M t address value expect m =
     mint_mulle_atomic_pointer_cas_actual M t address value expect m"

definition mint_mulle_atomic_pointer_weakcas_relaxed_actual :: "mintomic \<Rightarrow> tid \<Rightarrow> addr \<Rightarrow> ptr \<Rightarrow> ptr \<Rightarrow> mem \<Rightarrow> ptr \<times> mem" where
  "mint_mulle_atomic_pointer_weakcas_relaxed_actual M t address value expect m =
     mint_mulle_atomic_pointer_cas_relaxed_actual M t address value expect m"

definition mint_mulle_atomic_pointer_cas :: "mintomic \<Rightarrow> tid \<Rightarrow> addr \<Rightarrow> ptr \<Rightarrow> ptr \<Rightarrow> mem \<Rightarrow> int \<times> mem" where
  "mint_mulle_atomic_pointer_cas M t address value expect m =
     (case mint_mulle_atomic_pointer_cas_actual M t address value expect m of
        (result, m') \<Rightarrow> (c_bool (result = expect), m'))"

definition mint_mulle_atomic_pointer_cas_relaxed :: "mintomic \<Rightarrow> tid \<Rightarrow> addr \<Rightarrow> ptr \<Rightarrow> ptr \<Rightarrow> mem \<Rightarrow> int \<times> mem" where
  "mint_mulle_atomic_pointer_cas_relaxed M t address value expect m =
     (case mint_mulle_atomic_pointer_cas_relaxed_actual M t address value expect m of
        (result, m') \<Rightarrow> (c_bool (result = expect), m'))"

definition mint_mulle_atomic_pointer_cas_weak :: "mintomic \<Rightarrow> tid \<Rightarrow> addr \<Rightarrow> ptr \<Rightarrow> ptr \<Rightarrow> mem \<Rightarrow> int \<times> mem" where
  "mint_mulle_atomic_pointer_cas_weak M t address value expect m =
     mint_mulle_atomic_pointer_cas M t address value expect m"

definition mint_mulle_atomic_pointer_cas_weak_relaxed :: "mintomic \<Rightarrow> tid \<Rightarrow> addr \<Rightarrow> ptr \<Rightarrow> ptr \<Rightarrow> mem \<Rightarrow> int \<times> mem" where
  "mint_mulle_atomic_pointer_cas_weak_relaxed M t address value expect m =
     mint_mulle_atomic_pointer_cas_relaxed M t address value expect m"

definition mint_mulle_atomic_pointer_weakcas :: "mintomic \<Rightarrow> tid \<Rightarrow> addr \<Rightarrow> ptr \<Rightarrow> ptr \<Rightarrow> mem \<Rightarrow> int \<times> mem" where
  "mint_mulle_atomic_pointer_weakcas M t address value expect m =
     mint_mulle_atomic_pointer_cas M t address value expect m"

definition mint_mulle_atomic_pointer_weakcas_relaxed :: "mintomic \<Rightarrow> tid \<Rightarrow> addr \<Rightarrow> ptr \<Rightarrow> ptr \<Rightarrow> mem \<Rightarrow> int \<times> mem" where
  "mint_mulle_atomic_pointer_weakcas_relaxed M t address value expect m =
     mint_mulle_atomic_pointer_cas_relaxed M t address value expect m"

subsection \<open>Function pointers\<close>

definition mint_mulle_atomic_functionpointer_read_nonatomic :: "mintomic \<Rightarrow> tid \<Rightarrow> addr \<Rightarrow> mem \<Rightarrow> ptr \<times> mem" where
  "mint_mulle_atomic_functionpointer_read_nonatomic M t address m = mint_mulle_atomic_pointer_nonatomic_read M t address m"

definition mint_mulle_atomic_functionpointer_nonatomic_read :: "mintomic \<Rightarrow> tid \<Rightarrow> addr \<Rightarrow> mem \<Rightarrow> ptr \<times> mem" where
  "mint_mulle_atomic_functionpointer_nonatomic_read M t address m = mint_mulle_atomic_pointer_nonatomic_read M t address m"

definition mint_mulle_atomic_functionpointer_write_nonatomic :: "mintomic \<Rightarrow> tid \<Rightarrow> addr \<Rightarrow> ptr \<Rightarrow> mem \<Rightarrow> mem" where
  "mint_mulle_atomic_functionpointer_write_nonatomic M t address value m =
     mint_mulle_atomic_pointer_nonatomic_write M t address value m"

definition mint_mulle_atomic_functionpointer_nonatomic_write :: "mintomic \<Rightarrow> tid \<Rightarrow> addr \<Rightarrow> ptr \<Rightarrow> mem \<Rightarrow> mem" where
  "mint_mulle_atomic_functionpointer_nonatomic_write M t address value m =
     mint_mulle_atomic_pointer_nonatomic_write M t address value m"

definition mint_mulle_atomic_functionpointer_read :: "mintomic \<Rightarrow> tid \<Rightarrow> addr \<Rightarrow> mem \<Rightarrow> ptr \<times> mem" where
  "mint_mulle_atomic_functionpointer_read M t address m = mint_mulle_atomic_pointer_read M t address m"

definition mint_mulle_atomic_functionpointer_read_acquire :: "mintomic \<Rightarrow> tid \<Rightarrow> addr \<Rightarrow> mem \<Rightarrow> ptr \<times> mem" where
  "mint_mulle_atomic_functionpointer_read_acquire M t address m = mint_mulle_atomic_pointer_read_acquire M t address m"

definition mint_mulle_atomic_functionpointer_read_relaxed :: "mintomic \<Rightarrow> tid \<Rightarrow> addr \<Rightarrow> mem \<Rightarrow> ptr \<times> mem" where
  "mint_mulle_atomic_functionpointer_read_relaxed M t address m = mint_mulle_atomic_pointer_read_relaxed M t address m"

definition mint_mulle_atomic_functionpointer_write :: "mintomic \<Rightarrow> tid \<Rightarrow> addr \<Rightarrow> ptr \<Rightarrow> mem \<Rightarrow> mem" where
  "mint_mulle_atomic_functionpointer_write M t address value m =
     mint_mulle_atomic_pointer_write M t address value m"

definition mint_mulle_atomic_functionpointer_write_relaxed :: "mintomic \<Rightarrow> tid \<Rightarrow> addr \<Rightarrow> ptr \<Rightarrow> mem \<Rightarrow> mem" where
  "mint_mulle_atomic_functionpointer_write_relaxed M t address value m =
     mint_mulle_atomic_pointer_write_relaxed M t address value m"

definition mint_mulle_atomic_functionpointer_cas_actual :: "mintomic \<Rightarrow> tid \<Rightarrow> addr \<Rightarrow> ptr \<Rightarrow> ptr \<Rightarrow> mem \<Rightarrow> ptr \<times> mem" where
  "mint_mulle_atomic_functionpointer_cas_actual M t address value expect m =
     mint_mulle_atomic_pointer_cas_actual M t address value expect m"

definition mint_mulle_atomic_functionpointer_cas_relaxed_actual :: "mintomic \<Rightarrow> tid \<Rightarrow> addr \<Rightarrow> ptr \<Rightarrow> ptr \<Rightarrow> mem \<Rightarrow> ptr \<times> mem" where
  "mint_mulle_atomic_functionpointer_cas_relaxed_actual M t address value expect m =
     mint_mulle_atomic_pointer_cas_relaxed_actual M t address value expect m"

definition mint_mulle_atomic_functionpointer_cas :: "mintomic \<Rightarrow> tid \<Rightarrow> addr \<Rightarrow> ptr \<Rightarrow> ptr \<Rightarrow> mem \<Rightarrow> int \<times> mem" where
  "mint_mulle_atomic_functionpointer_cas M t address value expect m =
     mint_mulle_atomic_pointer_cas M t address value expect m"

definition mint_mulle_atomic_functionpointer_cas_relaxed :: "mintomic \<Rightarrow> tid \<Rightarrow> addr \<Rightarrow> ptr \<Rightarrow> ptr \<Rightarrow> mem \<Rightarrow> int \<times> mem" where
  "mint_mulle_atomic_functionpointer_cas_relaxed M t address value expect m =
     mint_mulle_atomic_pointer_cas_relaxed M t address value expect m"

definition mint_mulle_atomic_functionpointer_cas_weak :: "mintomic \<Rightarrow> tid \<Rightarrow> addr \<Rightarrow> ptr \<Rightarrow> ptr \<Rightarrow> mem \<Rightarrow> int \<times> mem" where
  "mint_mulle_atomic_functionpointer_cas_weak M t address value expect m =
     mint_mulle_atomic_pointer_weakcas M t address value expect m"

definition mint_mulle_atomic_functionpointer_cas_weak_relaxed :: "mintomic \<Rightarrow> tid \<Rightarrow> addr \<Rightarrow> ptr \<Rightarrow> ptr \<Rightarrow> mem \<Rightarrow> int \<times> mem" where
  "mint_mulle_atomic_functionpointer_cas_weak_relaxed M t address value expect m =
     mint_mulle_atomic_pointer_weakcas_relaxed M t address value expect m"

definition mint_mulle_atomic_functionpointer_weakcas :: "mintomic \<Rightarrow> tid \<Rightarrow> addr \<Rightarrow> ptr \<Rightarrow> ptr \<Rightarrow> mem \<Rightarrow> int \<times> mem" where
  "mint_mulle_atomic_functionpointer_weakcas M t address value expect m =
     mint_mulle_atomic_pointer_weakcas M t address value expect m"

definition mint_mulle_atomic_functionpointer_weakcas_relaxed :: "mintomic \<Rightarrow> tid \<Rightarrow> addr \<Rightarrow> ptr \<Rightarrow> ptr \<Rightarrow> mem \<Rightarrow> int \<times> mem" where
  "mint_mulle_atomic_functionpointer_weakcas_relaxed M t address value expect m =
     mint_mulle_atomic_pointer_weakcas_relaxed M t address value expect m"

definition mint_mulle_atomic_functionpointer_cas_weak_actual :: "mintomic \<Rightarrow> tid \<Rightarrow> addr \<Rightarrow> ptr \<Rightarrow> ptr \<Rightarrow> mem \<Rightarrow> ptr \<times> mem" where
  "mint_mulle_atomic_functionpointer_cas_weak_actual M t address value expect m =
     mint_mulle_atomic_pointer_weakcas_actual M t address value expect m"

definition mint_mulle_atomic_functionpointer_cas_weak_relaxed_actual :: "mintomic \<Rightarrow> tid \<Rightarrow> addr \<Rightarrow> ptr \<Rightarrow> ptr \<Rightarrow> mem \<Rightarrow> ptr \<times> mem" where
  "mint_mulle_atomic_functionpointer_cas_weak_relaxed_actual M t address value expect m =
     mint_mulle_atomic_pointer_weakcas_relaxed_actual M t address value expect m"

definition mint_mulle_atomic_functionpointer_weakcas_actual :: "mintomic \<Rightarrow> tid \<Rightarrow> addr \<Rightarrow> ptr \<Rightarrow> ptr \<Rightarrow> mem \<Rightarrow> ptr \<times> mem" where
  "mint_mulle_atomic_functionpointer_weakcas_actual M t address value expect m =
     mint_mulle_atomic_pointer_weakcas_actual M t address value expect m"

definition mint_mulle_atomic_functionpointer_weakcas_relaxed_actual :: "mintomic \<Rightarrow> tid \<Rightarrow> addr \<Rightarrow> ptr \<Rightarrow> ptr \<Rightarrow> mem \<Rightarrow> ptr \<times> mem" where
  "mint_mulle_atomic_functionpointer_weakcas_relaxed_actual M t address value expect m =
     mint_mulle_atomic_pointer_weakcas_relaxed_actual M t address value expect m"

subsection \<open>Arithmetic and barrier\<close>

definition mint_mulle_atomic_pointer_increment :: "mintomic \<Rightarrow> tid \<Rightarrow> addr \<Rightarrow> mem \<Rightarrow> ptr \<times> mem" where
  "mint_mulle_atomic_pointer_increment M t address m =
     (case mint_fetch_add_ptr_relaxed M t address 1 m of
        (result, m') \<Rightarrow> (result, mint_thread_fence_seq_cst M t m'))"

definition mint_mulle_atomic_pointer_increment_relaxed :: "mintomic \<Rightarrow> tid \<Rightarrow> addr \<Rightarrow> mem \<Rightarrow> ptr \<times> mem" where
  "mint_mulle_atomic_pointer_increment_relaxed M t address m = mint_fetch_add_ptr_relaxed M t address 1 m"

definition mint_mulle_atomic_pointer_decrement :: "mintomic \<Rightarrow> tid \<Rightarrow> addr \<Rightarrow> mem \<Rightarrow> ptr \<times> mem" where
  "mint_mulle_atomic_pointer_decrement M t address m =
     (case mint_fetch_add_ptr_relaxed M t address (- 1) m of
        (result, m') \<Rightarrow> (result, mint_thread_fence_seq_cst M t m'))"

definition mint_mulle_atomic_pointer_decrement_relaxed :: "mintomic \<Rightarrow> tid \<Rightarrow> addr \<Rightarrow> mem \<Rightarrow> ptr \<times> mem" where
  "mint_mulle_atomic_pointer_decrement_relaxed M t address m = mint_fetch_add_ptr_relaxed M t address (- 1) m"

definition mint_mulle_atomic_pointer_add :: "mintomic \<Rightarrow> tid \<Rightarrow> addr \<Rightarrow> intptr \<Rightarrow> mem \<Rightarrow> ptr \<times> mem" where
  "mint_mulle_atomic_pointer_add M t address diff m =
     (case mint_fetch_add_ptr_relaxed M t address diff m of
        (previous, m') \<Rightarrow> (previous + diff, mint_thread_fence_seq_cst M t m'))"

definition mint_mulle_atomic_pointer_add_relaxed :: "mintomic \<Rightarrow> tid \<Rightarrow> addr \<Rightarrow> intptr \<Rightarrow> mem \<Rightarrow> ptr \<times> mem" where
  "mint_mulle_atomic_pointer_add_relaxed M t address diff m =
     (case mint_fetch_add_ptr_relaxed M t address diff m of
        (previous, m') \<Rightarrow> (previous + diff, m'))"

definition mint_mulle_atomic_memory_barrier :: "mintomic \<Rightarrow> tid \<Rightarrow> mem \<Rightarrow> mem" where
  "mint_mulle_atomic_memory_barrier M t m = mint_thread_fence_seq_cst M t m"

lemmas mint_pointer_defs =
  mint_mulle_atomic_pointer_read_nonatomic_def
  mint_mulle_atomic_pointer_nonatomic_read_def
  mint_mulle_atomic_pointer_nonatomic_write_def
  mint_mulle_atomic_pointer_write_nonatomic_def
  mint_mulle_atomic_pointer_read_def
  mint_mulle_atomic_pointer_read_acquire_def
  mint_mulle_atomic_pointer_read_relaxed_def
  mint_mulle_atomic_pointer_write_def
  mint_mulle_atomic_pointer_write_relaxed_def
  mint_mulle_atomic_pointer_cas_actual_def
  mint_mulle_atomic_pointer_cas_relaxed_actual_def
  mint_mulle_atomic_pointer_cas_weak_actual_def
  mint_mulle_atomic_pointer_cas_weak_relaxed_actual_def
  mint_mulle_atomic_pointer_weakcas_actual_def
  mint_mulle_atomic_pointer_weakcas_relaxed_actual_def
  mint_mulle_atomic_pointer_cas_def
  mint_mulle_atomic_pointer_cas_relaxed_def
  mint_mulle_atomic_pointer_cas_weak_def
  mint_mulle_atomic_pointer_cas_weak_relaxed_def
  mint_mulle_atomic_pointer_weakcas_def
  mint_mulle_atomic_pointer_weakcas_relaxed_def
  mint_mulle_atomic_pointer_increment_def
  mint_mulle_atomic_pointer_increment_relaxed_def
  mint_mulle_atomic_pointer_decrement_def
  mint_mulle_atomic_pointer_decrement_relaxed_def
  mint_mulle_atomic_pointer_add_def
  mint_mulle_atomic_pointer_add_relaxed_def
  mint_mulle_atomic_memory_barrier_def

lemmas mint_functionpointer_defs =
  mint_mulle_atomic_functionpointer_read_nonatomic_def
  mint_mulle_atomic_functionpointer_nonatomic_read_def
  mint_mulle_atomic_functionpointer_write_nonatomic_def
  mint_mulle_atomic_functionpointer_nonatomic_write_def
  mint_mulle_atomic_functionpointer_read_def
  mint_mulle_atomic_functionpointer_read_acquire_def
  mint_mulle_atomic_functionpointer_read_relaxed_def
  mint_mulle_atomic_functionpointer_write_def
  mint_mulle_atomic_functionpointer_write_relaxed_def
  mint_mulle_atomic_functionpointer_cas_actual_def
  mint_mulle_atomic_functionpointer_cas_relaxed_actual_def
  mint_mulle_atomic_functionpointer_cas_def
  mint_mulle_atomic_functionpointer_cas_relaxed_def
  mint_mulle_atomic_functionpointer_cas_weak_def
  mint_mulle_atomic_functionpointer_cas_weak_relaxed_def
  mint_mulle_atomic_functionpointer_weakcas_def
  mint_mulle_atomic_functionpointer_weakcas_relaxed_def
  mint_mulle_atomic_functionpointer_cas_weak_actual_def
  mint_mulle_atomic_functionpointer_cas_weak_relaxed_actual_def
  mint_mulle_atomic_functionpointer_weakcas_actual_def
  mint_mulle_atomic_functionpointer_weakcas_relaxed_actual_def

text \<open>What the header relies on: the mintomic documentation of the six operations.\<close>

locale mintomic_api =
  fixes M :: mintomic
  assumes mint_load: "mint_load_ptr_relaxed M t a m = (v, m') \<Longrightarrow>
      v = cells m a \<and> cells m' = cells m"
    and mint_store: "cells (mint_store_ptr_relaxed M t a v m) = (cells m)(a := v)"
    and mint_cas: "mint_compare_exchange_strong_ptr_relaxed M t a e v m = (r, m') \<Longrightarrow>
      r = cells m a \<and> cells m' = (if cells m a = e then (cells m)(a := v) else cells m)"
    and mint_add: "mint_fetch_add_ptr_relaxed M t a d m = (r, m') \<Longrightarrow>
      r = cells m a \<and> cells m' = (cells m)(a := cells m a + d)"
    and mint_fence_seq_cst: "cells (mint_thread_fence_seq_cst M t m) = cells m"
    and mint_fence_acquire: "cells (mint_thread_fence_acquire M t m) = cells m"

text \<open>
  An instance of the parameter: the operations with relaxed C11 atomics, except the
  exchange, which is sequentially consistent (\<open>"mintomic CAS is always seq_cst on supported
  platforms"\<close>).
\<close>

definition c11_mintomic :: mintomic where
  "c11_mintomic = \<lparr>
     mint_load_ptr_relaxed = (\<lambda>t a m. atomic_load_explicit t a memory_order_relaxed m),
     mint_store_ptr_relaxed = (\<lambda>t a v m. atomic_store_explicit t a v memory_order_relaxed m),
     mint_compare_exchange_strong_ptr_relaxed =
       (\<lambda>t a e v m. c11_mulle_atomic_pointer_cas_actual t a v e m),
     mint_fetch_add_ptr_relaxed =
       (\<lambda>t a d m. atomic_fetch_add_explicit t a d memory_order_relaxed m),
     mint_thread_fence_seq_cst = (\<lambda>t m. atomic_thread_fence t memory_order_seq_cst m),
     mint_thread_fence_acquire = (\<lambda>t m. atomic_thread_fence t memory_order_acquire m)\<rparr>"

interpretation c11_mint: mintomic_api c11_mintomic
  by unfold_locales
    (auto simp: c11_mintomic_def stdatomic_defs c11_pointer_defs Let_def split: if_splits)

end
