(* ===== verification/Atomic_Api.thy ===== *)
theory Atomic_Api
  imports Atomic_Mintomic
begin

text \<open>
  \<open>src/mulle-atomic.h\<close>: the choice of a backend, and the functions written once over
  whichever backend the preprocessor selected. A backend is the record \<open>backend\<close> of the
  operations the rest of the library calls; \<open>c11_backend\<close> and \<open>mint_backend\<close> are the two
  the header can include. The locale \<open>atomic_backend\<close> is the contract both fulfil: what
  each operation returns and does to the contents of memory. The laws about logs, which
  differ between the backends, are no part of it.
\<close>

record backend =
  be_pointer_read :: "tid \<Rightarrow> addr \<Rightarrow> mem \<Rightarrow> ptr \<times> mem"
  be_pointer_read_relaxed :: "tid \<Rightarrow> addr \<Rightarrow> mem \<Rightarrow> ptr \<times> mem"
  be_pointer_read_nonatomic :: "tid \<Rightarrow> addr \<Rightarrow> mem \<Rightarrow> ptr \<times> mem"
  be_pointer_write :: "tid \<Rightarrow> addr \<Rightarrow> ptr \<Rightarrow> mem \<Rightarrow> mem"
  be_pointer_write_relaxed :: "tid \<Rightarrow> addr \<Rightarrow> ptr \<Rightarrow> mem \<Rightarrow> mem"
  be_pointer_write_nonatomic :: "tid \<Rightarrow> addr \<Rightarrow> ptr \<Rightarrow> mem \<Rightarrow> mem"
  be_pointer_cas :: "bool \<Rightarrow> tid \<Rightarrow> addr \<Rightarrow> ptr \<Rightarrow> ptr \<Rightarrow> mem \<Rightarrow> fault + (int \<times> mem)"
  be_pointer_cas_actual :: "tid \<Rightarrow> addr \<Rightarrow> ptr \<Rightarrow> ptr \<Rightarrow> mem \<Rightarrow> ptr \<times> mem"
  be_pointer_weakcas_actual :: "bool \<Rightarrow> tid \<Rightarrow> addr \<Rightarrow> ptr \<Rightarrow> ptr \<Rightarrow> mem \<Rightarrow> ptr \<times> mem"
  be_pointer_increment :: "tid \<Rightarrow> addr \<Rightarrow> mem \<Rightarrow> ptr \<times> mem"
  be_pointer_increment_relaxed :: "tid \<Rightarrow> addr \<Rightarrow> mem \<Rightarrow> ptr \<times> mem"
  be_pointer_decrement :: "tid \<Rightarrow> addr \<Rightarrow> mem \<Rightarrow> ptr \<times> mem"
  be_pointer_decrement_relaxed :: "tid \<Rightarrow> addr \<Rightarrow> mem \<Rightarrow> ptr \<times> mem"
  be_pointer_add_relaxed :: "tid \<Rightarrow> addr \<Rightarrow> intptr \<Rightarrow> mem \<Rightarrow> ptr \<times> mem"
  be_functionpointer_cas :: "bool \<Rightarrow> tid \<Rightarrow> addr \<Rightarrow> ptr \<Rightarrow> ptr \<Rightarrow> mem \<Rightarrow> fault + (int \<times> mem)"
  be_functionpointer_cas_actual :: "tid \<Rightarrow> addr \<Rightarrow> ptr \<Rightarrow> ptr \<Rightarrow> mem \<Rightarrow> ptr \<times> mem"
  be_functionpointer_weakcas_actual ::
    "bool \<Rightarrow> tid \<Rightarrow> addr \<Rightarrow> ptr \<Rightarrow> ptr \<Rightarrow> mem \<Rightarrow> ptr \<times> mem"
  be_memory_barrier :: "tid \<Rightarrow> mem \<Rightarrow> mem"

definition c11_backend :: backend where
  "c11_backend = \<lparr>
     be_pointer_read = c11_mulle_atomic_pointer_read,
     be_pointer_read_relaxed = c11_mulle_atomic_pointer_read_relaxed,
     be_pointer_read_nonatomic = c11_mulle_atomic_pointer_read_nonatomic,
     be_pointer_write = c11_mulle_atomic_pointer_write,
     be_pointer_write_relaxed = c11_mulle_atomic_pointer_write_relaxed,
     be_pointer_write_nonatomic = c11_mulle_atomic_pointer_write_nonatomic,
     be_pointer_cas = c11_mulle_atomic_pointer_cas,
     be_pointer_cas_actual = c11_mulle_atomic_pointer_cas_actual,
     be_pointer_weakcas_actual = c11_mulle_atomic_pointer_weakcas_actual,
     be_pointer_increment = c11_mulle_atomic_pointer_increment,
     be_pointer_increment_relaxed = c11_mulle_atomic_pointer_increment_relaxed,
     be_pointer_decrement = c11_mulle_atomic_pointer_decrement,
     be_pointer_decrement_relaxed = c11_mulle_atomic_pointer_decrement_relaxed,
     be_pointer_add_relaxed = c11_mulle_atomic_pointer_add_relaxed,
     be_functionpointer_cas = c11_mulle_atomic_functionpointer_cas,
     be_functionpointer_cas_actual = c11_mulle_atomic_functionpointer_cas_actual,
     be_functionpointer_weakcas_actual = c11_mulle_atomic_functionpointer_weakcas_actual,
     be_memory_barrier = c11_mulle_atomic_memory_barrier\<rparr>"

text \<open>The mintomic functions have no assertion and no spurious failure.\<close>

definition mint_backend :: "mintomic \<Rightarrow> backend" where
  "mint_backend M = \<lparr>
     be_pointer_read = mint_mulle_atomic_pointer_read M,
     be_pointer_read_relaxed = mint_mulle_atomic_pointer_read_relaxed M,
     be_pointer_read_nonatomic = mint_mulle_atomic_pointer_read_nonatomic M,
     be_pointer_write = mint_mulle_atomic_pointer_write M,
     be_pointer_write_relaxed = mint_mulle_atomic_pointer_write_relaxed M,
     be_pointer_write_nonatomic = mint_mulle_atomic_pointer_write_nonatomic M,
     be_pointer_cas = (\<lambda>ndebug t a v e m. Inr (mint_mulle_atomic_pointer_cas M t a v e m)),
     be_pointer_cas_actual = mint_mulle_atomic_pointer_cas_actual M,
     be_pointer_weakcas_actual = (\<lambda>spurious. mint_mulle_atomic_pointer_weakcas_actual M),
     be_pointer_increment = mint_mulle_atomic_pointer_increment M,
     be_pointer_increment_relaxed = mint_mulle_atomic_pointer_increment_relaxed M,
     be_pointer_decrement = mint_mulle_atomic_pointer_decrement M,
     be_pointer_decrement_relaxed = mint_mulle_atomic_pointer_decrement_relaxed M,
     be_pointer_add_relaxed = mint_mulle_atomic_pointer_add_relaxed M,
     be_functionpointer_cas =
       (\<lambda>ndebug t a v e m. Inr (mint_mulle_atomic_functionpointer_cas M t a v e m)),
     be_functionpointer_cas_actual = mint_mulle_atomic_functionpointer_cas_actual M,
     be_functionpointer_weakcas_actual =
       (\<lambda>spurious. mint_mulle_atomic_functionpointer_weakcas_actual M),
     be_memory_barrier = mint_mulle_atomic_memory_barrier M\<rparr>"

subsection \<open>The contract of a backend\<close>

definition cas_result :: "mem \<Rightarrow> addr \<Rightarrow> ptr \<Rightarrow> ptr \<Rightarrow> addr \<Rightarrow> ptr" where
  "cas_result m a value expect =
     (if cells m a = expect then (cells m)(a := value) else cells m)"

text \<open>
  The contract: reads return the contents and change nothing, writes store, an exchange
  stores exactly when it finds the expected value and reports the value found (or, for the
  flag form on distinct values, whether it stored), increments and decrements return the
  previous value. A weak exchange that does not fail spuriously is a strong one; one that
  does may only leave memory alone and report the value it found.
\<close>

locale atomic_backend =
  fixes B :: backend
  assumes read_value: "fst (be_pointer_read B t a m) = cells m a"
    and read_cells: "cells (snd (be_pointer_read B t a m)) = cells m"
    and read_relaxed_value: "fst (be_pointer_read_relaxed B t a m) = cells m a"
    and read_relaxed_cells: "cells (snd (be_pointer_read_relaxed B t a m)) = cells m"
    and read_nonatomic_value: "fst (be_pointer_read_nonatomic B t a m) = cells m a"
    and read_nonatomic_cells: "cells (snd (be_pointer_read_nonatomic B t a m)) = cells m"
    and write_cells: "cells (be_pointer_write B t a v m) = (cells m)(a := v)"
    and write_relaxed_cells: "cells (be_pointer_write_relaxed B t a v m) = (cells m)(a := v)"
    and write_nonatomic_cells:
      "cells (be_pointer_write_nonatomic B t a v m) = (cells m)(a := v)"
    and cas_no_fault: "v \<noteq> e \<Longrightarrow> be_pointer_cas B nd t a v e m \<noteq> Inl f"
    and cas_flag: "be_pointer_cas B nd t a v e m = Inr (r, m') \<Longrightarrow>
      r = c_bool (cells m a = e) \<and> cells m' = cas_result m a v e"
    and cas_actual_value: "fst (be_pointer_cas_actual B t a v e m) = cells m a"
    and cas_actual_cells: "cells (snd (be_pointer_cas_actual B t a v e m)) = cas_result m a v e"
    and weakcas_actual_value: "fst (be_pointer_weakcas_actual B sp t a v e m) = cells m a"
    and weakcas_actual_cells: "cells (snd (be_pointer_weakcas_actual B False t a v e m)) =
      cas_result m a v e"
    and weakcas_spurious_cells: "cells (snd (be_pointer_weakcas_actual B True t a v e m)) =
        cells m \<or>
      cells (snd (be_pointer_weakcas_actual B True t a v e m)) = cas_result m a v e"
    and increment_value: "fst (be_pointer_increment B t a m) = cells m a"
    and increment_cells: "cells (snd (be_pointer_increment B t a m)) =
      (cells m)(a := cells m a + 1)"
    and increment_relaxed_value: "fst (be_pointer_increment_relaxed B t a m) = cells m a"
    and increment_relaxed_cells: "cells (snd (be_pointer_increment_relaxed B t a m)) =
      (cells m)(a := cells m a + 1)"
    and decrement_value: "fst (be_pointer_decrement B t a m) = cells m a"
    and decrement_cells: "cells (snd (be_pointer_decrement B t a m)) =
      (cells m)(a := cells m a - 1)"
    and decrement_relaxed_value: "fst (be_pointer_decrement_relaxed B t a m) = cells m a"
    and decrement_relaxed_cells: "cells (snd (be_pointer_decrement_relaxed B t a m)) =
      (cells m)(a := cells m a - 1)"
    and add_relaxed_value: "fst (be_pointer_add_relaxed B t a d m) = cells m a + d"
    and add_relaxed_cells: "cells (snd (be_pointer_add_relaxed B t a d m)) =
      (cells m)(a := cells m a + d)"
    and functionpointer_cas_flag: "be_functionpointer_cas B nd t a v e m = Inr (r, m') \<Longrightarrow>
      r = c_bool (cells m a = e) \<and> cells m' = cas_result m a v e"
    and functionpointer_cas_actual_value:
      "fst (be_functionpointer_cas_actual B t a v e m) = cells m a"
    and functionpointer_cas_actual_cells:
      "cells (snd (be_functionpointer_cas_actual B t a v e m)) = cas_result m a v e"
    and functionpointer_weakcas_actual_value:
      "fst (be_functionpointer_weakcas_actual B sp t a v e m) = cells m a"
    and functionpointer_weakcas_actual_cells:
      "cells (snd (be_functionpointer_weakcas_actual B False t a v e m)) = cas_result m a v e"
    and barrier_cells: "cells (be_memory_barrier B t m) = cells m"
begin

lemmas backend_laws =
  read_value read_cells read_relaxed_value read_relaxed_cells read_nonatomic_value
  read_nonatomic_cells write_cells write_relaxed_cells write_nonatomic_cells
  cas_actual_value cas_actual_cells weakcas_actual_value weakcas_actual_cells
  increment_value increment_cells increment_relaxed_value increment_relaxed_cells
  decrement_value decrement_cells decrement_relaxed_value decrement_relaxed_cells
  add_relaxed_value add_relaxed_cells functionpointer_cas_actual_value
  functionpointer_cas_actual_cells functionpointer_weakcas_actual_value
  functionpointer_weakcas_actual_cells barrier_cells

declare backend_laws [simp]

end

interpretation c11: atomic_backend c11_backend
  by unfold_locales
    (auto simp: c11_backend_def c11_pointer_defs c11_functionpointer_defs stdatomic_defs
      cas_result_def Let_def c_assert_eq_Inr c_assert_def split: if_splits)

context mintomic_api
begin

lemma mint_load_cells: "cells (snd (mint_load_ptr_relaxed M t a m)) = cells m"
  using mint_load by (metis surjective_pairing)

lemma mint_cas_value: "fst (mint_compare_exchange_strong_ptr_relaxed M t a e v m) = cells m a"
  using mint_cas by (metis surjective_pairing)

lemma mint_cas_cells:
  "cells (snd (mint_compare_exchange_strong_ptr_relaxed M t a e v m)) = cas_result m a v e"
  unfolding cas_result_def using mint_cas by (metis surjective_pairing)

lemma mint_add_value: "fst (mint_fetch_add_ptr_relaxed M t a d m) = cells m a"
  using mint_add by (metis surjective_pairing)

lemma mint_add_cells:
  "cells (snd (mint_fetch_add_ptr_relaxed M t a d m)) = (cells m)(a := cells m a + d)"
  using mint_add by (metis surjective_pairing)

lemma mint_load_value: "fst (mint_load_ptr_relaxed M t a m) = cells m a"
  using mint_load by (metis surjective_pairing)

lemmas mint_laws =
  mint_load_value mint_load_cells mint_store mint_cas_value mint_cas_cells mint_add_value
  mint_add_cells mint_fence_seq_cst mint_fence_acquire

end

sublocale mintomic_api \<subseteq> mint: atomic_backend "mint_backend M"
  by unfold_locales
    (auto simp: mint_backend_def mint_pointer_defs mint_functionpointer_defs plain_load_def
      plain_store_def mint_laws case_prod_beta)

subsection \<open>Exchange by a weak compare-and-swap loop\<close>

text \<open>
  \<open>_mulle_atomic_pointer_set\<close>: the loop runs until the value found is the value expected.
  Between two attempts other threads may write: a \<open>turn\<close> is one attempt of the loop, with
  what the other threads do to memory just before it and whether the hardware lets the weak
  exchange fail. The loop takes one turn per iteration and is \<open>None\<close> when it has not
  returned after the given turns.
\<close>

record turn =
  spurious :: bool
  others :: "(addr \<Rightarrow> ptr) \<Rightarrow> addr \<Rightarrow> ptr"

definition interfere :: "turn \<Rightarrow> mem \<Rightarrow> mem" where
  "interfere tu m = m\<lparr>cells := others tu (cells m)\<rparr>"

lemma cells_interfere [simp]: "cells (interfere tu m) = others tu (cells m)"
  by (simp add: interfere_def)

abbreviation quiet :: "bool \<Rightarrow> turn" where
  "quiet b \<equiv> \<lparr>spurious = b, others = id\<rparr>"

fun mulle_atomic_pointer_set_loop ::
  "backend \<Rightarrow> tid \<Rightarrow> addr \<Rightarrow> ptr \<Rightarrow> ptr \<Rightarrow> turn list \<Rightarrow> mem \<Rightarrow> (ptr \<times> mem) option"
where
  "mulle_atomic_pointer_set_loop B t address value expect [] m = None"
| "mulle_atomic_pointer_set_loop B t address value expect (tu # tus) m =
     (case be_pointer_weakcas_actual B (spurious tu) t address value expect (interfere tu m) of
        (previous, m') \<Rightarrow>
          if previous = expect then Some (previous, m')
          else mulle_atomic_pointer_set_loop B t address value previous tus m')"

definition mulle_atomic_pointer_set ::
  "backend \<Rightarrow> tid \<Rightarrow> addr \<Rightarrow> ptr \<Rightarrow> turn list \<Rightarrow> mem \<Rightarrow> (ptr \<times> mem) option"
where
  "mulle_atomic_pointer_set B t address value tus m =
     mulle_atomic_pointer_set_loop B t address value value tus m"

fun mulle_atomic_functionpointer_set_loop ::
  "backend \<Rightarrow> tid \<Rightarrow> addr \<Rightarrow> ptr \<Rightarrow> ptr \<Rightarrow> turn list \<Rightarrow> mem \<Rightarrow> (ptr \<times> mem) option"
where
  "mulle_atomic_functionpointer_set_loop B t address value expect [] m = None"
| "mulle_atomic_functionpointer_set_loop B t address value expect (tu # tus) m =
     (case be_functionpointer_weakcas_actual B (spurious tu) t address value expect
             (interfere tu m) of
        (previous, m') \<Rightarrow>
          if previous = expect then Some (previous, m')
          else mulle_atomic_functionpointer_set_loop B t address value previous tus m')"

definition mulle_atomic_functionpointer_set ::
  "backend \<Rightarrow> tid \<Rightarrow> addr \<Rightarrow> ptr \<Rightarrow> turn list \<Rightarrow> mem \<Rightarrow> (ptr \<times> mem) option"
where
  "mulle_atomic_functionpointer_set B t address value tus m =
     mulle_atomic_functionpointer_set_loop B t address value value tus m"

subsection \<open>Integer counters\<close>

definition mulle_atomic_intptr_read_relaxed :: "backend \<Rightarrow> tid \<Rightarrow> addr \<Rightarrow> mem \<Rightarrow> intptr \<times> mem" where
  "mulle_atomic_intptr_read_relaxed B t address m = be_pointer_read_relaxed B t address m"

definition mulle_atomic_intptr_read_nonatomic :: "backend \<Rightarrow> tid \<Rightarrow> addr \<Rightarrow> mem \<Rightarrow> intptr \<times> mem" where
  "mulle_atomic_intptr_read_nonatomic B t address m = be_pointer_read_nonatomic B t address m"

definition mulle_atomic_intptr_write_relaxed :: "backend \<Rightarrow> tid \<Rightarrow> addr \<Rightarrow> intptr \<Rightarrow> mem \<Rightarrow> mem" where
  "mulle_atomic_intptr_write_relaxed B t address value m =
     be_pointer_write_relaxed B t address value m"

definition mulle_atomic_intptr_write_nonatomic :: "backend \<Rightarrow> tid \<Rightarrow> addr \<Rightarrow> intptr \<Rightarrow> mem \<Rightarrow> mem" where
  "mulle_atomic_intptr_write_nonatomic B t address value m =
     be_pointer_write_nonatomic B t address value m"

definition mulle_atomic_intptr_increment_relaxed :: "backend \<Rightarrow> tid \<Rightarrow> addr \<Rightarrow> mem \<Rightarrow> intptr \<times> mem" where
  "mulle_atomic_intptr_increment_relaxed B t address m =
     be_pointer_increment_relaxed B t address m"

definition mulle_atomic_intptr_decrement_relaxed :: "backend \<Rightarrow> tid \<Rightarrow> addr \<Rightarrow> mem \<Rightarrow> intptr \<times> mem" where
  "mulle_atomic_intptr_decrement_relaxed B t address m =
     be_pointer_decrement_relaxed B t address m"

definition mulle_atomic_intptr_add_relaxed ::
  "backend \<Rightarrow> tid \<Rightarrow> addr \<Rightarrow> intptr \<Rightarrow> mem \<Rightarrow> intptr \<times> mem"
where
  "mulle_atomic_intptr_add_relaxed B t address diff m =
     (case be_pointer_add_relaxed B t address diff m of
        (result, m') \<Rightarrow> (result - diff, m'))"

subsection \<open>The old names\<close>

definition mulle_atomic_pointer_compare_and_swap ::
  "backend \<Rightarrow> bool \<Rightarrow> tid \<Rightarrow> addr \<Rightarrow> ptr \<Rightarrow> ptr \<Rightarrow> mem \<Rightarrow> fault + (int \<times> mem)"
where
  "mulle_atomic_pointer_compare_and_swap B ndebug t address value expect m =
     be_pointer_cas B ndebug t address value expect m"

definition mulle_atomic_pointer_compare_and_swap_actual ::
  "backend \<Rightarrow> tid \<Rightarrow> addr \<Rightarrow> ptr \<Rightarrow> ptr \<Rightarrow> mem \<Rightarrow> ptr \<times> mem"
where
  "mulle_atomic_pointer_compare_and_swap_actual B t address value expect m =
     be_pointer_cas_actual B t address value expect m"

definition mulle_atomic_functionpointer_compare_and_swap_actual ::
  "backend \<Rightarrow> tid \<Rightarrow> addr \<Rightarrow> ptr \<Rightarrow> ptr \<Rightarrow> mem \<Rightarrow> ptr \<times> mem"
where
  "mulle_atomic_functionpointer_compare_and_swap_actual B t address value expect m =
     be_functionpointer_cas_actual B t address value expect m"

definition mulle_atomic_functionpointer_compare_and_swap ::
  "backend \<Rightarrow> bool \<Rightarrow> tid \<Rightarrow> addr \<Rightarrow> ptr \<Rightarrow> ptr \<Rightarrow> mem \<Rightarrow> fault + (int \<times> mem)"
where
  "mulle_atomic_functionpointer_compare_and_swap B ndebug t address value expect m =
     be_functionpointer_cas B ndebug t address value expect m"

lemmas atomic_api_defs =
  mulle_atomic_pointer_compare_and_swap_def mulle_atomic_pointer_compare_and_swap_actual_def
  mulle_atomic_functionpointer_compare_and_swap_actual_def
  mulle_atomic_functionpointer_compare_and_swap_def
  mulle_atomic_intptr_read_relaxed_def mulle_atomic_intptr_read_nonatomic_def
  mulle_atomic_intptr_write_relaxed_def mulle_atomic_intptr_write_nonatomic_def
  mulle_atomic_intptr_increment_relaxed_def mulle_atomic_intptr_decrement_relaxed_def
  mulle_atomic_intptr_add_relaxed_def

subsection \<open>Linearization of the exchange loop\<close>

text \<open>The memory contents just before attempt \<open>k\<close>, when no earlier attempt stored.\<close>

definition seen_cells :: "turn list \<Rightarrow> nat \<Rightarrow> (addr \<Rightarrow> ptr) \<Rightarrow> addr \<Rightarrow> ptr" where
  "seen_cells tus k c = fold others (take (Suc k) tus) c"

lemma seen_cells_simps [simp]:
  "seen_cells (tu # tus) 0 c = others tu c"
  "seen_cells (tu # tus) (Suc k) c = seen_cells tus k (others tu c)"
  by (simp_all add: seen_cells_def)

context atomic_backend
begin

text \<open>Without spurious failures the loop returns at the first attempt that finds the value
  the attempt before it found, and has stored there and nowhere else.\<close>

lemma pointer_set_loop_linear:
  assumes "\<forall>tu \<in> set tus. \<not> spurious tu"
    and "mulle_atomic_pointer_set_loop B t a value expect tus m = Some (p, m')"
  shows "\<exists>k<length tus. p = seen_cells tus k (cells m) a \<and>
    cells m' = (seen_cells tus k (cells m))(a := value)"
  using assms
proof (induction tus arbitrary: expect m)
  case Nil
  then show ?case by simp
next
  case (Cons tu tus)
  let ?r = "be_pointer_weakcas_actual B False t a value expect (interfere tu m)"
  have sp: "spurious tu = False" using Cons.prems(1) by simp
  show ?case
  proof (cases "others tu (cells m) a = expect")
    case True
    with Cons.prems(2) sp have "p = expect" "m' = snd ?r"
      by (auto simp: case_prod_beta)
    with True show ?thesis
      by (intro exI [of _ 0]) (simp add: cas_result_def)
  next
    case False
    with Cons.prems(2) sp have
      "mulle_atomic_pointer_set_loop B t a value (fst ?r) tus (snd ?r) = Some (p, m')"
      by (simp add: case_prod_beta)
    moreover have "\<forall>tu \<in> set tus. \<not> spurious tu" using Cons.prems(1) by simp
    ultimately obtain k where "k < length tus" "p = seen_cells tus k (cells (snd ?r)) a"
      "cells m' = (seen_cells tus k (cells (snd ?r)))(a := value)"
      using Cons.IH by blast
    with False show ?thesis
      by (intro exI [of _ "Suc k"]) (simp add: cas_result_def)
  qed
qed

text \<open>The loop fails to return only while every attempt is preceded by a change of the
  cell made by another thread.\<close>

lemma pointer_set_loop_interference:
  assumes "\<forall>tu \<in> set tus. \<not> spurious tu"
    and "mulle_atomic_pointer_set_loop B t a value expect tus m = None"
  shows "\<forall>k<length tus. seen_cells tus k (cells m) a \<noteq>
    (if k = 0 then expect else seen_cells tus (k - 1) (cells m) a)"
  using assms
proof (induction tus arbitrary: expect m)
  case Nil
  then show ?case by simp
next
  case (Cons tu tus)
  let ?r = "be_pointer_weakcas_actual B False t a value expect (interfere tu m)"
  have sp: "spurious tu = False" using Cons.prems(1) by simp
  have ne: "others tu (cells m) a \<noteq> expect"
    using Cons.prems(2) sp by (auto simp: case_prod_beta)
  then have cells: "cells (snd ?r) = others tu (cells m)"
    by (simp add: cas_result_def)
  have none: "mulle_atomic_pointer_set_loop B t a value (fst ?r) tus (snd ?r) = None"
    using Cons.prems(2) sp ne by (simp add: case_prod_beta)
  have quiet: "\<forall>tu \<in> set tus. \<not> spurious tu" using Cons.prems(1) by simp
  have found: "fst ?r = others tu (cells m) a" by simp
  note IH = Cons.IH [OF quiet none, unfolded cells found]
  show ?case
  proof (intro allI impI)
    fix k assume "k < length (tu # tus)"
    then show "seen_cells (tu # tus) k (cells m) a \<noteq>
      (if k = 0 then expect else seen_cells (tu # tus) (k - 1) (cells m) a)"
      using IH ne by (cases k; cases "k - 1") (auto split: if_splits)
  qed
qed

lemma functionpointer_set_eq_pointer_set:
  assumes "\<forall>tu \<in> set tus. \<not> spurious tu" and "cells m1 = cells m2"
  shows "map_option (\<lambda>(p, m'). (p, cells m'))
      (mulle_atomic_functionpointer_set_loop B t a value expect tus m1) =
    map_option (\<lambda>(p, m'). (p, cells m'))
      (mulle_atomic_pointer_set_loop B t a value expect tus m2)"
  using assms
proof (induction tus arbitrary: expect m1 m2)
  case Nil
  then show ?case by simp
next
  case (Cons tu tus)
  then show ?case
    by (simp add: case_prod_beta cas_result_def)
qed

text \<open>A counter: adding and reading back, and add against increment and decrement.\<close>

lemma intptr_add_value: "fst (mulle_atomic_intptr_add_relaxed B t a d m) = cells m a"
  by (simp add: mulle_atomic_intptr_add_relaxed_def case_prod_beta)

lemma intptr_add_cells:
  "cells (snd (mulle_atomic_intptr_add_relaxed B t a d m)) = (cells m)(a := cells m a + d)"
  by (simp add: mulle_atomic_intptr_add_relaxed_def case_prod_beta)

end

subsection \<open>Properties of the atomic layer\<close>

text \<open>C28: \<open>_mulle_atomic_pointer_set\<close> is an atomic exchange on the C11 backend as long as the
  hardware does not fail a weak exchange spuriously: whatever other threads write between
  the attempts, a call that returns \<open>p\<close> has an attempt at which the cell held \<open>p\<close> and from
  which memory differs only by the stored value.\<close>

theorem pointer_set_is_exchange:
  assumes "\<forall>tu \<in> set tus. \<not> spurious tu"
    and "mulle_atomic_pointer_set c11_backend t a value tus m = Some (p, m')"
  shows "\<exists>k<length tus. p = seen_cells tus k (cells m) a \<and>
    cells m' = (seen_cells tus k (cells m))(a := value)"
  using assms unfolding mulle_atomic_pointer_set_def by (rule c11.pointer_set_loop_linear)

text \<open>A concrete run: another thread stores 7 before the second attempt and nothing before
  the third, which takes effect.\<close>

abbreviation example_mem :: mem where
  "example_mem \<equiv> \<lparr>cells = (\<lambda>_. 3), log = []\<rparr>"

abbreviation example_turns :: "turn list" where
  "example_turns \<equiv> [quiet False, \<lparr>spurious = False, others = (\<lambda>c. c((0, 0) := 7))\<rparr>, quiet False]"

lemma c11_weakcas_actual:
  "be_pointer_weakcas_actual c11_backend b t a v e m =
     (if cells m a = e \<and> \<not> b
      then (e, log_event (Rmw t a memory_order_seq_cst e v) (set_cell a v m))
      else (cells m a, log_event (Load t a memory_order_seq_cst (cells m a)) m))"
  by (simp add: c11_backend_def c11_pointer_defs stdatomic_defs Let_def)

lemma example_set:
  "map_option (\<lambda>(p, m'). (p, cells m' (0, 0)))
     (mulle_atomic_pointer_set c11_backend 1 (0, 0) 5 example_turns example_mem) = Some (7, 5)"
  by (simp add: mulle_atomic_pointer_set_def c11_weakcas_actual interfere_def)

theorem pointer_set_is_exchange_witness:
  "\<exists>p m'. mulle_atomic_pointer_set c11_backend 1 (0, 0) 5 example_turns example_mem = Some (p, m') \<and>
     (\<exists>k<length example_turns. p = seen_cells example_turns k (cells example_mem) (0, 0) \<and>
        cells m' = (seen_cells example_turns k (cells example_mem))((0, 0) := 5))"
proof -
  obtain p m' where
    run: "mulle_atomic_pointer_set c11_backend 1 (0, 0) 5 example_turns example_mem = Some (p, m')"
    using example_set by (auto simp del: mem.simps)
  have "\<forall>tu \<in> set example_turns. \<not> spurious tu" by simp
  from pointer_set_is_exchange [OF this run] run show ?thesis by blast
qed

text \<open>C40: the loop of \<open>_mulle_atomic_pointer_set\<close> is lock-free: without spurious failures it
  has returned as soon as one attempt finds what the attempt before it found (the first
  attempt expects the value being stored), so only an unbroken series of changes of the cell
  by other threads, one before every attempt, keeps it running.\<close>

theorem pointer_set_returns:
  assumes "\<forall>tu \<in> set tus. \<not> spurious tu"
    and "k < length tus"
    and "seen_cells tus k (cells m) a =
      (if k = 0 then value else seen_cells tus (k - 1) (cells m) a)"
  shows "\<exists>r. mulle_atomic_pointer_set c11_backend t a value tus m = Some r"
proof (rule ccontr)
  assume "\<nexists>r. mulle_atomic_pointer_set c11_backend t a value tus m = Some r"
  then have "mulle_atomic_pointer_set_loop c11_backend t a value value tus m = None"
    unfolding mulle_atomic_pointer_set_def by (metis not_Some_eq)
  from c11.pointer_set_loop_interference [OF assms(1) this] assms(2,3) show False by blast
qed

theorem pointer_set_returns_witness:
  "\<exists>r. mulle_atomic_pointer_set c11_backend 1 (0, 0) 5 [quiet False, quiet False] example_mem = Some r"
  by (rule pointer_set_returns [where k = 1]) simp_all

text \<open>C39: on the C11 backend \<open>_mulle_atomic_pointer_set\<close> can lose its write. The weak exchange
  returns the value found, and when it fails spuriously that is the value expected, which the
  loop takes for success: with a spurious failure at its second attempt and no other thread
  around, the call returns the old value and leaves memory as it was.\<close>

theorem pointer_set_loses_write:
  assumes "cells m a \<noteq> value"
  shows "\<exists>m'. mulle_atomic_pointer_set c11_backend t a value [quiet b, quiet True] m =
      Some (cells m a, m') \<and> cells m' = cells m"
  using assms
  by (simp add: mulle_atomic_pointer_set_def c11_weakcas_actual interfere_def)

theorem pointer_set_loses_write_witness:
  "cells example_mem (0, 0) \<noteq> 5 \<and>
   (\<exists>m'. mulle_atomic_pointer_set c11_backend 1 (0, 0) 5 [quiet False, quiet True] example_mem =
      Some (3, m') \<and> cells m' (0, 0) = 3)"
  using pointer_set_loses_write [of example_mem "(0, 0)" 5 1 False] by auto

text \<open>On the mintomic backend, whose weak exchange is its strong one, the exchange loop
  returns after at most two quiet attempts whatever the hardware does, hands back the
  previous value and has stored the new one; function pointers likewise.\<close>

theorem mint_pointer_set_exchanges:
  assumes "mintomic_api M"
  shows "(\<exists>m'. mulle_atomic_pointer_set (mint_backend M) t a value [quiet b, quiet b'] m =
      Some (cells m a, m') \<and> cells m' = (cells m)(a := value)) \<and>
    (\<exists>m'. mulle_atomic_functionpointer_set (mint_backend M) t a value [quiet b, quiet b'] m =
      Some (cells m a, m') \<and> cells m' = (cells m)(a := value))"
  using mintomic_api.mint_laws [OF assms]
  by (auto simp: mulle_atomic_pointer_set_def mulle_atomic_functionpointer_set_def
    mint_backend_def mint_pointer_defs mint_functionpointer_defs case_prod_beta cas_result_def)

theorem mint_pointer_set_exchanges_witness:
  "\<exists>m'. mulle_atomic_pointer_set (mint_backend c11_mintomic) 1 (0, 0) 5 [quiet True, quiet True]
      example_mem = Some (3, m') \<and> cells m' (0, 0) = 5"
  using mint_pointer_set_exchanges [OF c11_mint.mintomic_api_axioms, of 1 "(0, 0)" 5 True True example_mem]
  by auto

lemma map_prod_conv: "map_prod id f p = (fst p, f (snd p))"
  by (cases p) simp

definition same_result :: "'a \<times> mem \<Rightarrow> 'a \<times> mem \<Rightarrow> bool" where
  "same_result r r' \<longleftrightarrow> fst r = fst r' \<and> cells (snd r) = cells (snd r')"

definition reads_agree :: "(tid \<Rightarrow> addr \<Rightarrow> mem \<Rightarrow> ptr \<times> mem) \<times> (tid \<Rightarrow> addr \<Rightarrow> mem \<Rightarrow> ptr \<times> mem) \<Rightarrow> bool"
where
  "reads_agree fg \<longleftrightarrow> (\<forall>t a (m :: mem) (m' :: mem). cells m = cells m' \<longrightarrow> same_result (fst fg t a m) (snd fg t a m'))"

definition writes_agree ::
  "(tid \<Rightarrow> addr \<Rightarrow> ptr \<Rightarrow> mem \<Rightarrow> mem) \<times> (tid \<Rightarrow> addr \<Rightarrow> ptr \<Rightarrow> mem \<Rightarrow> mem) \<Rightarrow> bool"
where
  "writes_agree fg \<longleftrightarrow>
     (\<forall>t a v (m :: mem) (m' :: mem). cells m = cells m' \<longrightarrow> cells (fst fg t a v m) = cells (snd fg t a v m'))"

definition adds_agree ::
  "(tid \<Rightarrow> addr \<Rightarrow> intptr \<Rightarrow> mem \<Rightarrow> ptr \<times> mem) \<times> (tid \<Rightarrow> addr \<Rightarrow> intptr \<Rightarrow> mem \<Rightarrow> ptr \<times> mem) \<Rightarrow> bool"
where
  "adds_agree fg \<longleftrightarrow>
     (\<forall>t a d (m :: mem) (m' :: mem). cells m = cells m' \<longrightarrow> same_result (fst fg t a d m) (snd fg t a d m'))"

text \<open>Exchanges that return the value found.\<close>

type_synonym cas_actual_fn = "tid \<Rightarrow> addr \<Rightarrow> ptr \<Rightarrow> ptr \<Rightarrow> mem \<Rightarrow> ptr \<times> mem"

definition actuals_agree :: "cas_actual_fn \<times> cas_actual_fn \<Rightarrow> bool" where
  "actuals_agree fg \<longleftrightarrow>
     (\<forall>t a v e (m :: mem) (m' :: mem). cells m = cells m' \<longrightarrow> same_result (fst fg t a v e m) (snd fg t a v e m'))"

text \<open>Exchanges that return a flag: those of C11 assert that the two values differ.\<close>

definition flags_agree ::
  "(tid \<Rightarrow> addr \<Rightarrow> ptr \<Rightarrow> ptr \<Rightarrow> mem \<Rightarrow> int \<times> mem) \<times>
     (bool \<Rightarrow> tid \<Rightarrow> addr \<Rightarrow> ptr \<Rightarrow> ptr \<Rightarrow> mem \<Rightarrow> fault + (int \<times> mem)) \<Rightarrow> bool"
where
  "flags_agree fg \<longleftrightarrow> (\<forall>nd t a v e (m :: mem) (m' :: mem). cells m = cells m' \<longrightarrow>
     (if nd \<or> v \<noteq> e then \<exists>r. snd fg nd t a v e m' = Inr r \<and> same_result (fst fg t a v e m) r
      else snd fg nd t a v e m' = Inl Assertion_failed))"

text \<open>Weak exchanges: that of mintomic is a strong one. Where that of C11 fails without need it
  finds the same value, stores nothing, and its flag is 0; otherwise both agree.\<close>

definition weak_actuals_agree :: "cas_actual_fn \<times> (bool \<Rightarrow> cas_actual_fn) \<Rightarrow> bool" where
  "weak_actuals_agree fg \<longleftrightarrow> actuals_agree (fst fg, snd fg False) \<and>
     (\<forall>t a v e (m :: mem) (m' :: mem). cells m = cells m' \<longrightarrow> fst (snd fg True t a v e m') = fst (fst fg t a v e m) \<and>
        cells (snd (snd fg True t a v e m')) = cells m)"

definition weak_flags_agree ::
  "(tid \<Rightarrow> addr \<Rightarrow> ptr \<Rightarrow> ptr \<Rightarrow> mem \<Rightarrow> int \<times> mem) \<times>
     (bool \<Rightarrow> bool \<Rightarrow> tid \<Rightarrow> addr \<Rightarrow> ptr \<Rightarrow> ptr \<Rightarrow> mem \<Rightarrow> fault + (int \<times> mem)) \<Rightarrow> bool"
where
  "weak_flags_agree fg \<longleftrightarrow> flags_agree (fst fg, snd fg False) \<and>
     (\<forall>nd t a v e (m :: mem) (m' :: mem). cells m = cells m' \<longrightarrow>
        (if nd \<or> v \<noteq> e then \<exists>r :: mem. snd fg True nd t a v e m' = Inr (0, r) \<and> cells r = cells m
         else snd fg True nd t a v e m' = Inl Assertion_failed))"

lemmas agree_defs =
  same_result_def reads_agree_def writes_agree_def adds_agree_def actuals_agree_def flags_agree_def
  weak_actuals_agree_def weak_flags_agree_def c11_pointer_defs c11_functionpointer_defs
  mint_pointer_defs mint_functionpointer_defs stdatomic_defs Let_def case_prod_beta c_assert_def
  cas_result_def

text \<open>C29: the two backends agree in every operation both headers have, on values and on function
  pointers: in memories with the same contents they return the same and leave the same
  contents. There are two differences: the exchanges of C11 that return a flag assert that
  the value and the expected value differ, and its weak exchanges may fail without need;
  then they store nothing.\<close>

theorem backends_agree:
  assumes "mintomic_api M"
  shows "list_all reads_agree
      [(mint_mulle_atomic_pointer_read M, c11_mulle_atomic_pointer_read),
       (mint_mulle_atomic_pointer_read_acquire M, c11_mulle_atomic_pointer_read_acquire),
       (mint_mulle_atomic_pointer_read_relaxed M, c11_mulle_atomic_pointer_read_relaxed),
       (mint_mulle_atomic_pointer_read_nonatomic M, c11_mulle_atomic_pointer_read_nonatomic),
       (mint_mulle_atomic_pointer_nonatomic_read M, c11_mulle_atomic_pointer_nonatomic_read),
       (mint_mulle_atomic_functionpointer_read M, c11_mulle_atomic_functionpointer_read),
       (mint_mulle_atomic_functionpointer_read_acquire M, c11_mulle_atomic_functionpointer_read_acquire),
       (mint_mulle_atomic_functionpointer_read_relaxed M, c11_mulle_atomic_functionpointer_read_relaxed),
       (mint_mulle_atomic_functionpointer_read_nonatomic M, c11_mulle_atomic_functionpointer_read_nonatomic),
       (mint_mulle_atomic_functionpointer_nonatomic_read M, c11_mulle_atomic_functionpointer_nonatomic_read),
       (mint_mulle_atomic_pointer_increment M, c11_mulle_atomic_pointer_increment),
       (mint_mulle_atomic_pointer_increment_relaxed M, c11_mulle_atomic_pointer_increment_relaxed),
       (mint_mulle_atomic_pointer_decrement M, c11_mulle_atomic_pointer_decrement),
       (mint_mulle_atomic_pointer_decrement_relaxed M, c11_mulle_atomic_pointer_decrement_relaxed)] \<and>
    list_all writes_agree
      [(mint_mulle_atomic_pointer_write M, c11_mulle_atomic_pointer_write),
       (mint_mulle_atomic_pointer_write_relaxed M, c11_mulle_atomic_pointer_write_relaxed),
       (mint_mulle_atomic_pointer_write_nonatomic M, c11_mulle_atomic_pointer_write_nonatomic),
       (mint_mulle_atomic_pointer_nonatomic_write M, c11_mulle_atomic_pointer_nonatomic_write),
       (mint_mulle_atomic_functionpointer_write M, c11_mulle_atomic_functionpointer_write),
       (mint_mulle_atomic_functionpointer_write_relaxed M, c11_mulle_atomic_functionpointer_write_relaxed),
       (mint_mulle_atomic_functionpointer_write_nonatomic M, c11_mulle_atomic_functionpointer_write_nonatomic),
       (mint_mulle_atomic_functionpointer_nonatomic_write M, c11_mulle_atomic_functionpointer_nonatomic_write)] \<and>
    list_all adds_agree
      [(mint_mulle_atomic_pointer_add M, c11_mulle_atomic_pointer_add),
       (mint_mulle_atomic_pointer_add_relaxed M, c11_mulle_atomic_pointer_add_relaxed)] \<and>
    list_all actuals_agree
      [(mint_mulle_atomic_pointer_cas_actual M, c11_mulle_atomic_pointer_cas_actual),
       (mint_mulle_atomic_pointer_cas_relaxed_actual M, c11_mulle_atomic_pointer_cas_relaxed_actual),
       (mint_mulle_atomic_functionpointer_cas_actual M, c11_mulle_atomic_functionpointer_cas_actual),
       (mint_mulle_atomic_functionpointer_cas_relaxed_actual M, c11_mulle_atomic_functionpointer_cas_relaxed_actual)] \<and>
    list_all flags_agree
      [(mint_mulle_atomic_pointer_cas M, c11_mulle_atomic_pointer_cas),
       (mint_mulle_atomic_pointer_cas_relaxed M, c11_mulle_atomic_pointer_cas_relaxed),
       (mint_mulle_atomic_functionpointer_cas M, c11_mulle_atomic_functionpointer_cas),
       (mint_mulle_atomic_functionpointer_cas_relaxed M, c11_mulle_atomic_functionpointer_cas_relaxed)] \<and>
    list_all weak_actuals_agree
      [(mint_mulle_atomic_pointer_cas_weak_actual M, c11_mulle_atomic_pointer_cas_weak_actual),
       (mint_mulle_atomic_pointer_cas_weak_relaxed_actual M, c11_mulle_atomic_pointer_cas_weak_relaxed_actual),
       (mint_mulle_atomic_pointer_weakcas_actual M, c11_mulle_atomic_pointer_weakcas_actual),
       (mint_mulle_atomic_pointer_weakcas_relaxed_actual M, c11_mulle_atomic_pointer_weakcas_relaxed_actual),
       (mint_mulle_atomic_functionpointer_weakcas_actual M, c11_mulle_atomic_functionpointer_weakcas_actual),
       (mint_mulle_atomic_functionpointer_weakcas_relaxed_actual M, c11_mulle_atomic_functionpointer_weakcas_relaxed_actual)] \<and>
    list_all weak_flags_agree
      [(mint_mulle_atomic_pointer_cas_weak M, c11_mulle_atomic_pointer_cas_weak),
       (mint_mulle_atomic_pointer_cas_weak_relaxed M, c11_mulle_atomic_pointer_cas_weak_relaxed),
       (mint_mulle_atomic_pointer_weakcas M, c11_mulle_atomic_pointer_weakcas),
       (mint_mulle_atomic_pointer_weakcas_relaxed M, c11_mulle_atomic_pointer_weakcas_relaxed),
       (mint_mulle_atomic_functionpointer_weakcas M, c11_mulle_atomic_functionpointer_weakcas),
       (mint_mulle_atomic_functionpointer_weakcas_relaxed M, c11_mulle_atomic_functionpointer_weakcas_relaxed)] \<and>
    (\<forall>t (m :: mem) (m' :: mem). cells m = cells m' \<longrightarrow>
       cells (mint_mulle_atomic_memory_barrier M t m) = cells (c11_mulle_atomic_memory_barrier t m'))"
proof -
  note laws = mintomic_api.mint_laws [OF assms]
  show ?thesis
    by (intro conjI; simp add: agree_defs laws)
qed

theorem backends_agree_witness:
  "reads_agree (mint_mulle_atomic_pointer_read c11_mintomic, c11_mulle_atomic_pointer_read) \<and>
   weak_flags_agree (mint_mulle_atomic_pointer_weakcas c11_mintomic, c11_mulle_atomic_pointer_weakcas)"
  using backends_agree [OF c11_mint.mintomic_api_axioms] by simp

text \<open>In the C11 backend the flag form of the strong exchange is the value form and a
  comparison with the expected value, down to the access it logs; and that is what the weak
  forms lack: an exchange that fails spuriously reports failure in the flag form, but the
  value form returns the expected value although nothing was stored.\<close>

theorem c11_cas_forms:
  "(value \<noteq> expect \<longrightarrow>
      c11_mulle_atomic_pointer_cas nd t a value expect m =
        (case c11_mulle_atomic_pointer_cas_actual t a value expect m of
           (actual, m') \<Rightarrow> Inr (c_bool (actual = expect), m'))) \<and>
   (cells m a = expect \<and> value \<noteq> expect \<longrightarrow>
      (\<exists>m'. c11_mulle_atomic_pointer_cas_weak True nd t a value expect m = Inr (0, m') \<and>
        c11_mulle_atomic_pointer_cas_weak_actual True t a value expect m = (expect, m') \<and>
        cells m' = cells m))"
  by (auto simp: c11_pointer_defs stdatomic_defs Let_def)

theorem c11_cas_forms_witness:
  "\<exists>m'. c11_mulle_atomic_pointer_cas_weak True False 1 (0, 0) 5 3 example_mem = Inr (0, m') \<and>
     c11_mulle_atomic_pointer_cas_weak_actual True 1 (0, 0) 5 3 example_mem = (3, m')"
  using c11_cas_forms [of 5 3 False 1 "(0, 0)" example_mem] by auto

fun intptr_add_all :: "backend \<Rightarrow> tid \<Rightarrow> addr \<Rightarrow> intptr list \<Rightarrow> mem \<Rightarrow> intptr list \<times> mem" where
  "intptr_add_all B t a [] m = ([], m)"
| "intptr_add_all B t a (d # ds) m =
     (case mulle_atomic_intptr_add_relaxed B t a d m of
        (previous, m') \<Rightarrow> (case intptr_add_all B t a ds m' of (ps, m'') \<Rightarrow> (previous # ps, m'')))"

lemma intptr_add_all_length: "length (fst (intptr_add_all B t a ds m)) = length ds"
  by (induction ds arbitrary: m) (auto simp: case_prod_beta)

lemma intptr_add_all_cells:
  "cells (snd (intptr_add_all c11_backend t a ds m)) a = cells m a + sum_list ds"
  by (induction ds arbitrary: m)
    (auto simp: case_prod_beta c11.intptr_add_cells add.assoc)

lemma intptr_add_all_values:
  "i < length ds \<Longrightarrow>
     fst (intptr_add_all c11_backend t a ds m) ! i = cells m a + sum_list (take i ds)"
proof (induction ds arbitrary: m i)
  case Nil
  then show ?case by simp
next
  case (Cons d ds)
  then show ?case
    by (cases i) (auto simp: case_prod_beta c11.intptr_add_cells c11.intptr_add_value add.assoc)
qed

text \<open>An integer counter (\<open>mulle_atomic_intptr_t\<close>): every add returns the value before
  it, the sum of all earlier adds, and the adds accumulate modulo the word size; increment
  and decrement are the adds of 1 and of -1.\<close>

theorem intptr_counter:
  "cells (snd (intptr_add_all c11_backend t a ds m)) a = cells m a + sum_list ds \<and>
   (\<forall>i. i < length ds \<longrightarrow>
      fst (intptr_add_all c11_backend t a ds m) ! i = cells m a + sum_list (take i ds)) \<and>
   map_prod id cells (mulle_atomic_intptr_increment_relaxed c11_backend t a m) =
     map_prod id cells (mulle_atomic_intptr_add_relaxed c11_backend t a 1 m) \<and>
   map_prod id cells (mulle_atomic_intptr_decrement_relaxed c11_backend t a m) =
     map_prod id cells (mulle_atomic_intptr_add_relaxed c11_backend t a (- 1) m)"
  by (simp add: intptr_add_all_cells intptr_add_all_values map_prod_conv
    c11.intptr_add_value c11.intptr_add_cells mulle_atomic_intptr_increment_relaxed_def
    mulle_atomic_intptr_decrement_relaxed_def)

theorem intptr_counter_witness:
  "fst (intptr_add_all c11_backend 1 (0, 0) [4, 2] example_mem) ! 1 = 7"
  using intptr_counter [of 1 "(0, 0)" "[4, 2]" example_mem] by simp

end
