(* ===== verification/Plain_Mutex.thy ===== *)
theory Plain_Mutex
  imports Atomic_Api
begin

text \<open>
  The non-recursive mutex (\<open>mulle_thread_mutex_t\<close>) of the pthreads and the C11 backend
  (\<open>src/mulle-thread-pthreads.h\<close>, \<open>src/mulle-thread-c11.h\<close>) and the macro
  \<open>mulle_thread_mutex_do\<close> of \<open>src/mulle-thread.h\<close>. The functions of \<open><pthread.h>\<close> and
  \<open><threads.h>\<close> are parameters, a record each, with the laws their standards document as a
  locale. \<open>plain_mutex\<close> is the contract of the library's mutex, which both wrappers fulfil
  and on which the recursive mutex rests.

  A lock that can't be taken yet blocks: the call has no result (\<open>None\<close>) in that state.
\<close>

subsection \<open>The contract of a mutex\<close>

record 'm mutex_ops =
  mo_init :: "'m \<Rightarrow> int \<times> 'm"
  mo_lock :: "tid \<Rightarrow> 'm \<Rightarrow> (int \<times> 'm) option"
  mo_trylock :: "tid \<Rightarrow> 'm \<Rightarrow> int \<times> 'm"
  mo_unlock :: "tid \<Rightarrow> 'm \<Rightarrow> int \<times> 'm"
  mo_done :: "'m \<Rightarrow> int \<times> 'm"

text \<open>\<open>holder\<close> is the thread that holds the mutex. Nothing is promised for a thread that locks
  a mutex it holds, or unlocks one it doesn't.\<close>

locale plain_mutex =
  fixes M :: "'m mutex_ops" and holder :: "'m \<Rightarrow> tid option"
  assumes init_free: "fst (mo_init M m) = 0 \<Longrightarrow> holder (snd (mo_init M m)) = None"
    and lock_free: "holder m = None \<Longrightarrow> \<exists>m'. mo_lock M t m = Some (0, m') \<and> holder m' = Some t"
    and lock_held: "holder m = Some u \<Longrightarrow> u \<noteq> t \<Longrightarrow> mo_lock M t m = None"
    and trylock_free: "holder m = None \<Longrightarrow>
      fst (mo_trylock M t m) = 0 \<and> holder (snd (mo_trylock M t m)) = Some t"
    and trylock_held: "holder m = Some u \<Longrightarrow> u \<noteq> t \<Longrightarrow>
      fst (mo_trylock M t m) = EBUSY \<and> holder (snd (mo_trylock M t m)) = Some u"
    and unlock_held: "holder m = Some t \<Longrightarrow>
      fst (mo_unlock M t m) = 0 \<and> holder (snd (mo_unlock M t m)) = None"
begin

lemma lock_result:
  assumes "holder m \<noteq> Some t" and "mo_lock M t m = Some (r, m')"
  shows "r = 0 \<and> holder m = None \<and> holder m' = Some t"
  using assms lock_free [of m t] lock_held [of m _ t] by (cases "holder m") auto

lemma trylock_result:
  assumes "holder m \<noteq> Some t" and "mo_trylock M t m = (r, m')"
  shows "(r = 0 \<and> holder m = None \<and> holder m' = Some t) \<or>
    (r = EBUSY \<and> holder m \<noteq> None \<and> holder m' = holder m)"
  using assms trylock_free [of m t] trylock_held [of m _ t] by (cases "holder m") auto

end

subsection \<open>pthreads\<close>

record 'm pthread_mutex_api =
  pthread_mutex_init :: "'m \<Rightarrow> int \<times> 'm"
  pthread_mutex_lock :: "tid \<Rightarrow> 'm \<Rightarrow> (int \<times> 'm) option"
  pthread_mutex_trylock :: "tid \<Rightarrow> 'm \<Rightarrow> int \<times> 'm"
  pthread_mutex_unlock :: "tid \<Rightarrow> 'm \<Rightarrow> int \<times> 'm"
  pthread_mutex_destroy :: "'m \<Rightarrow> int \<times> 'm"

text \<open>The result code of the wrappers: 0 or -1.\<close>

definition zero_or_minus_one :: "bool \<Rightarrow> int" where
  "zero_or_minus_one ok = (if ok then 0 else - 1)"

lemma zero_or_minus_one_simps [simp]:
  "zero_or_minus_one True = 0" "zero_or_minus_one False = - 1"
  "zero_or_minus_one ok = 0 \<longleftrightarrow> ok"
  by (simp_all add: zero_or_minus_one_def)

definition pthreads_mulle_thread_mutex_init :: "'m pthread_mutex_api \<Rightarrow> 'm \<Rightarrow> int \<times> 'm" where
  "pthreads_mulle_thread_mutex_init P lock =
     (case pthread_mutex_init P lock of (rval, lock') \<Rightarrow> (zero_or_minus_one (rval = 0), lock'))"

definition pthreads_mulle_thread_mutex_lock ::
  "'m pthread_mutex_api \<Rightarrow> tid \<Rightarrow> 'm \<Rightarrow> (int \<times> 'm) option"
where
  "pthreads_mulle_thread_mutex_lock P t lock =
     (case pthread_mutex_lock P t lock of
        None \<Rightarrow> None
      | Some (rval, lock') \<Rightarrow> Some (zero_or_minus_one (rval = 0), lock'))"

definition pthreads_mulle_thread_mutex_trylock ::
  "'m pthread_mutex_api \<Rightarrow> tid \<Rightarrow> 'm \<Rightarrow> int \<times> 'm"
where
  "pthreads_mulle_thread_mutex_trylock P t lock =
     (case pthread_mutex_trylock P t lock of
        (rval, lock') \<Rightarrow> if rval = 0 \<or> rval = EBUSY then (rval, lock') else (- 1, lock'))"

definition pthreads_mulle_thread_mutex_unlock ::
  "'m pthread_mutex_api \<Rightarrow> tid \<Rightarrow> 'm \<Rightarrow> int \<times> 'm"
where
  "pthreads_mulle_thread_mutex_unlock P t lock =
     (case pthread_mutex_unlock P t lock of (rval, lock') \<Rightarrow> (zero_or_minus_one (rval = 0), lock'))"

definition pthreads_mulle_thread_mutex_done :: "'m pthread_mutex_api \<Rightarrow> 'm \<Rightarrow> int \<times> 'm" where
  "pthreads_mulle_thread_mutex_done P lock =
     (case pthread_mutex_destroy P lock of (rval, lock') \<Rightarrow> (zero_or_minus_one (rval = 0), lock'))"

definition pthreads_mutex :: "'m pthread_mutex_api \<Rightarrow> 'm mutex_ops" where
  "pthreads_mutex P = \<lparr>
     mo_init = pthreads_mulle_thread_mutex_init P,
     mo_lock = pthreads_mulle_thread_mutex_lock P,
     mo_trylock = pthreads_mulle_thread_mutex_trylock P,
     mo_unlock = pthreads_mulle_thread_mutex_unlock P,
     mo_done = pthreads_mulle_thread_mutex_done P\<rparr>"

lemmas pthreads_mutex_defs =
  pthreads_mutex_def pthreads_mulle_thread_mutex_init_def pthreads_mulle_thread_mutex_lock_def
  pthreads_mulle_thread_mutex_trylock_def pthreads_mulle_thread_mutex_unlock_def
  pthreads_mulle_thread_mutex_done_def

text \<open>POSIX, for a mutex with default attributes.\<close>

locale pthread_mutex_laws =
  fixes P :: "'m pthread_mutex_api" and holder :: "'m \<Rightarrow> tid option"
  assumes posix_init: "fst (pthread_mutex_init P m) = 0 \<Longrightarrow>
      holder (snd (pthread_mutex_init P m)) = None"
    and posix_lock_free: "holder m = None \<Longrightarrow>
      \<exists>m'. pthread_mutex_lock P t m = Some (0, m') \<and> holder m' = Some t"
    and posix_lock_held: "holder m = Some u \<Longrightarrow> u \<noteq> t \<Longrightarrow> pthread_mutex_lock P t m = None"
    and posix_trylock_free: "holder m = None \<Longrightarrow>
      fst (pthread_mutex_trylock P t m) = 0 \<and> holder (snd (pthread_mutex_trylock P t m)) = Some t"
    and posix_trylock_held: "holder m = Some u \<Longrightarrow> u \<noteq> t \<Longrightarrow>
      fst (pthread_mutex_trylock P t m) = EBUSY \<and>
      holder (snd (pthread_mutex_trylock P t m)) = Some u"
    and posix_unlock: "holder m = Some t \<Longrightarrow>
      fst (pthread_mutex_unlock P t m) = 0 \<and> holder (snd (pthread_mutex_unlock P t m)) = None"

sublocale pthread_mutex_laws \<subseteq> pthreads: plain_mutex "pthreads_mutex P" holder
proof unfold_locales
  fix m t
  assume "holder m = None"
  from posix_lock_free [OF this, of t] show
    "\<exists>m'. mo_lock (pthreads_mutex P) t m = Some (0, m') \<and> holder m' = Some t"
    by (auto simp: pthreads_mutex_defs)
qed (auto simp: pthreads_mutex_defs case_prod_beta posix_lock_held posix_trylock_free
  posix_trylock_held posix_unlock intro: posix_init split: option.splits)

subsection \<open>C11 threads\<close>

datatype thrd_status = thrd_success | thrd_busy | thrd_timedout | thrd_error | thrd_nomem

record 'm mtx_api =
  mtx_init_plain :: "'m \<Rightarrow> thrd_status \<times> 'm"
  mtx_lock :: "tid \<Rightarrow> 'm \<Rightarrow> (thrd_status \<times> 'm) option"
  mtx_trylock :: "tid \<Rightarrow> 'm \<Rightarrow> thrd_status \<times> 'm"
  mtx_unlock :: "tid \<Rightarrow> 'm \<Rightarrow> thrd_status \<times> 'm"
  mtx_destroy :: "'m \<Rightarrow> 'm"

definition c11_mulle_thread_mutex_init :: "'m mtx_api \<Rightarrow> 'm \<Rightarrow> int \<times> 'm" where
  "c11_mulle_thread_mutex_init T lock =
     (case mtx_init_plain T lock of (st, lock') \<Rightarrow> (zero_or_minus_one (st = thrd_success), lock'))"

definition c11_mulle_thread_mutex_lock :: "'m mtx_api \<Rightarrow> tid \<Rightarrow> 'm \<Rightarrow> (int \<times> 'm) option" where
  "c11_mulle_thread_mutex_lock T t lock =
     (case mtx_lock T t lock of
        None \<Rightarrow> None
      | Some (st, lock') \<Rightarrow> Some (zero_or_minus_one (st = thrd_success), lock'))"

definition c11_mulle_thread_mutex_trylock :: "'m mtx_api \<Rightarrow> tid \<Rightarrow> 'm \<Rightarrow> int \<times> 'm" where
  "c11_mulle_thread_mutex_trylock T t lock =
     (case mtx_trylock T t lock of
        (st, lock') \<Rightarrow>
          (case st of
             thrd_success \<Rightarrow> (0, lock')
           | thrd_busy \<Rightarrow> (EBUSY, lock')
           | _ \<Rightarrow> (- 1, lock')))"

definition c11_mulle_thread_mutex_unlock :: "'m mtx_api \<Rightarrow> tid \<Rightarrow> 'm \<Rightarrow> int \<times> 'm" where
  "c11_mulle_thread_mutex_unlock T t lock =
     (case mtx_unlock T t lock of (st, lock') \<Rightarrow> (zero_or_minus_one (st = thrd_success), lock'))"

definition c11_mulle_thread_mutex_done :: "'m mtx_api \<Rightarrow> 'm \<Rightarrow> int \<times> 'm" where
  "c11_mulle_thread_mutex_done T lock = (0, mtx_destroy T lock)"

definition c11_mutex :: "'m mtx_api \<Rightarrow> 'm mutex_ops" where
  "c11_mutex T = \<lparr>
     mo_init = c11_mulle_thread_mutex_init T,
     mo_lock = c11_mulle_thread_mutex_lock T,
     mo_trylock = c11_mulle_thread_mutex_trylock T,
     mo_unlock = c11_mulle_thread_mutex_unlock T,
     mo_done = c11_mulle_thread_mutex_done T\<rparr>"

lemmas c11_mutex_defs =
  c11_mutex_def c11_mulle_thread_mutex_init_def c11_mulle_thread_mutex_lock_def
  c11_mulle_thread_mutex_trylock_def c11_mulle_thread_mutex_unlock_def
  c11_mulle_thread_mutex_done_def

text \<open>ISO C11 7.26.4, for a mutex of type \<open>mtx_plain\<close>.\<close>

locale mtx_laws =
  fixes T :: "'m mtx_api" and holder :: "'m \<Rightarrow> tid option"
  assumes c_init: "fst (mtx_init_plain T m) = thrd_success \<Longrightarrow>
      holder (snd (mtx_init_plain T m)) = None"
    and c_lock_free: "holder m = None \<Longrightarrow>
      \<exists>m'. mtx_lock T t m = Some (thrd_success, m') \<and> holder m' = Some t"
    and c_lock_held: "holder m = Some u \<Longrightarrow> u \<noteq> t \<Longrightarrow> mtx_lock T t m = None"
    and c_trylock_free: "holder m = None \<Longrightarrow>
      fst (mtx_trylock T t m) = thrd_success \<and> holder (snd (mtx_trylock T t m)) = Some t"
    and c_trylock_held: "holder m = Some u \<Longrightarrow> u \<noteq> t \<Longrightarrow>
      fst (mtx_trylock T t m) = thrd_busy \<and> holder (snd (mtx_trylock T t m)) = Some u"
    and c_unlock: "holder m = Some t \<Longrightarrow>
      fst (mtx_unlock T t m) = thrd_success \<and> holder (snd (mtx_unlock T t m)) = None"

sublocale mtx_laws \<subseteq> c11_threads: plain_mutex "c11_mutex T" holder
proof unfold_locales
  fix m t
  assume "holder m = None"
  from c_lock_free [OF this, of t] show
    "\<exists>m'. mo_lock (c11_mutex T) t m = Some (0, m') \<and> holder m' = Some t"
    by (auto simp: c11_mutex_defs)
qed (auto simp: c11_mutex_defs case_prod_beta c_lock_held c_trylock_free
  c_trylock_held c_unlock intro: c_init split: option.splits)

subsection \<open>A reference mutex\<close>

text \<open>
  The simplest system library that keeps the documentation: the mutex is its holder. It
  shows that the laws can be fulfilled and serves as the concrete library of examples.
\<close>

definition reference_pthread :: "tid option pthread_mutex_api" where
  "reference_pthread = \<lparr>
     pthread_mutex_init = (\<lambda>m. (0, None)),
     pthread_mutex_lock = (\<lambda>t m. if m = None then Some (0, Some t) else None),
     pthread_mutex_trylock = (\<lambda>t m. if m = None then (0, Some t) else (EBUSY, m)),
     pthread_mutex_unlock = (\<lambda>t m. if m = Some t then (0, None) else (1, m)),
     pthread_mutex_destroy = (\<lambda>m. if m = None then (0, None) else (EBUSY, m))\<rparr>"

interpretation reference_posix: pthread_mutex_laws reference_pthread "\<lambda>m. m"
  by unfold_locales (auto simp: reference_pthread_def)

definition reference_mtx :: "tid option mtx_api" where
  "reference_mtx = \<lparr>
     mtx_init_plain = (\<lambda>m. (thrd_success, None)),
     mtx_lock = (\<lambda>t m. if m = None then Some (thrd_success, Some t) else None),
     mtx_trylock = (\<lambda>t m. if m = None then (thrd_success, Some t) else (thrd_busy, m)),
     mtx_unlock = (\<lambda>t m. if m = Some t then (thrd_success, None) else (thrd_error, m)),
     mtx_destroy = (\<lambda>m. None)\<rparr>"

interpretation reference_c: mtx_laws reference_mtx "\<lambda>m. m"
  by unfold_locales (auto simp: reference_mtx_def)

subsection \<open>The macro \<open>mulle_thread_mutex_do\<close>\<close>

text \<open>How the client's block ends: at its end, by \<open>break\<close>, by \<open>continue\<close>, or by leaving the
  enclosing function (\<open>return\<close>, \<open>goto\<close>).\<close>

datatype body_exit = Falls | Breaks | Continues | Leaves

text \<open>
  The macro is two nested loops over \<open>i\<close> and \<open>j\<close>. The inner one runs the body once; \<open>break\<close>
  ends it, \<open>continue\<close> goes to \<open>j++\<close>. The outer one runs while \<open>i < 1\<close> and unlocks in its
  increment. Each loop is a function of its counter; \<open>None\<close> as the exit means that the loop
  ended normally. The state is the mutex and the client's data.
\<close>

function inner_loop ::
  "nat \<Rightarrow> ('m \<times> 'd \<Rightarrow> body_exit \<times> 'm \<times> 'd) \<Rightarrow> 'm \<times> 'd \<Rightarrow> body_exit option \<times> 'm \<times> 'd"
where
  "inner_loop j body s =
     (if j < 1
      then (case body s of
          (Leaves, s') \<Rightarrow> (Some Leaves, s')
        | (Breaks, s') \<Rightarrow> (None, s')
        | (_, s') \<Rightarrow> inner_loop (j + 1) body s')
      else (None, s))"
  by pat_completeness auto
termination by (relation "measure (\<lambda>(j, _). 1 - j)") auto

function outer_loop ::
  "'m mutex_ops \<Rightarrow> tid \<Rightarrow> nat \<Rightarrow> ('m \<times> 'd \<Rightarrow> body_exit \<times> 'm \<times> 'd) \<Rightarrow> 'm \<times> 'd \<Rightarrow>
     body_exit option \<times> 'm \<times> 'd"
where
  "outer_loop M t i body s =
     (if i < 1
      then (case inner_loop 0 body s of
          (Some e, s') \<Rightarrow> (Some e, s')
        | (None, (mutex, d)) \<Rightarrow> outer_loop M t (i + 1) body (snd (mo_unlock M t mutex), d))
      else (None, s))"
  by pat_completeness auto
termination by (relation "measure (\<lambda>(_, _, i, _). 1 - i)") auto

declare inner_loop.simps [simp del] outer_loop.simps [simp del]

definition mulle_thread_mutex_do ::
  "'m mutex_ops \<Rightarrow> tid \<Rightarrow> ('m \<times> 'd \<Rightarrow> body_exit \<times> 'm \<times> 'd) \<Rightarrow> 'm \<times> 'd \<Rightarrow>
     (body_exit option \<times> 'm \<times> 'd) option"
where
  "mulle_thread_mutex_do M t body s =
     (case mo_lock M t (fst s) of
        None \<Rightarrow> None
      | Some (rval, mutex) \<Rightarrow> Some (outer_loop M t 0 body (mutex, snd s)))"

lemma inner_loop_once:
  "inner_loop 0 body s =
     (case body s of (Leaves, s') \<Rightarrow> (Some Leaves, s') | (e, s') \<Rightarrow> (None, s'))"
  by (auto simp: inner_loop.simps [of 0] inner_loop.simps [of "Suc 0"] split: prod.splits body_exit.splits)

lemma outer_loop_once:
  "outer_loop M t 0 body s =
     (case body s of
        (Leaves, s') \<Rightarrow> (Some Leaves, s')
      | (e, (mutex, d)) \<Rightarrow> (None, snd (mo_unlock M t mutex), d))"
  by (auto simp: outer_loop.simps [of _ _ 0] outer_loop.simps [of _ _ "Suc 0"] inner_loop_once
    split: prod.splits body_exit.splits)

lemma mutex_do_unfold:
  "mulle_thread_mutex_do M t body s =
     (case mo_lock M t (fst s) of
        None \<Rightarrow> None
      | Some (rval, mutex) \<Rightarrow> Some (case body (mutex, snd s) of
          (Leaves, s') \<Rightarrow> (Some Leaves, s')
        | (e, (mutex', d)) \<Rightarrow> (None, snd (mo_unlock M t mutex'), d)))"
  by (auto simp: mulle_thread_mutex_do_def outer_loop_once split: option.splits)

context plain_mutex
begin

lemma do_releases:
  assumes free: "holder (fst s) = None"
    and keeps: "\<And>m d. holder m = Some t \<Longrightarrow> holder (fst (snd (body (m, d)))) = Some t"
  shows "\<exists>m e s1. mo_lock M t (fst s) = Some (0, m) \<and> holder m = Some t \<and>
    body (m, snd s) = (e, s1) \<and>
    (\<exists>s'. mulle_thread_mutex_do M t body s = Some ((if e = Leaves then Some Leaves else None), s') \<and>
      snd s' = snd s1 \<and> holder (fst s') = (if e = Leaves then Some t else None))"
proof -
  obtain m where m: "mo_lock M t (fst s) = Some (0, m)" "holder m = Some t"
    using lock_free [OF free, of t] by auto
  obtain e m1 d where b: "body (m, snd s) = (e, m1, d)" by (cases "body (m, snd s)") auto
  then have h: "holder m1 = Some t" using keeps [OF m(2), of "snd s"] by simp
  show ?thesis
    using m b h unlock_held [OF h]
    by (cases e) (auto simp: mutex_do_unfold)
qed

end

context pthread_mutex_laws
begin

lemmas fulfils_contract = pthreads.plain_mutex_axioms

end

context mtx_laws
begin

lemmas fulfils_contract = c11_threads.plain_mutex_axioms

end

subsection \<open>Properties\<close>

text \<open>The mutex wrappers of both backends keep the contract of the library's mutex, given
  the documented laws of \<open><pthread.h>\<close> or \<open><threads.h>\<close>: with the status codes translated,
  locking a free mutex gives 0 and makes the thread its holder, locking one held by another
  thread blocks, trying gives 0 or EBUSY accordingly, and unlocking frees it.\<close>

theorem mutex_wrappers_fulfil_contract:
  assumes "pthread_mutex_laws P holder" and "mtx_laws T holder'"
  shows "plain_mutex (pthreads_mutex P) holder \<and> plain_mutex (c11_mutex T) holder'"
  using pthread_mutex_laws.fulfils_contract [OF assms(1)] mtx_laws.fulfils_contract [OF assms(2)]
  by simp

theorem mutex_wrappers_fulfil_contract_witness:
  "mo_trylock (pthreads_mutex reference_pthread) 1 (Some 2) = (EBUSY, Some 2) \<and>
   plain_mutex (pthreads_mutex reference_pthread) (\<lambda>m. m)"
  using mutex_wrappers_fulfil_contract [OF reference_posix.pthread_mutex_laws_axioms
    reference_c.mtx_laws_axioms]
  by (simp add: pthreads_mutex_defs reference_pthread_def)

text \<open>\<open>mulle_thread_mutex_do\<close> on a free mutex, over pthreads: the body runs once, with the
  mutex held by the thread; when it ends, falls out of its end, breaks or continues, the
  mutex is free again and the effects of the body are kept; only leaving the function from
  inside the body keeps the mutex locked.\<close>

theorem mutex_do_releases:
  assumes "pthread_mutex_laws P holder" and "holder (fst s) = None"
    and "\<And>m d. holder m = Some t \<Longrightarrow> holder (fst (snd (body (m, d)))) = Some t"
  shows "\<exists>m e s1 s'. mo_lock (pthreads_mutex P) t (fst s) = Some (0, m) \<and> holder m = Some t \<and>
    body (m, snd s) = (e, s1) \<and>
    mulle_thread_mutex_do (pthreads_mutex P) t body s =
      Some ((if e = Leaves then Some Leaves else None), s') \<and>
    snd s' = snd s1 \<and> holder (fst s') = (if e = Leaves then Some t else None)"
  using plain_mutex.do_releases [OF pthread_mutex_laws.fulfils_contract [OF assms(1)] assms(2),
      of t body, OF assms(3)] by blast

theorem mutex_do_releases_witness:
  "\<exists>s'. mulle_thread_mutex_do (pthreads_mutex reference_pthread) 1
      (\<lambda>(m, d). (Breaks, m, d + 1)) (None, 41 :: nat) = Some (None, s') \<and> fst s' = None \<and> snd s' = 42"
proof -
  have "fst (None :: tid option, 41 :: nat) = None" by simp
  from mutex_do_releases [OF reference_posix.pthread_mutex_laws_axioms this,
      of 1 "\<lambda>(m, d). (Breaks, m, d + 1)"]
  show ?thesis by auto
qed

end
