(* ===== verification/Recursive_Mutex.thy ===== *)
theory Recursive_Mutex
  imports Plain_Mutex
begin

text \<open>
  The recursive mutex of \<open>src/mulle-thread.c\<close> (\<open>mulle_thread_recursive_mutex_t\<close> and its macro
  in \<open>src/mulle-thread.h\<close>): a plain mutex, the id of the thread that owns it and the depth of
  its locks, as an interleaving of any number of threads over any atomic backend and any
  plain mutex that keeps its contract. One step of a thread executes one access to shared
  memory or one call of the plain mutex.
\<close>

datatype rm_fn = Rm_lock | Rm_trylock | Rm_unlock

text \<open>The points of the functions: the read of the owner; the call of the plain mutex; the
  assertion after it; the write of the owner; the increment of the depth; the assertion of
  unlock; its decrement; the clearing of the owner; the unlock of the plain mutex; returned;
  stopped at an assertion.\<close>

datatype rm_pc =
  M_read_owner | M_mutex | L_assert | M_write | M_inc | U_assert | M_dec | M_clear | M_release
| M_ret | M_abort

record rm_act =
  ra_fn :: rm_fn
  ra_obj :: nat
  ra_pc :: rm_pc
  ra_result :: int

definition rm_thread_id :: "nat \<Rightarrow> addr" where
  "rm_thread_id p = (p, 0)"

definition rm_depth :: "nat \<Rightarrow> addr" where
  "rm_depth p = (p, 1)"

definition at_pc :: "rm_pc \<Rightarrow> rm_act \<Rightarrow> rm_act" where
  "at_pc pc a = a\<lparr>ra_pc := pc\<rparr>"

text \<open>Initialization and its counterpart, which run before and after all other calls.\<close>

definition mulle_thread_recursive_mutex_init ::
  "backend \<Rightarrow> 'm mutex_ops \<Rightarrow> tid \<Rightarrow> nat \<Rightarrow> mem \<times> 'm \<Rightarrow> int \<times> mem \<times> 'm"
where
  "mulle_thread_recursive_mutex_init B M t p s =
     (case s of (m, mutex) \<Rightarrow>
        (case mo_init M mutex of
           (rval, mutex') \<Rightarrow>
             (rval, be_pointer_write B t (rm_depth p) 0 (be_pointer_write B t (rm_thread_id p) NULL m),
              mutex')))"

definition mulle_thread_recursive_mutex_done ::
  "'m mutex_ops \<Rightarrow> mem \<times> 'm \<Rightarrow> int \<times> mem \<times> 'm"
where
  "mulle_thread_recursive_mutex_done M s =
     (case s of (m, mutex) \<Rightarrow> (case mo_done M mutex of (rval, mutex') \<Rightarrow> (rval, m, mutex')))"

text \<open>\<open>None\<close>: the thread blocks in the plain mutex. The result of the plain lock is not
  looked at, as in the code.\<close>

definition mulle_thread_recursive_mutex_lock ::
  "backend \<Rightarrow> 'm mutex_ops \<Rightarrow> bool \<Rightarrow> tid \<Rightarrow> rm_act \<Rightarrow> mem \<times> 'm \<Rightarrow> (rm_act \<times> mem \<times> 'm) option"
where
  "mulle_thread_recursive_mutex_lock B M ndebug this_id a s =
     (case s of (m, mutex) \<Rightarrow>
      (case ra_pc a of
         M_read_owner \<Rightarrow>
           (case be_pointer_read B this_id (rm_thread_id (ra_obj a)) m of
              (owner, m') \<Rightarrow> Some (at_pc (if owner \<noteq> this_id then M_mutex else M_inc) a, m', mutex))
       | M_mutex \<Rightarrow>
           (case mo_lock M this_id mutex of
              None \<Rightarrow> None
            | Some (rval, mutex') \<Rightarrow> Some (at_pc L_assert a, m, mutex'))
       | L_assert \<Rightarrow>
           if ndebug then Some (at_pc M_write a, m, mutex)
           else (case be_pointer_read B this_id (rm_thread_id (ra_obj a)) m of
              (owner, m') \<Rightarrow> Some (at_pc (if owner = NULL then M_write else M_abort) a, m', mutex))
       | M_write \<Rightarrow>
           Some (at_pc M_inc a, be_pointer_write B this_id (rm_thread_id (ra_obj a)) this_id m, mutex)
       | M_inc \<Rightarrow>
           (case be_pointer_increment B this_id (rm_depth (ra_obj a)) m of
              (previous, m') \<Rightarrow> Some (at_pc M_ret a, m', mutex))
       | _ \<Rightarrow> None))"

definition mulle_thread_recursive_mutex_unlock ::
  "backend \<Rightarrow> 'm mutex_ops \<Rightarrow> bool \<Rightarrow> tid \<Rightarrow> rm_act \<Rightarrow> mem \<times> 'm \<Rightarrow> (rm_act \<times> mem \<times> 'm) option"
where
  "mulle_thread_recursive_mutex_unlock B M ndebug self a s =
     (case s of (m, mutex) \<Rightarrow>
      (case ra_pc a of
         U_assert \<Rightarrow>
           if ndebug then Some (at_pc M_dec a, m, mutex)
           else (case be_pointer_read B self (rm_thread_id (ra_obj a)) m of
              (owner, m') \<Rightarrow> Some (at_pc (if owner = self then M_dec else M_abort) a, m', mutex))
       | M_dec \<Rightarrow>
           (case be_pointer_decrement B self (rm_depth (ra_obj a)) m of
              (previous, m') \<Rightarrow>
                if 1 < sint previous then Some (at_pc M_ret a, m', mutex)
                else Some (at_pc M_clear a, m', mutex))
       | M_clear \<Rightarrow>
           Some (at_pc M_release a, be_pointer_write B self (rm_thread_id (ra_obj a)) NULL m, mutex)
       | M_release \<Rightarrow>
           (case mo_unlock M self mutex of (rval, mutex') \<Rightarrow> Some (at_pc M_ret a, m, mutex'))
       | _ \<Rightarrow> None))"

definition mulle_thread_recursive_mutex_trylock ::
  "backend \<Rightarrow> 'm mutex_ops \<Rightarrow> tid \<Rightarrow> rm_act \<Rightarrow> mem \<times> 'm \<Rightarrow> (rm_act \<times> mem \<times> 'm) option"
where
  "mulle_thread_recursive_mutex_trylock B M this_id a s =
     (case s of (m, mutex) \<Rightarrow>
      (case ra_pc a of
         M_read_owner \<Rightarrow>
           (case be_pointer_read B this_id (rm_thread_id (ra_obj a)) m of
              (owner, m') \<Rightarrow> Some (at_pc (if owner \<noteq> this_id then M_mutex else M_inc) a, m', mutex))
       | M_mutex \<Rightarrow>
           (case mo_trylock M this_id mutex of
              (rval, mutex') \<Rightarrow>
                if rval \<noteq> 0 then Some (at_pc M_ret (a\<lparr>ra_result := - 1\<rparr>), m, mutex')
                else Some (at_pc M_write a, m, mutex'))
       | M_write \<Rightarrow>
           Some (at_pc M_inc a, be_pointer_write B this_id (rm_thread_id (ra_obj a)) this_id m, mutex)
       | M_inc \<Rightarrow>
           (case be_pointer_increment B this_id (rm_depth (ra_obj a)) m of
              (previous, m') \<Rightarrow> Some (at_pc M_ret (a\<lparr>ra_result := 0\<rparr>), m', mutex))
       | _ \<Rightarrow> None))"

definition rm_fn_step ::
  "backend \<Rightarrow> 'm mutex_ops \<Rightarrow> bool \<Rightarrow> tid \<Rightarrow> rm_act \<Rightarrow> mem \<times> 'm \<Rightarrow> (rm_act \<times> mem \<times> 'm) option"
where
  "rm_fn_step B M ndebug t a s =
     (case ra_fn a of
        Rm_lock \<Rightarrow> mulle_thread_recursive_mutex_lock B M ndebug t a s
      | Rm_trylock \<Rightarrow> mulle_thread_recursive_mutex_trylock B M t a s
      | Rm_unlock \<Rightarrow> mulle_thread_recursive_mutex_unlock B M ndebug t a s)"

lemmas rm_fn_defs =
  rm_fn_step_def mulle_thread_recursive_mutex_lock_def mulle_thread_recursive_mutex_trylock_def
  mulle_thread_recursive_mutex_unlock_def

definition rm_entry :: "rm_fn \<Rightarrow> nat \<Rightarrow> rm_act" where
  "rm_entry f p = \<lparr>ra_fn = f, ra_obj = p,
     ra_pc = (if f = Rm_unlock then U_assert else M_read_owner), ra_result = 0\<rparr>"

subsection \<open>Threads\<close>

text \<open>
  The system: memory, the plain mutexes, what each thread is executing, and as history how
  often each thread holds each mutex, counted at the increment and the decrement of the
  depth. Clients follow the rules of the interface: they unlock only what they hold, and
  they don't lock deeper than the signed depth can count (\<open>INTPTR_MAX\<close>).
\<close>

record 'm rm_sys =
  rm_mem :: mem
  rm_mutex :: "nat \<Rightarrow> 'm"
  rm_acts :: "tid \<Rightarrow> rm_act option"
  rm_held :: "tid \<Rightarrow> nat \<Rightarrow> nat"

definition rm_max_depth :: int where
  "rm_max_depth = 9223372036854775807"

datatype rm_move = Rm_call tid rm_fn nat | Rm_step tid

definition rm_may_call :: "'m rm_sys \<Rightarrow> tid \<Rightarrow> rm_fn \<Rightarrow> nat \<Rightarrow> bool" where
  "rm_may_call s t f p \<longleftrightarrow> t \<noteq> 0 \<and> rm_acts s t = None \<and>
     (if f = Rm_unlock then 0 < rm_held s t p else int (rm_held s t p) < rm_max_depth)"

definition rm_count :: "tid \<Rightarrow> rm_act \<Rightarrow> 'm rm_sys \<Rightarrow> tid \<Rightarrow> nat \<Rightarrow> nat" where
  "rm_count t a s =
     (let h = rm_held s; p = ra_obj a in
      case ra_pc a of
        M_inc \<Rightarrow> h(t := (h t)(p := h t p + 1))
      | M_dec \<Rightarrow> h(t := (h t)(p := h t p - 1))
      | _ \<Rightarrow> h)"

fun rm_exec ::
  "backend \<Rightarrow> 'm mutex_ops \<Rightarrow> bool \<Rightarrow> rm_move \<Rightarrow> 'm rm_sys \<Rightarrow> 'm rm_sys option"
where
  "rm_exec B M ndebug (Rm_call t f p) s =
     (if rm_may_call s t f p
      then Some (s\<lparr>rm_acts := (rm_acts s)(t := Some (rm_entry f p))\<rparr>) else None)"
| "rm_exec B M ndebug (Rm_step t) s =
     (case rm_acts s t of
        None \<Rightarrow> None
      | Some a \<Rightarrow>
          if ra_pc a = M_ret then Some (s\<lparr>rm_acts := (rm_acts s)(t := None)\<rparr>)
          else (case rm_fn_step B M ndebug t a (rm_mem s, rm_mutex s (ra_obj a)) of
              None \<Rightarrow> None
            | Some (a', m', mutex') \<Rightarrow> Some (s\<lparr>
                rm_mem := m',
                rm_mutex := (rm_mutex s)(ra_obj a := mutex'),
                rm_acts := (rm_acts s)(t := Some a'),
                rm_held := rm_count t a s\<rparr>)))"

fun rm_run ::
  "backend \<Rightarrow> 'm mutex_ops \<Rightarrow> bool \<Rightarrow> rm_move list \<Rightarrow> 'm rm_sys \<Rightarrow> 'm rm_sys option"
where
  "rm_run B M ndebug [] s = Some s"
| "rm_run B M ndebug (mv # mvs) s =
     (case rm_exec B M ndebug mv s of None \<Rightarrow> None | Some s' \<Rightarrow> rm_run B M ndebug mvs s')"

text \<open>At the start every recursive mutex has been initialized.\<close>

definition rm_start :: "('m \<Rightarrow> tid option) \<Rightarrow> 'm rm_sys \<Rightarrow> bool" where
  "rm_start holder s \<longleftrightarrow>
     (\<forall>p. cells (rm_mem s) (rm_thread_id p) = NULL \<and> cells (rm_mem s) (rm_depth p) = 0 \<and>
        holder (rm_mutex s p) = None) \<and>
     rm_acts s = (\<lambda>t. None) \<and> rm_held s = (\<lambda>t p. 0)"

inductive rm_reach ::
  "backend \<Rightarrow> 'm mutex_ops \<Rightarrow> ('m \<Rightarrow> tid option) \<Rightarrow> bool \<Rightarrow> 'm rm_sys \<Rightarrow> bool" for B M holder nd
where
  rm_reach_start: "rm_start holder s \<Longrightarrow> rm_reach B M holder nd s"
| rm_reach_step: "rm_reach B M holder nd s \<Longrightarrow> rm_exec B M nd mv s = Some s' \<Longrightarrow>
     rm_reach B M holder nd s'"

lemma rm_run_reach:
  "rm_reach B M holder nd s \<Longrightarrow> rm_run B M nd mvs s = Some s' \<Longrightarrow> rm_reach B M holder nd s'"
  by (induction mvs arbitrary: s) (auto split: option.splits intro: rm_reach_step)

subsection \<open>The protocol\<close>

text \<open>
  One step of thread \<open>t\<close> on the triple of the owner id, the depth and the holder of the
  plain mutex.
\<close>

inductive rm_trans ::
  "bool \<Rightarrow> tid \<Rightarrow> rm_fn \<Rightarrow> rm_pc \<Rightarrow> ptr \<times> ptr \<times> tid option \<Rightarrow> rm_pc \<Rightarrow> ptr \<times> ptr \<times> tid option \<Rightarrow> bool"
  for nd t
where
  rm_own: "f \<noteq> Rm_unlock \<Longrightarrow> rm_trans nd t f M_read_owner (t, d, h) M_inc (t, d, h)"
| rm_foreign: "f \<noteq> Rm_unlock \<Longrightarrow> i \<noteq> t \<Longrightarrow> rm_trans nd t f M_read_owner (i, d, h) M_mutex (i, d, h)"
| rm_lock: "rm_trans nd t Rm_lock M_mutex (i, d, None) L_assert (i, d, Some t)"
| rm_try: "rm_trans nd t Rm_trylock M_mutex (i, d, None) M_write (i, d, Some t)"
| rm_busy: "h \<noteq> None \<Longrightarrow> rm_trans nd t Rm_trylock M_mutex (i, d, h) M_ret (i, d, h)"
| rm_assert: "nd \<or> i = NULL \<Longrightarrow> rm_trans nd t Rm_lock L_assert (i, d, h) M_write (i, d, h)"
| rm_fail: "\<not> nd \<Longrightarrow> i \<noteq> NULL \<Longrightarrow> rm_trans nd t Rm_lock L_assert (i, d, h) M_abort (i, d, h)"
| rm_write: "f \<noteq> Rm_unlock \<Longrightarrow> rm_trans nd t f M_write (i, d, h) M_inc (t, d, h)"
| rm_inc: "f \<noteq> Rm_unlock \<Longrightarrow> rm_trans nd t f M_inc (i, d, h) M_ret (i, d + 1, h)"
| rm_uassert: "nd \<or> i = t \<Longrightarrow> rm_trans nd t Rm_unlock U_assert (i, d, h) M_dec (i, d, h)"
| rm_ufail: "\<not> nd \<Longrightarrow> i \<noteq> t \<Longrightarrow> rm_trans nd t Rm_unlock U_assert (i, d, h) M_abort (i, d, h)"
| rm_dec: "1 < sint d \<Longrightarrow> rm_trans nd t Rm_unlock M_dec (i, d, h) M_ret (i, d - 1, h)"
| rm_last: "\<not> 1 < sint d \<Longrightarrow> rm_trans nd t Rm_unlock M_dec (i, d, h) M_clear (i, d - 1, h)"
| rm_clear: "rm_trans nd t Rm_unlock M_clear (i, d, h) M_release (NULL, d, h)"
| rm_release: "rm_trans nd t Rm_unlock M_release (i, d, h) M_ret (i, d, None)"

inductive_simps rm_trans_simps:
  "rm_trans nd t f M_read_owner x p' x'"
  "rm_trans nd t f M_mutex x p' x'"
  "rm_trans nd t f L_assert x p' x'"
  "rm_trans nd t f M_write x p' x'"
  "rm_trans nd t f M_inc x p' x'"
  "rm_trans nd t f U_assert x p' x'"
  "rm_trans nd t f M_dec x p' x'"
  "rm_trans nd t f M_clear x p' x'"
  "rm_trans nd t f M_release x p' x'"
  "rm_trans nd t f M_ret x p' x'"
  "rm_trans nd t f M_abort x p' x'"

definition rm_view :: "('m \<Rightarrow> tid option) \<Rightarrow> nat \<Rightarrow> mem \<Rightarrow> 'm \<Rightarrow> ptr \<times> ptr \<times> tid option" where
  "rm_view holder p m mutex = (cells m (rm_thread_id p), cells m (rm_depth p), holder mutex)"

lemma at_pc_simps [simp]:
  "ra_fn (at_pc pc a) = ra_fn a" "ra_obj (at_pc pc a) = ra_obj a" "ra_pc (at_pc pc a) = pc"
  "ra_result (at_pc pc a) = ra_result a"
  by (simp_all add: at_pc_def)

lemma rm_fields [simp]: "rm_thread_id p \<noteq> rm_depth q" "rm_depth q \<noteq> rm_thread_id p"
  "rm_thread_id p = rm_thread_id q \<longleftrightarrow> p = q" "rm_depth p = rm_depth q \<longleftrightarrow> p = q"
  by (auto simp: rm_thread_id_def rm_depth_def)

text \<open>The recursive mutex relies on both contracts.\<close>

locale recursive_mutex = atomic_backend B + plain_mutex M holder
  for B :: backend and M :: "'m mutex_ops" and holder :: "'m \<Rightarrow> tid option"
begin

lemma rm_fn_step_refines:
  assumes step: "rm_fn_step B M nd t a (m, mutex) = Some (a', m', mutex')"
    and enter: "ra_pc a = M_mutex \<Longrightarrow> holder mutex \<noteq> Some t"
    and release: "ra_pc a = M_release \<Longrightarrow> holder mutex = Some t"
  shows "ra_fn a' = ra_fn a \<and> ra_obj a' = ra_obj a \<and>
    rm_trans nd t (ra_fn a) (ra_pc a) (rm_view holder (ra_obj a) m mutex)
      (ra_pc a') (rm_view holder (ra_obj a) m' mutex') \<and>
    (\<forall>x. x \<noteq> rm_thread_id (ra_obj a) \<longrightarrow> x \<noteq> rm_depth (ra_obj a) \<longrightarrow> cells m' x = cells m x)"
proof (cases "ra_pc a")
  case M_mutex
  note no = enter [OF M_mutex]
  show ?thesis
  proof (cases "ra_fn a")
    case Rm_lock
    with step M_mutex obtain r where "mo_lock M t mutex = Some (r, mutex')" "m' = m"
      "a' = at_pc L_assert a"
      by (auto simp: rm_fn_defs split: option.splits)
    with lock_result [OF no] Rm_lock M_mutex show ?thesis
      by (auto simp: rm_view_def rm_trans_simps)
  next
    case Rm_trylock
    obtain r mutex1 where att: "mo_trylock M t mutex = (r, mutex1)" by fastforce
    have "EBUSY \<noteq> 0" by (simp add: EBUSY_def)
    with trylock_result [OF no att] step att M_mutex Rm_trylock show ?thesis
      by (auto simp: rm_fn_defs rm_view_def rm_trans_simps split: if_splits)
  next
    case Rm_unlock
    with step M_mutex show ?thesis by (simp add: rm_fn_defs)
  qed
next
  case M_release
  then show ?thesis
    using step release unlock_held [of mutex t]
    by (cases "ra_fn a") (auto simp: rm_fn_defs rm_view_def rm_trans_simps case_prod_beta)
qed (use step in \<open>cases "ra_fn a"; auto simp: rm_fn_defs rm_view_def rm_trans_simps case_prod_beta
    split: if_splits\<close>)+

lemma rm_init_start:
  assumes "mulle_thread_recursive_mutex_init B M t p (m, mutex) = (0, m', mutex')"
  shows "rm_view holder p m' mutex' = (NULL, 0, None)"
  using assms init_free [of mutex]
  by (auto simp: mulle_thread_recursive_mutex_init_def rm_view_def split: prod.splits)

end

end
