(* ===== verification/Recursive_Mutex_Invariant.thy ===== *)
theory Recursive_Mutex_Invariant
  imports Recursive_Mutex
begin

text \<open>
  The invariant of the recursive mutex and its guarantees: mutual exclusion, the depth is
  the number of locks held, the assertions hold, an owner never blocks, and the plain mutex
  is released by exactly the last unlock.
\<close>

subsection \<open>The invariant\<close>

definition pc_on :: "'m rm_sys \<Rightarrow> tid \<Rightarrow> nat \<Rightarrow> rm_pc option" where
  "pc_on s t p = (case rm_acts s t of
     None \<Rightarrow> None | Some a \<Rightarrow> if ra_obj a = p then Some (ra_pc a) else None)"

text \<open>A thread that doesn't hold the plain mutex of \<open>p\<close>.\<close>

definition rm_outside :: "rm_pc option \<Rightarrow> nat \<Rightarrow> bool" where
  "rm_outside pc held \<longleftrightarrow> held = 0 \<and> pc \<in> {None, Some M_read_owner, Some M_mutex, Some M_ret}"

text \<open>The one that does: owner id \<open>i\<close>, depth \<open>d\<close>, and the number of its locks.\<close>

definition rm_inside :: "tid \<Rightarrow> rm_pc option \<Rightarrow> ptr \<Rightarrow> ptr \<Rightarrow> nat \<Rightarrow> bool" where
  "rm_inside u pc i d held \<longleftrightarrow> d = of_nat held \<and>
     (case pc of
        Some L_assert \<Rightarrow> i = NULL \<and> held = 0
      | Some M_write \<Rightarrow> i = NULL \<and> held = 0
      | Some M_inc \<Rightarrow> i = u
      | Some M_clear \<Rightarrow> i = u \<and> held = 0
      | Some M_release \<Rightarrow> i = NULL \<and> held = 0
      | Some M_mutex \<Rightarrow> False
      | Some M_abort \<Rightarrow> False
      | _ \<Rightarrow> i = u \<and> 0 < held)"

definition rm_view_inv :: "ptr \<times> ptr \<times> tid option \<Rightarrow> (tid \<Rightarrow> rm_pc option) \<Rightarrow> (tid \<Rightarrow> nat) \<Rightarrow> bool" where
  "rm_view_inv v pcs held \<longleftrightarrow>
     (case v of (i, d, h) \<Rightarrow>
        (h = None \<and> i = NULL \<and> d = 0 \<and> (\<forall>t. rm_outside (pcs t) (held t))) \<or>
        (\<exists>u. h = Some u \<and> u \<noteq> 0 \<and> rm_inside u (pcs u) i d (held u) \<and>
          (\<forall>t. t \<noteq> u \<longrightarrow> rm_outside (pcs t) (held t))))"

definition rm_obj_inv :: "('m \<Rightarrow> tid option) \<Rightarrow> 'm rm_sys \<Rightarrow> nat \<Rightarrow> bool" where
  "rm_obj_inv holder s p \<longleftrightarrow>
     rm_view_inv (rm_view holder p (rm_mem s) (rm_mutex s p)) (\<lambda>t. pc_on s t p) (\<lambda>t. rm_held s t p)"

text \<open>An activation is at a point of its function, and there is room for one more lock
  until its increment.\<close>

definition rm_act_ok :: "nat \<Rightarrow> rm_act \<Rightarrow> bool" where
  "rm_act_ok held a \<longleftrightarrow> int held \<le> rm_max_depth \<and>
     (case ra_fn a of
        Rm_lock \<Rightarrow> ra_pc a \<in> {M_read_owner, M_mutex, L_assert, M_write, M_inc, M_ret} \<and>
          (ra_pc a \<noteq> M_ret \<longrightarrow> int held < rm_max_depth)
      | Rm_trylock \<Rightarrow> ra_pc a \<in> {M_read_owner, M_mutex, M_write, M_inc, M_ret} \<and>
          (ra_pc a \<noteq> M_ret \<longrightarrow> int held < rm_max_depth)
      | Rm_unlock \<Rightarrow> ra_pc a \<in> {U_assert, M_dec, M_clear, M_release, M_ret} \<and>
          (ra_pc a \<in> {U_assert, M_dec} \<longrightarrow> 0 < held))"

definition rm_inv :: "('m \<Rightarrow> tid option) \<Rightarrow> 'm rm_sys \<Rightarrow> bool" where
  "rm_inv holder s \<longleftrightarrow> (\<forall>p. rm_obj_inv holder s p) \<and> (\<forall>t p. int (rm_held s t p) \<le> rm_max_depth) \<and>
     (\<forall>t a. rm_acts s t = Some a \<longrightarrow> t \<noteq> 0 \<and> rm_act_ok (rm_held s t (ra_obj a)) a)"

lemma rm_obj_inv_cases:
  assumes "rm_obj_inv holder s p"
  obtains (free) "cells (rm_mem s) (rm_thread_id p) = NULL" and "cells (rm_mem s) (rm_depth p) = 0"
      and "holder (rm_mutex s p) = None" and "\<And>t. rm_outside (pc_on s t p) (rm_held s t p)"
    | (held) u where "holder (rm_mutex s p) = Some u" and "u \<noteq> 0"
      and "rm_inside u (pc_on s u p) (cells (rm_mem s) (rm_thread_id p))
        (cells (rm_mem s) (rm_depth p)) (rm_held s u p)"
      and "\<And>t. t \<noteq> u \<Longrightarrow> rm_outside (pc_on s t p) (rm_held s t p)"
  using assms by (auto simp: rm_obj_inv_def rm_view_inv_def rm_view_def)

lemma rm_obj_invI:
  assumes "rm_view holder p (rm_mem s) (rm_mutex s p) = (i, d, h)"
    and "(h = Some u \<and> u \<noteq> 0 \<and> rm_inside u (pc_on s u p) i d (rm_held s u p)) \<or>
      (h = None \<and> i = NULL \<and> d = 0 \<and> rm_outside (pc_on s u p) (rm_held s u p))"
    and "\<And>t. t \<noteq> u \<Longrightarrow> rm_outside (pc_on s t p) (rm_held s t p)"
  shows "rm_obj_inv holder s p"
proof (cases "h = None")
  case True
  then have "rm_outside (pc_on s t p) (rm_held s t p)" for t
    using assms(2,3) by (cases "t = u") auto
  with True assms(1,2) show ?thesis by (simp add: rm_obj_inv_def rm_view_inv_def)
next
  case False
  with assms show ?thesis by (simp add: rm_obj_inv_def rm_view_inv_def)
qed

lemma rm_obj_holder:
  assumes "rm_obj_inv holder s p" and "pc_on s t p = Some pc"
  shows "(pc = M_mutex \<longrightarrow> holder (rm_mutex s p) \<noteq> Some t) \<and>
    (pc = M_release \<longrightarrow> holder (rm_mutex s p) = Some t) \<and> pc \<noteq> M_abort"
  using assms(1)
proof (cases rule: rm_obj_inv_cases)
  case free
  then show ?thesis using free(4) [of t] assms(2) by (auto simp: rm_outside_def)
next
  case (held u)
  then show ?thesis using held(4) [of t] assms(2)
    by (cases "t = u") (auto simp: rm_outside_def rm_inside_def)
qed

lemma rm_obj_inv_cong:
  assumes "rm_obj_inv holder s p"
    and "rm_view holder p (rm_mem s') (rm_mutex s' p) = rm_view holder p (rm_mem s) (rm_mutex s p)"
    and "\<And>t. pc_on s' t p = pc_on s t p" and "\<And>t. rm_held s' t p = rm_held s t p"
  shows "rm_obj_inv holder s' p"
  using assms by (simp add: rm_obj_inv_def)

lemma rm_start_inv: "rm_start holder s \<Longrightarrow> rm_inv holder s"
  by (simp add: rm_start_def rm_inv_def rm_obj_inv_def rm_view_inv_def rm_view_def pc_on_def
    rm_outside_def rm_max_depth_def)

text \<open>The calls and the returns don't change the holding of the mutex: a thread at an entry
  or at the return of a function is in the same situation as an idle one.\<close>

definition rm_idle :: "rm_pc option \<Rightarrow> bool" where
  "rm_idle pc \<longleftrightarrow> pc \<in> {None, Some M_read_owner, Some M_ret}"

lemma rm_idle_inside:
  "rm_idle pc \<Longrightarrow> rm_idle pc' \<Longrightarrow> rm_inside u pc i d h = rm_inside u pc' i d h"
  by (auto simp: rm_idle_def rm_inside_def)

lemma rm_idle_outside: "rm_idle pc \<Longrightarrow> rm_idle pc' \<Longrightarrow> rm_outside pc h = rm_outside pc' h"
  by (auto simp: rm_idle_def rm_outside_def)

lemma rm_idle_inv:
  assumes inv: "rm_obj_inv holder s p" and "rm_idle (pc_on s t p)"
    and new: "rm_idle (case act of None \<Rightarrow> None | Some a \<Rightarrow> if ra_obj a = p then Some (ra_pc a) else None)"
  shows "rm_obj_inv holder (s\<lparr>rm_acts := (rm_acts s)(t := act)\<rparr>) p"
proof -
  let ?s = "s\<lparr>rm_acts := (rm_acts s)(t := act)\<rparr>"
  have pc: "pc_on ?s u p = pc_on s u p \<or> (u = t \<and> rm_idle (pc_on ?s u p) \<and> rm_idle (pc_on s u p))" for u
    using assms(2,3) by (cases "u = t") (auto simp: pc_on_def)
  have "rm_inside u (pc_on ?s u p) i d h = rm_inside u (pc_on s u p) i d h" for u i d h
    using pc [of u] rm_idle_inside by metis
  moreover have "rm_outside (pc_on ?s u p) h = rm_outside (pc_on s u p) h" for u h
    using pc [of u] rm_idle_outside by metis
  ultimately show ?thesis using inv by (simp add: rm_obj_inv_def rm_view_inv_def)
qed

lemma rm_unlock_entry_inv:
  assumes inv: "rm_obj_inv holder s p" and "rm_acts s t = None" and "0 < rm_held s t p"
  shows "rm_obj_inv holder (s\<lparr>rm_acts := (rm_acts s)(t := Some (rm_entry Rm_unlock p))\<rparr>) p"
proof -
  have pc: "pc_on s t p = None" using assms(2) by (simp add: pc_on_def)
  from inv show ?thesis
  proof (cases rule: rm_obj_inv_cases)
    case free
    then show ?thesis using assms(3) free(4) [of t] by (simp add: rm_outside_def)
  next
    case (held u)
    have "u = t" using held(4) [of t] assms(3) by (auto simp: rm_outside_def)
    with held pc show ?thesis
      by (auto simp: rm_obj_inv_def rm_view_inv_def rm_view_def pc_on_def rm_entry_def rm_inside_def)
  qed
qed

lemma rm_call_inv:
  assumes inv: "rm_inv holder s" and ex: "rm_exec B M nd (Rm_call t f p) s = Some s'"
  shows "rm_inv holder s'"
proof -
  have may: "rm_may_call s t f p" and s': "s' = s\<lparr>rm_acts := (rm_acts s)(t := Some (rm_entry f p))\<rparr>"
    using ex by (auto split: if_splits)
  have oi: "rm_obj_inv holder s q" for q using inv by (simp add: rm_inv_def)
  have idle: "rm_acts s t = None" "pc_on s t q = None" for q
    using may by (simp_all add: rm_may_call_def pc_on_def)
  have "rm_obj_inv holder s' q" for q
  proof (cases "q = p \<and> f = Rm_unlock")
    case True
    with rm_unlock_entry_inv [OF oi idle(1), of p] may s' show ?thesis
      by (simp add: rm_may_call_def)
  next
    case False
    then show ?thesis unfolding s'
      by (intro rm_idle_inv [OF oi]) (auto simp: idle rm_idle_def rm_entry_def)
  qed
  moreover have "rm_act_ok (rm_held s t p) (rm_entry f p)"
    using may inv by (cases f) (auto simp: rm_act_ok_def rm_entry_def rm_may_call_def rm_inv_def)
  ultimately show ?thesis
    using inv may by (auto simp: rm_inv_def s' rm_may_call_def rm_entry_def)
qed

lemma rm_return_inv:
  assumes inv: "rm_inv holder s" and "rm_acts s t = Some a" and "ra_pc a = M_ret"
  shows "rm_inv holder (s\<lparr>rm_acts := (rm_acts s)(t := None)\<rparr>)"
proof -
  have "rm_obj_inv holder (s\<lparr>rm_acts := (rm_acts s)(t := None)\<rparr>) p" for p
    by (rule rm_idle_inv) (use assms in \<open>auto simp: rm_inv_def pc_on_def rm_idle_def\<close>)
  then show ?thesis using inv by (auto simp: rm_inv_def)
qed

text \<open>The signed test of \<open>unlock\<close> on a depth within the bound.\<close>

lemma sint_of_nat_small:
  assumes "int n \<le> rm_max_depth"
  shows "sint (of_nat n :: 64 word) = int n"
proof -
  have "int n < 2 ^ 63" using assms by (simp add: rm_max_depth_def)
  then have "signed_take_bit 63 (int n) = int n"
    by (intro signed_take_bit_int_eq_self) auto
  then show ?thesis by (simp add: signed_of_nat)
qed

definition rm_after ::
  "tid \<Rightarrow> rm_act \<Rightarrow> rm_act \<Rightarrow> mem \<Rightarrow> 'm \<Rightarrow> 'm rm_sys \<Rightarrow> 'm rm_sys"
where
  "rm_after t a a' m' mutex' s = s\<lparr>
     rm_mem := m', rm_mutex := (rm_mutex s)(ra_obj a := mutex'),
     rm_acts := (rm_acts s)(t := Some a'), rm_held := rm_count t a s\<rparr>"

lemma rm_exec_StepE:
  assumes "rm_exec B M nd (Rm_step t) s = Some s'"
  obtains a where "rm_acts s t = Some a" and "ra_pc a = M_ret"
      and "s' = s\<lparr>rm_acts := (rm_acts s)(t := None)\<rparr>"
    | a a' m' mutex' where "rm_acts s t = Some a" and "ra_pc a \<noteq> M_ret"
      and "rm_fn_step B M nd t a (rm_mem s, rm_mutex s (ra_obj a)) = Some (a', m', mutex')"
      and "s' = rm_after t a a' m' mutex' s"
  using assms by (auto simp: rm_after_def split: option.splits if_splits)

lemma rm_count_other: "p \<noteq> ra_obj a \<or> u \<noteq> t \<Longrightarrow> rm_count t a s u p = rm_held s u p"
  by (auto simp: rm_count_def Let_def split: rm_pc.splits)

lemma rm_count_self:
  "rm_count t a s t (ra_obj a) =
     (if ra_pc a = M_inc then rm_held s t (ra_obj a) + 1
      else if ra_pc a = M_dec then rm_held s t (ra_obj a) - 1 else rm_held s t (ra_obj a))"
  by (auto simp: rm_count_def Let_def split: rm_pc.splits)

text \<open>The heart of the invariant, on the view of one mutex: the stepping thread either holds
  the plain mutex, or takes it, or stays outside.\<close>

lemma rm_trans_inside:
  assumes "rm_trans nd t f pc (i, d, Some t) pc' (i', d', h')"
    and "rm_inside t (Some pc) i d n" and "t \<noteq> 0"
    and "int n \<le> rm_max_depth" and "pc = M_dec \<Longrightarrow> 0 < n"
    and "n' = (if pc = M_inc then n + 1 else if pc = M_dec then n - 1 else n)"
  shows "(h' = Some t \<and> rm_inside t (Some pc') i' d' n') \<or>
    (h' = None \<and> i' = NULL \<and> d' = 0 \<and> rm_outside (Some pc') n')"
  using assms sint_of_nat_small [OF assms(4)]
  by (cases pc) (auto simp: rm_trans_simps rm_inside_def rm_outside_def of_nat_diff)

lemma rm_trans_enter:
  assumes "rm_trans nd t f pc (NULL, 0, None) pc' (i', d', h')" and "rm_outside (Some pc) n"
    and "t \<noteq> 0"
  shows "(h' = Some t \<and> rm_inside t (Some pc') i' d' n) \<or>
    (h' = None \<and> i' = NULL \<and> d' = 0 \<and> rm_outside (Some pc') n)"
  using assms by (cases pc) (auto simp: rm_trans_simps rm_inside_def rm_outside_def)

lemma rm_trans_outside:
  assumes "rm_trans nd t f pc (i, d, Some u) pc' (i', d', h')" and "rm_outside (Some pc) n"
    and "t \<noteq> u" and "i = NULL \<or> i = u" and "t \<noteq> 0"
  shows "i' = i \<and> d' = d \<and> h' = Some u \<and> rm_outside (Some pc') n"
  using assms by (cases pc) (auto simp: rm_trans_simps rm_inside_def rm_outside_def)

lemma rm_inside_id: "rm_inside u pc i d n \<Longrightarrow> i = NULL \<or> i = u"
  by (auto simp: rm_inside_def split: option.splits rm_pc.splits)

lemma rm_outside_count: "rm_outside (Some pc) n \<Longrightarrow> pc \<noteq> M_inc \<and> pc \<noteq> M_dec"
  by (auto simp: rm_outside_def)

lemma rm_after_obj_inv:
  assumes inv: "rm_obj_inv holder s p" and a: "rm_acts s t = Some a" "ra_obj a = p" "ra_obj a' = p"
    and t: "t \<noteq> 0" and ok: "rm_act_ok (rm_held s t p) a"
    and tr: "rm_trans nd t (ra_fn a) (ra_pc a) (rm_view holder p (rm_mem s) (rm_mutex s p))
      (ra_pc a') (rm_view holder p m' mutex')"
  shows "rm_obj_inv holder (rm_after t a a' m' mutex' s) p" (is "rm_obj_inv holder ?s p")
proof -
  have pc: "pc_on s t p = Some (ra_pc a)" "pc_on ?s t p = Some (ra_pc a')"
    "u \<noteq> t \<Longrightarrow> pc_on ?s u p = pc_on s u p" for u
    using a by (auto simp: pc_on_def rm_after_def)
  have held_other: "u \<noteq> t \<Longrightarrow> rm_held ?s u p = rm_held s u p" for u
    by (simp add: rm_after_def rm_count_other)
  have held_t: "rm_held ?s t p = (if ra_pc a = M_inc then rm_held s t p + 1
      else if ra_pc a = M_dec then rm_held s t p - 1 else rm_held s t p)"
    using a(2) by (simp add: rm_after_def rm_count_self [of t a s, unfolded a(2)])
  obtain i' d' h' where v: "rm_view holder p m' mutex' = (i', d', h')" by (cases "rm_view holder p m' mutex'")
  have vs: "rm_view holder p (rm_mem ?s) (rm_mutex ?s p) = (i', d', h')"
    using v a(2) by (simp add: rm_after_def)
  from inv show ?thesis
  proof (cases rule: rm_obj_inv_cases)
    case free
    have "rm_trans nd t (ra_fn a) (ra_pc a) (NULL, 0, None) (ra_pc a') (i', d', h')"
      using tr v free by (simp add: rm_view_def)
    from rm_trans_enter [OF this _ t] free(4) [of t] pc held_t
    have "(h' = Some t \<and> t \<noteq> 0 \<and> rm_inside t (pc_on ?s t p) i' d' (rm_held ?s t p)) \<or>
      (h' = None \<and> i' = NULL \<and> d' = 0 \<and> rm_outside (pc_on ?s t p) (rm_held ?s t p))"
      using t by (auto dest: rm_outside_count)
    then show ?thesis
      by (rule rm_obj_invI [OF vs]) (use free(4) pc(3) held_other in simp)
  next
    case (held u)
    show ?thesis
    proof (cases "u = t")
      case True
      have "rm_trans nd t (ra_fn a) (ra_pc a)
          (cells (rm_mem s) (rm_thread_id p), cells (rm_mem s) (rm_depth p), Some t) (ra_pc a') (i', d', h')"
        using tr v held True by (simp add: rm_view_def)
      moreover have "rm_inside t (Some (ra_pc a)) (cells (rm_mem s) (rm_thread_id p))
          (cells (rm_mem s) (rm_depth p)) (rm_held s t p)"
        using held(3) True pc by simp
      moreover have "int (rm_held s t p) \<le> rm_max_depth" "ra_pc a = M_dec \<Longrightarrow> 0 < rm_held s t p"
        using ok by (auto simp: rm_act_ok_def split: rm_fn.splits)
      ultimately have "(h' = Some t \<and> t \<noteq> 0 \<and> rm_inside t (pc_on ?s t p) i' d' (rm_held ?s t p)) \<or>
        (h' = None \<and> i' = NULL \<and> d' = 0 \<and> rm_outside (pc_on ?s t p) (rm_held ?s t p))"
        using rm_trans_inside [OF _ _ t] held_t t pc(2) by simp
      then show ?thesis
        by (rule rm_obj_invI [OF vs]) (use held(4) pc(3) held_other True in simp)
    next
      case False
      have tr': "rm_trans nd t (ra_fn a) (ra_pc a)
          (cells (rm_mem s) (rm_thread_id p), cells (rm_mem s) (rm_depth p), Some u) (ra_pc a') (i', d', h')"
        using tr v held by (simp add: rm_view_def)
      have out: "rm_outside (Some (ra_pc a)) (rm_held s t p)"
        using held(4) [of t] False pc by simp
      from rm_trans_outside [OF tr' out _ rm_inside_id [OF held(3)] t] False
      have "i' = cells (rm_mem s) (rm_thread_id p)" "d' = cells (rm_mem s) (rm_depth p)" "h' = Some u"
        "rm_outside (Some (ra_pc a')) (rm_held s t p)" by auto
      moreover have "rm_held ?s t p = rm_held s t p" using held_t rm_outside_count [OF out] by simp
      ultimately have "h' = Some u \<and> u \<noteq> 0 \<and> rm_inside u (pc_on ?s u p) i' d' (rm_held ?s u p)"
        "w \<noteq> u \<Longrightarrow> rm_outside (pc_on ?s w p) (rm_held ?s w p)" for w
        using held pc held_other False by (simp_all, cases "w = t", simp_all)
      then show ?thesis
        by (intro rm_obj_invI [OF vs, of u]) simp_all
    qed
  qed
qed

lemma rm_trans_act_ok:
  assumes "rm_trans nd t (ra_fn a) (ra_pc a) x (ra_pc a') x'" and "ra_fn a' = ra_fn a"
    and "rm_act_ok n a" and "ra_pc a' \<noteq> M_abort"
    and "n' = (if ra_pc a = M_inc then n + 1 else if ra_pc a = M_dec then n - 1 else n)"
  shows "rm_act_ok n' a'"
  using assms
  by (cases "ra_pc a"; cases "ra_fn a") (auto simp: rm_trans_simps rm_act_ok_def)

context recursive_mutex
begin

lemma rm_step_inv:
  assumes inv: "rm_inv holder s" and a: "rm_acts s t = Some a" and pc: "ra_pc a \<noteq> M_ret"
    and step: "rm_fn_step B M nd t a (rm_mem s, rm_mutex s (ra_obj a)) = Some (a', m', mutex')"
  shows "rm_inv holder (rm_after t a a' m' mutex' s)" (is "rm_inv holder ?s")
proof -
  define p where "p = ra_obj a"
  have oi: "rm_obj_inv holder s q" for q using inv by (simp add: rm_inv_def)
  have t: "t \<noteq> 0" and ok: "rm_act_ok (rm_held s t p) a"
    using inv a by (auto simp: rm_inv_def p_def)
  have pcs: "pc_on s t p = Some (ra_pc a)" using a by (simp add: pc_on_def p_def)
  have enter: "ra_pc a = M_mutex \<Longrightarrow> holder (rm_mutex s (ra_obj a)) \<noteq> Some t"
    and release: "ra_pc a = M_release \<Longrightarrow> holder (rm_mutex s (ra_obj a)) = Some t"
    using rm_obj_holder [OF oi pcs] by (simp_all add: p_def)
  note ref = rm_fn_step_refines [OF step enter release]
  have fo: "ra_fn a' = ra_fn a" "ra_obj a' = p" using ref by (simp_all add: p_def)
  have tr: "rm_trans nd t (ra_fn a) (ra_pc a) (rm_view holder p (rm_mem s) (rm_mutex s p))
      (ra_pc a') (rm_view holder p m' mutex')"
    using ref by (simp add: p_def)
  have objs: "rm_obj_inv holder ?s q" for q
  proof (cases "q = p")
    case True
    with rm_after_obj_inv [OF oi a _ fo(2) t ok tr] show ?thesis by (simp add: p_def)
  next
    case False
    have "rm_view holder q (rm_mem ?s) (rm_mutex ?s q) = rm_view holder q (rm_mem s) (rm_mutex s q)"
      using ref [THEN conjunct2, THEN conjunct2, THEN conjunct2, rule_format, of "rm_thread_id q"]
        ref [THEN conjunct2, THEN conjunct2, THEN conjunct2, rule_format, of "rm_depth q"] False
      by (simp add: rm_view_def rm_after_def p_def)
    moreover have "pc_on ?s u q = pc_on s u q" for u
      using False fo a by (auto simp: pc_on_def rm_after_def p_def)
    moreover have "rm_held ?s u q = rm_held s u q" for u
      using False by (simp add: rm_after_def rm_count_other p_def)
    ultimately show ?thesis by (rule rm_obj_inv_cong [OF oi])
  qed
  have "ra_pc a' \<noteq> M_abort"
  proof -
    have "pc_on ?s t p = Some (ra_pc a')" using fo by (simp add: pc_on_def rm_after_def)
    with rm_obj_holder [OF objs] show ?thesis by blast
  qed
  then have ok': "rm_act_ok (rm_held ?s t p) a'"
    by (rule rm_trans_act_ok [OF tr fo(1) ok]) (simp add: rm_after_def rm_count_self p_def)
  have "int (rm_held ?s u q) \<le> rm_max_depth" for u q
  proof (cases "u = t \<and> q = p")
    case True
    then show ?thesis using ok' by (auto simp: rm_act_ok_def)
  next
    case False
    then have "rm_held ?s u q = rm_held s u q"
      by (auto simp: rm_after_def rm_count_other p_def)
    then show ?thesis using inv by (simp add: rm_inv_def)
  qed
  moreover have "u \<noteq> 0 \<and> rm_act_ok (rm_held ?s u (ra_obj b)) b" if b: "rm_acts ?s u = Some b" for u b
  proof (cases "u = t")
    case True
    with b t ok' fo show ?thesis by (simp add: rm_after_def)
  next
    case False
    then have "rm_held ?s u (ra_obj b) = rm_held s u (ra_obj b)" "rm_acts s u = Some b"
      using b by (auto simp: rm_after_def rm_count_other)
    then show ?thesis using inv by (simp add: rm_inv_def)
  qed
  ultimately show ?thesis using objs by (simp add: rm_inv_def)
qed

lemma rm_exec_inv: "rm_inv holder s \<Longrightarrow> rm_exec B M nd mv s = Some s' \<Longrightarrow> rm_inv holder s'"
  by (cases mv) (auto intro: rm_call_inv rm_return_inv rm_step_inv elim!: rm_exec_StepE
    simp del: rm_exec.simps)

lemma rm_run_inv:
  "rm_inv holder s \<Longrightarrow> rm_run B M nd mvs s = Some s' \<Longrightarrow> rm_inv holder s'"
  by (induction mvs arbitrary: s) (auto split: option.splits intro: rm_exec_inv simp del: rm_exec.simps)

theorem rm_reach_inv: "rm_reach B M holder nd s \<Longrightarrow> rm_inv holder s"
  by (induction rule: rm_reach.induct) (auto intro: rm_start_inv rm_exec_inv simp del: rm_exec.simps)

end

lemma rm_held_holder:
  assumes "rm_obj_inv holder s p" and "holder (rm_mutex s p) \<noteq> Some t"
  shows "rm_held s t p = 0"
  using assms(1)
proof (cases rule: rm_obj_inv_cases)
  case free
  then show ?thesis using free(4) [of t] by (simp add: rm_outside_def)
next
  case (held u)
  then show ?thesis using held(4) [of t] assms(2) by (auto simp: rm_outside_def)
qed

lemma rm_idle_holder:
  assumes inv: "rm_inv holder s" and "rm_acts s t = None" and "0 < rm_held s t p"
  shows "holder (rm_mutex s p) = Some t" and "t \<noteq> 0"
    and "cells (rm_mem s) (rm_thread_id p) = t"
    and "cells (rm_mem s) (rm_depth p) = of_nat (rm_held s t p)"
proof -
  have oi: "rm_obj_inv holder s p" using inv by (simp add: rm_inv_def)
  have pc: "pc_on s t p = None" using assms(2) by (simp add: pc_on_def)
  have h: "holder (rm_mutex s p) = Some t" using rm_held_holder [OF oi] assms(3) by fastforce
  then have "t \<noteq> 0 \<and> rm_inside t None (cells (rm_mem s) (rm_thread_id p))
      (cells (rm_mem s) (rm_depth p)) (rm_held s t p)"
    using h pc by (cases rule: rm_obj_inv_cases [OF oi]) auto
  then show "holder (rm_mutex s p) = Some t" "t \<noteq> 0" "cells (rm_mem s) (rm_thread_id p) = t"
    "cells (rm_mem s) (rm_depth p) = of_nat (rm_held s t p)"
    using h by (auto simp: rm_inside_def)
qed

subsection \<open>The library's own instances\<close>

sublocale pthread_mutex_laws \<subseteq> rm: recursive_mutex c11_backend "pthreads_mutex P" holder
  by unfold_locales

sublocale mtx_laws \<subseteq> rm: recursive_mutex c11_backend "c11_mutex T" holder
  by unfold_locales

context pthread_mutex_laws
begin

lemmas rm_invariant = rm.rm_reach_inv
lemmas rm_refines = rm.rm_fn_step_refines
lemmas rm_lock_result = pthreads.lock_result
lemmas rm_lock_free = pthreads.lock_free
lemmas rm_unlock_held = pthreads.unlock_held

end

interpretation reference_rm: recursive_mutex c11_backend "pthreads_mutex reference_pthread" "\<lambda>m. m"
  by unfold_locales

lemma rm_run_append:
  "rm_run B M nd (xs @ ys) s =
     (case rm_run B M nd xs s of None \<Rightarrow> None | Some s1 \<Rightarrow> rm_run B M nd ys s1)"
  by (induction xs arbitrary: s) (auto split: option.splits)

text \<open>Example: thread 1 locks twice while thread 2 tries and then waits.\<close>

definition rm_init_sys :: "tid option rm_sys" where
  "rm_init_sys = \<lparr>rm_mem = \<lparr>cells = (\<lambda>_. 0), log = []\<rparr>, rm_mutex = (\<lambda>p. None),
     rm_acts = (\<lambda>t. None), rm_held = (\<lambda>t p. 0)\<rparr>"

lemma rm_init_reach: "rm_reach B M (\<lambda>m. m) nd rm_init_sys"
  by (rule rm_reach_start) (simp add: rm_start_def rm_init_sys_def)

definition rm_example :: "rm_move list" where
  "rm_example =
     [Rm_call 1 Rm_lock 0, Rm_step 1, Rm_step 1, Rm_step 1, Rm_step 1, Rm_step 1, Rm_step 1,
      Rm_call 2 Rm_lock 0, Rm_step 2, Rm_call 1 Rm_trylock 0, Rm_step 1, Rm_step 1, Rm_step 1]"

abbreviation example_rm_run :: "rm_move list \<Rightarrow> tid option rm_sys \<Rightarrow> tid option rm_sys option" where
  "example_rm_run \<equiv> rm_run c11_backend (pthreads_mutex reference_pthread) False"

definition rm_example_view ::
  "tid option rm_sys \<Rightarrow> nat \<times> rm_act option \<times> rm_act option \<times> tid option \<times> bool"
where
  "rm_example_view s = (rm_held s 1 0, rm_acts s 1, rm_acts s 2, rm_mutex s 0,
     rm_exec c11_backend (pthreads_mutex reference_pthread) False (Rm_step 2) s = None)"

lemma rm_example_value:
  "map_option rm_example_view (example_rm_run rm_example rm_init_sys) =
     Some (2, None, Some \<lparr>ra_fn = Rm_lock, ra_obj = 0, ra_pc = M_mutex, ra_result = 0\<rparr>, Some 1, True)"
  by code_simp

lemma rm_example_reach:
  obtains s a where "rm_reach c11_backend (pthreads_mutex reference_pthread) (\<lambda>m. m) False s"
    "example_rm_run rm_example rm_init_sys = Some s" "rm_held s 1 0 = 2" "rm_acts s 1 = None"
    "rm_acts s 2 = Some a" "ra_pc a = M_mutex" "ra_obj a = 0" "ra_fn a = Rm_lock"
    "rm_mutex s 0 = Some 1"
    "rm_exec c11_backend (pthreads_mutex reference_pthread) False (Rm_step 2) s = None"
proof -
  obtain s where s: "example_rm_run rm_example rm_init_sys = Some s"
    "rm_example_view s = (2, None, Some \<lparr>ra_fn = Rm_lock, ra_obj = 0, ra_pc = M_mutex, ra_result = 0\<rparr>, Some 1, True)"
    using rm_example_value by blast
  then show ?thesis
    using that [OF rm_run_reach [OF rm_init_reach s(1)] s(1)]
    unfolding rm_example_view_def prod.inject by (simp del: rm_exec.simps)
qed

subsection \<open>Properties\<close>

text \<open>C3: mutual exclusion, and the fields tell the truth. Over the C11 atomics and any pthreads
  library that keeps its documentation, a recursive mutex is held by at most one thread at a
  time, however the threads interleave and however deep they lock. While a thread holds it,
  also inside a further call, that thread holds the plain mutex, the owner field is its id
  and the depth field the number of its locks; when no thread holds it and none is inside a
  function on it, the owner is NULL, the depth 0 and the plain mutex free.\<close>

theorem recursive_mutex_excludes:
  assumes "pthread_mutex_laws P holder"
    and "rm_reach c11_backend (pthreads_mutex P) holder nd s"
  shows "(\<forall>t. 0 < rm_held s t p \<longrightarrow>
      (\<forall>u. u \<noteq> t \<longrightarrow> rm_held s u p = 0) \<and> holder (rm_mutex s p) = Some t \<and>
      cells (rm_mem s) (rm_thread_id p) = t \<and>
      unat (cells (rm_mem s) (rm_depth p)) = rm_held s t p) \<and>
    ((\<forall>t. rm_held s t p = 0 \<and> pc_on s t p = None) \<longrightarrow>
      holder (rm_mutex s p) = None \<and> cells (rm_mem s) (rm_thread_id p) = NULL \<and>
      cells (rm_mem s) (rm_depth p) = 0)"
proof -
  have all: "rm_inv holder s" by (rule pthread_mutex_laws.rm_invariant [OF assms])
  then have inv: "rm_obj_inv holder s p" and max: "int (rm_held s t p) \<le> rm_max_depth" for t
    by (simp_all add: rm_inv_def)
  have small: "unat (of_nat (rm_held s t p) :: 64 word) = rm_held s t p" for t
  proof -
    have "rm_held s t p < 2 ^ 64" using max [of t] by (simp add: rm_max_depth_def)
    then show ?thesis by (simp add: unat_of_nat take_bit_nat_eq_self)
  qed
  from inv show ?thesis
  proof (cases rule: rm_obj_inv_cases)
    case free
    then show ?thesis by (auto simp: rm_outside_def)
  next
    case (held u)
    have only: "t = u" if "0 < rm_held s t p" for t
      using held(4) [of t] that by (cases "t = u") (auto simp: rm_outside_def)
    have "cells (rm_mem s) (rm_thread_id p) = u \<and> unat (cells (rm_mem s) (rm_depth p)) = rm_held s u p"
      if "0 < rm_held s u p"
      using held(3) that small by (auto simp: rm_inside_def split: option.splits rm_pc.splits)
    moreover have "rm_held s v p = 0" if "v \<noteq> u" for v using only [of v] that by blast
    moreover have "rm_held s u p \<noteq> 0 \<or> pc_on s u p \<noteq> None"
      using held(3) by (auto simp: rm_inside_def)
    ultimately have u: "0 < rm_held s u p \<longrightarrow> (\<forall>v. v \<noteq> u \<longrightarrow> rm_held s v p = 0) \<and>
        holder (rm_mutex s p) = Some u \<and> cells (rm_mem s) (rm_thread_id p) = u \<and>
        unat (cells (rm_mem s) (rm_depth p)) = rm_held s u p"
      and busy: "rm_held s u p \<noteq> 0 \<or> pc_on s u p \<noteq> None"
      using held(1) by auto
    show ?thesis
    proof (intro conjI allI impI)
      fix t v assume "0 < rm_held s t p"
      note t = only [OF this]
      with u \<open>0 < rm_held s t p\<close> show "holder (rm_mutex s p) = Some t"
        and "cells (rm_mem s) (rm_thread_id p) = t"
        and "unat (cells (rm_mem s) (rm_depth p)) = rm_held s t p"
        and "v \<noteq> t \<Longrightarrow> rm_held s v p = 0" by simp_all
    qed (use busy in auto)
  qed
qed

theorem recursive_mutex_excludes_witness:
  "\<exists>s. example_rm_run rm_example rm_init_sys = Some s \<and> rm_mutex s 0 = Some 1 \<and> rm_held s 2 0 = 0 \<and>
     cells (rm_mem s) (rm_thread_id 0) = 1 \<and> unat (cells (rm_mem s) (rm_depth 0)) = 2"
proof -
  obtain s where s: "rm_reach c11_backend (pthreads_mutex reference_pthread) (\<lambda>m. m) False s"
    "example_rm_run rm_example rm_init_sys = Some s" "rm_held s 1 0 = 2"
    by (rule rm_example_reach)
  then have "0 < rm_held s 1 0" "(2 :: tid) \<noteq> 1" by simp_all
  with recursive_mutex_excludes [OF reference_posix.pthread_mutex_laws_axioms s(1), of 0] s(2,3)
  show ?thesis by metis
qed

text \<open>A thread blocks in a recursive mutex only in \<open>lock\<close>, in front of the plain mutex,
  and only while another thread holds it: a thread that holds the mutex never deadlocks by
  locking it again, and no function stops anywhere else, at an assertion neither.\<close>

theorem recursive_mutex_blocks_on_others:
  assumes "pthread_mutex_laws P holder"
    and "rm_reach c11_backend (pthreads_mutex P) holder nd s" and "rm_acts s t = Some a"
    and "rm_exec c11_backend (pthreads_mutex P) nd (Rm_step t) s = None"
  shows "ra_fn a = Rm_lock \<and> ra_pc a = M_mutex \<and> rm_held s t (ra_obj a) = 0 \<and>
    (\<exists>u. u \<noteq> t \<and> holder (rm_mutex s (ra_obj a)) = Some u)"
proof -
  have inv: "rm_inv holder s" by (rule pthread_mutex_laws.rm_invariant [OF assms(1,2)])
  then have oi: "rm_obj_inv holder s (ra_obj a)" and ok: "rm_act_ok (rm_held s t (ra_obj a)) a"
    using assms(3) by (auto simp: rm_inv_def)
  have pc: "pc_on s t (ra_obj a) = Some (ra_pc a)" using assms(3) by (simp add: pc_on_def)
  have nret: "ra_pc a \<noteq> M_ret" using assms(3,4) by auto
  then have none: "rm_fn_step c11_backend (pthreads_mutex P) nd t a (rm_mem s, rm_mutex s (ra_obj a)) = None"
    using assms(3,4) by (auto split: option.splits)
  have at: "ra_fn a = Rm_lock \<and> ra_pc a = M_mutex \<and>
      mo_lock (pthreads_mutex P) t (rm_mutex s (ra_obj a)) = None"
    using none ok nret
    by (cases "ra_fn a"; cases "ra_pc a")
      (auto simp: rm_fn_defs rm_act_ok_def case_prod_beta split: option.splits if_splits)
  have "holder (rm_mutex s (ra_obj a)) \<noteq> None"
    using at pthread_mutex_laws.rm_lock_free [OF assms(1), of "rm_mutex s (ra_obj a)" t] by auto
  moreover have "holder (rm_mutex s (ra_obj a)) \<noteq> Some t"
    using rm_obj_holder [OF oi pc] at by simp
  moreover have "rm_held s t (ra_obj a) = 0"
    using rm_held_holder [OF oi calculation(2)] .
  ultimately show ?thesis using at by auto
qed

theorem recursive_mutex_blocks_on_others_witness:
  "\<exists>s a u. example_rm_run rm_example rm_init_sys = Some s \<and> rm_acts s 2 = Some a \<and>
     u \<noteq> 2 \<and> rm_mutex s (ra_obj a) = Some u"
proof -
  obtain s a where s: "rm_reach c11_backend (pthreads_mutex reference_pthread) (\<lambda>m. m) False s"
    "example_rm_run rm_example rm_init_sys = Some s" "rm_acts s 2 = Some a"
    "rm_exec c11_backend (pthreads_mutex reference_pthread) False (Rm_step 2) s = None"
    by (rule rm_example_reach)
  from recursive_mutex_blocks_on_others [OF reference_posix.pthread_mutex_laws_axioms s(1,3,4)] s(2,3)
  show ?thesis by blast
qed

text \<open>The plain mutex changes hands only at the ends of a holding: a step gives it to a
  thread only if that thread makes it, in \<open>lock\<close> or \<open>trylock\<close>, while it is free; and a step
  takes it from its holder only if the holder makes it, in the \<open>unlock\<close> that undid its last
  lock.\<close>

theorem recursive_mutex_transfer:
  assumes "pthread_mutex_laws P holder"
    and "rm_reach c11_backend (pthreads_mutex P) holder nd s"
    and "rm_exec c11_backend (pthreads_mutex P) nd mv s = Some s'"
    and "holder (rm_mutex s' p) \<noteq> holder (rm_mutex s p)"
  shows "\<exists>t a. mv = Rm_step t \<and> rm_acts s t = Some a \<and> ra_obj a = p \<and> rm_held s t p = 0 \<and>
    ((ra_pc a = M_mutex \<and> ra_fn a \<noteq> Rm_unlock \<and> holder (rm_mutex s p) = None \<and>
        holder (rm_mutex s' p) = Some t) \<or>
     (ra_pc a = M_release \<and> ra_fn a = Rm_unlock \<and> holder (rm_mutex s p) = Some t \<and>
        holder (rm_mutex s' p) = None))"
proof (cases mv)
  case (Rm_call t f q)
  with assms(3,4) show ?thesis by (auto split: if_splits)
next
  case (Rm_step t)
  have inv: "rm_inv holder s" by (rule pthread_mutex_laws.rm_invariant [OF assms(1,2)])
  have ex: "rm_exec c11_backend (pthreads_mutex P) nd (Rm_step t) s = Some s'"
    using assms(3) Rm_step by simp
  from ex show ?thesis
  proof (cases rule: rm_exec_StepE)
    case (1 a)
    with assms(4) show ?thesis by simp
  next
    case (2 a a' m' mutex')
    have eq: "ra_obj a = p" using assms(4) 2(4) by (auto simp: rm_after_def split: if_splits)
    have oi: "rm_obj_inv holder s p" using inv by (simp add: rm_inv_def)
    have pc: "pc_on s t p = Some (ra_pc a)" using 2(1) eq by (simp add: pc_on_def)
    note h = rm_obj_holder [OF oi pc]
    have tr: "rm_trans nd t (ra_fn a) (ra_pc a) (rm_view holder p (rm_mem s) (rm_mutex s p))
        (ra_pc a') (rm_view holder p m' mutex')"
      using pthread_mutex_laws.rm_refines [OF assms(1) 2(3)] h eq by simp
    have ne: "holder mutex' \<noteq> holder (rm_mutex s p)"
      using assms(4) 2(4) eq by (simp add: rm_after_def)
    have step: "(ra_pc a = M_mutex \<and> ra_fn a \<noteq> Rm_unlock \<and> holder (rm_mutex s p) = None \<and>
          holder mutex' = Some t) \<or>
        (ra_pc a = M_release \<and> ra_fn a = Rm_unlock \<and> holder (rm_mutex s p) = Some t \<and>
          holder mutex' = None)"
      using tr ne h by (cases "ra_pc a") (auto simp: rm_trans_simps rm_view_def)
    have zero: "rm_held s t p = 0"
      using oi step pc
      by (cases rule: rm_obj_inv_cases) (auto simp: rm_inside_def rm_outside_def dest: spec)
    show ?thesis using Rm_step 2(1,4) eq step zero by (simp add: rm_after_def)
  qed
qed

theorem recursive_mutex_transfer_witness:
  "\<exists>s s' a. example_rm_run (take 2 rm_example) rm_init_sys = Some s \<and>
     rm_exec c11_backend (pthreads_mutex reference_pthread) False (Rm_step 1) s = Some s' \<and>
     rm_acts s 1 = Some a \<and> ra_pc a = M_mutex \<and> rm_mutex s' 0 = Some 1"
proof -
  have "map_option (\<lambda>s. rm_mutex s 0) (example_rm_run (take 2 rm_example) rm_init_sys) = Some None"
    "map_option (\<lambda>s. rm_mutex s 0) (example_rm_run (take 2 rm_example @ [Rm_step 1]) rm_init_sys) =
      Some (Some 1)"
    by code_simp+
  then obtain s s' where s: "example_rm_run (take 2 rm_example) rm_init_sys = Some s"
      "rm_mutex s 0 = None"
    and s': "rm_exec c11_backend (pthreads_mutex reference_pthread) False (Rm_step 1) s = Some s'"
      "rm_mutex s' 0 = Some 1"
    by (auto simp: rm_run_append simp del: rm_exec.simps split: option.splits)
  from recursive_mutex_transfer [OF reference_posix.pthread_mutex_laws_axioms
      rm_run_reach [OF rm_init_reach s(1)] s'(1), of 0] s s'
  show ?thesis by fastforce
qed

text \<open>A thread that holds a recursive mutex can take it again at once: after its call of
  \<open>lock\<close> or \<open>trylock\<close> it is through in two accesses to memory, with result 0, one more lock
  to its name and the plain mutex untouched.\<close>

theorem recursive_mutex_reentry:
  assumes "pthread_mutex_laws P holder"
    and "rm_reach c11_backend (pthreads_mutex P) holder nd s"
    and "rm_acts s t = None" and "0 < rm_held s t p" and "int (rm_held s t p) < rm_max_depth"
    and "f \<in> {Rm_lock, Rm_trylock}"
  shows "\<exists>s' a. rm_run c11_backend (pthreads_mutex P) nd [Rm_call t f p, Rm_step t, Rm_step t] s = Some s' \<and>
    rm_acts s' t = Some a \<and> ra_pc a = M_ret \<and> ra_result a = 0 \<and>
    rm_held s' t p = rm_held s t p + 1 \<and> rm_mutex s' = rm_mutex s"
proof -
  note idle = rm_idle_holder [OF pthread_mutex_laws.rm_invariant [OF assms(1,2)] assms(3,4)]
  show ?thesis
    using assms(6)
    by (auto simp: rm_may_call_def idle(2) assms(3,4,5) rm_entry_def rm_fn_defs case_prod_beta idle(3)
      rm_count_def Let_def)
qed

theorem recursive_mutex_reentry_witness:
  "\<exists>s s' a. example_rm_run rm_example rm_init_sys = Some s \<and>
     example_rm_run [Rm_call 1 Rm_trylock 0, Rm_step 1, Rm_step 1] s = Some s' \<and>
     rm_acts s' 1 = Some a \<and> ra_result a = 0 \<and> rm_held s' 1 0 = 3"
proof -
  obtain s where s: "rm_reach c11_backend (pthreads_mutex reference_pthread) (\<lambda>m. m) False s"
    "example_rm_run rm_example rm_init_sys = Some s" "rm_held s 1 0 = 2" "rm_acts s 1 = None"
    by (rule rm_example_reach)
  have "0 < rm_held s 1 0" "int (rm_held s 1 0) < rm_max_depth" "Rm_trylock \<in> {Rm_lock, Rm_trylock}"
    by (simp_all add: s rm_max_depth_def)
  from recursive_mutex_reentry [OF reference_posix.pthread_mutex_laws_axioms s(1,4) this] s(2,3)
  show ?thesis by (auto simp del: rm_run.simps)
qed

text \<open>\<open>unlock\<close> releases exactly with the last lock: a thread that holds the mutex more than
  once is through after the assertion and the decrement and still holds the plain mutex; one
  that holds it once goes on to clear the owner and release the plain mutex.\<close>

theorem recursive_mutex_unlock:
  assumes "pthread_mutex_laws P holder"
    and "rm_reach c11_backend (pthreads_mutex P) holder False s"
    and "rm_acts s t = None" and "rm_held s t p = n + 1"
  shows "\<exists>s' a. rm_run c11_backend (pthreads_mutex P) False
      (Rm_call t Rm_unlock p # replicate (if n = 0 then 4 else 2) (Rm_step t)) s = Some s' \<and>
    rm_acts s' t = Some a \<and> ra_pc a = M_ret \<and> rm_held s' t p = n \<and>
    holder (rm_mutex s' p) = (if n = 0 then None else Some t) \<and>
    cells (rm_mem s') (rm_thread_id p) = (if n = 0 then NULL else t) \<and>
    cells (rm_mem s') (rm_depth p) = of_nat n"
proof -
  have inv: "rm_inv holder s" by (rule pthread_mutex_laws.rm_invariant [OF assms(1,2)])
  have pos: "0 < rm_held s t p" using assms(4) by simp
  note idle = rm_idle_holder [OF inv assms(3) pos]
  have "int (n + 1) \<le> rm_max_depth" using inv assms(4) by (metis rm_inv_def)
  note small = sint_of_nat_small [OF this]
  note simps = rm_may_call_def assms(3) rm_entry_def rm_fn_defs case_prod_beta rm_count_def Let_def
    idle(2,3) idle(4) [unfolded assms(4)] small assms(4)
  show ?thesis
  proof (cases "n = 0")
    case True
    then show ?thesis
      using pthread_mutex_laws.rm_unlock_held [OF assms(1) idle(1)]
      by (simp add: simps eval_nat_numeral)
  next
    case False
    then have "1 < sint (1 + word_of_nat n :: 64 word)" using small by simp
    then show ?thesis using False idle(1) by (simp add: simps eval_nat_numeral)
  qed
qed

theorem recursive_mutex_unlock_witness:
  "\<exists>s s' a. example_rm_run rm_example rm_init_sys = Some s \<and>
     example_rm_run (Rm_call 1 Rm_unlock 0 # replicate 2 (Rm_step 1)) s = Some s' \<and>
     rm_held s' 1 0 = 1 \<and> rm_mutex s' 0 = Some 1"
proof -
  obtain s where s: "rm_reach c11_backend (pthreads_mutex reference_pthread) (\<lambda>m. m) False s"
    "example_rm_run rm_example rm_init_sys = Some s" "rm_held s 1 0 = 2" "rm_acts s 1 = None"
    by (rule rm_example_reach)
  have "rm_held s 1 0 = 1 + 1" by (simp add: s)
  from recursive_mutex_unlock [OF reference_posix.pthread_mutex_laws_axioms s(1,4) this] s(2)
  show ?thesis by (auto simp del: rm_run.simps)
qed

end
