(* ===== verification/Recursive_Mutex_Do.thy ===== *)
theory Recursive_Mutex_Do
  imports Recursive_Mutex_Invariant
begin

text \<open>
  One thread's uninterrupted use of a recursive mutex: complete calls of its functions, and
  the macro \<open>mulle_thread_recursive_mutex_do\<close> of \<open>src/mulle-thread.h\<close> with blocks that
  contain further ones. Other threads can't change the mutex while this one holds it
  (theory \<open>Recursive_Mutex_Invariant\<close>), so that is all there is to a critical section.
\<close>

subsection \<open>Complete calls\<close>

text \<open>The steps of a call up to its return, at most \<open>n\<close>; \<open>None\<close>: it blocks or stops at an
  assertion. No function takes more than five steps.\<close>

fun rm_finish ::
  "nat \<Rightarrow> backend \<Rightarrow> 'm mutex_ops \<Rightarrow> bool \<Rightarrow> tid \<Rightarrow> rm_act \<Rightarrow> mem \<times> 'm \<Rightarrow> (int \<times> mem \<times> 'm) option"
where
  "rm_finish 0 B M ndebug t a s = (if ra_pc a = M_ret then Some (ra_result a, s) else None)"
| "rm_finish (Suc n) B M ndebug t a s =
     (if ra_pc a = M_ret then Some (ra_result a, s)
      else (case rm_fn_step B M ndebug t a s of
          None \<Rightarrow> None | Some (a', s') \<Rightarrow> rm_finish n B M ndebug t a' s'))"

definition rm_complete ::
  "backend \<Rightarrow> 'm mutex_ops \<Rightarrow> bool \<Rightarrow> rm_fn \<Rightarrow> nat \<Rightarrow> tid \<Rightarrow> mem \<times> 'm \<Rightarrow> (int \<times> mem \<times> 'm) option"
where
  "rm_complete B M ndebug f p t s = rm_finish 5 B M ndebug t (rm_entry f p) s"

text \<open>Thread \<open>t\<close> holds the mutex \<open>k\<close> times; with \<open>k = 0\<close> it is free.\<close>

definition rm_holds :: "('m \<Rightarrow> tid option) \<Rightarrow> nat \<Rightarrow> tid \<Rightarrow> nat \<Rightarrow> mem \<times> 'm \<Rightarrow> bool" where
  "rm_holds holder p t k s \<longleftrightarrow> rm_view holder p (fst s) (snd s) =
     (if k = 0 then (NULL, 0, None) else (t, of_nat k, Some t))"

text \<open>The cells of other objects.\<close>

definition rm_elsewhere :: "nat \<Rightarrow> mem \<times> 'm \<Rightarrow> mem \<times> 'm \<Rightarrow> bool" where
  "rm_elsewhere p s s' \<longleftrightarrow>
     (\<forall>x. x \<noteq> rm_thread_id p \<longrightarrow> x \<noteq> rm_depth p \<longrightarrow> cells (fst s') x = cells (fst s) x)"

lemma rm_elsewhere_refl [simp]: "rm_elsewhere p s s"
  by (simp add: rm_elsewhere_def)

lemma rm_elsewhere_trans: "rm_elsewhere p s s' \<Longrightarrow> rm_elsewhere p s' s'' \<Longrightarrow> rm_elsewhere p s s''"
  by (simp add: rm_elsewhere_def)

lemmas rm_complete_defs =
  rm_complete_def rm_entry_def rm_fn_defs rm_holds_def rm_view_def rm_elsewhere_def

context recursive_mutex
begin

lemma complete_lock:
  assumes h: "rm_holds holder p t k s" and t: "t \<noteq> 0"
  shows "\<exists>s'. rm_complete B M nd Rm_lock p t s = Some (0, s') \<and> rm_holds holder p t (k + 1) s' \<and>
    rm_elsewhere p s s'"
proof (cases "k = 0")
  case True
  obtain m mutex where s: "s = (m, mutex)" by (cases s)
  obtain mutex' where l: "mo_lock M t mutex = Some (0, mutex')" "holder mutex' = Some t"
    using h True s lock_free [of mutex t] by (auto simp: rm_holds_def rm_view_def)
  show ?thesis
    using h t True l
    by (simp add: s rm_complete_defs case_prod_beta eval_nat_numeral)
next
  case False
  obtain m mutex where s: "s = (m, mutex)" by (cases s)
  show ?thesis
    using h False by (simp add: s rm_complete_defs case_prod_beta eval_nat_numeral add.commute)
qed

lemma complete_trylock:
  assumes h: "rm_holds holder p t k s" and t: "t \<noteq> 0"
  shows "\<exists>s'. rm_complete B M nd Rm_trylock p t s = Some (0, s') \<and> rm_holds holder p t (k + 1) s' \<and>
    rm_elsewhere p s s'"
proof (cases "k = 0")
  case True
  obtain m mutex where s: "s = (m, mutex)" by (cases s)
  have l: "fst (mo_trylock M t mutex) = 0" "holder (snd (mo_trylock M t mutex)) = Some t"
    using h True s trylock_free [of mutex t] by (auto simp: rm_holds_def rm_view_def)
  show ?thesis
    using h t True l
    by (simp add: s rm_complete_defs case_prod_beta eval_nat_numeral)
next
  case False
  obtain m mutex where s: "s = (m, mutex)" by (cases s)
  show ?thesis
    using h False by (simp add: s rm_complete_defs case_prod_beta eval_nat_numeral add.commute)
qed

lemma complete_unlock:
  assumes h: "rm_holds holder p t (k + 1) s" and k: "int (k + 1) \<le> rm_max_depth"
  shows "\<exists>s'. rm_complete B M nd Rm_unlock p t s = Some (0, s') \<and> rm_holds holder p t k s' \<and>
    rm_elsewhere p s s'"
proof -
  obtain m mutex where s: "s = (m, mutex)" by (cases s)
  have view: "cells m (rm_thread_id p) = t" "cells m (rm_depth p) = of_nat (k + 1)"
    "holder mutex = Some t"
    using h by (simp_all add: s rm_holds_def rm_view_def)
  note small = sint_of_nat_small [OF k]
  show ?thesis
  proof (cases "k = 0")
    case True
    then show ?thesis
      using view small unlock_held [of mutex t]
      by (simp add: s rm_complete_defs case_prod_beta eval_nat_numeral)
  next
    case False
    then have "1 < sint (cells m (rm_depth p))" using small view(2) by simp
    then show ?thesis
      using view False by (simp add: s rm_complete_defs case_prod_beta eval_nat_numeral)
  qed
qed

end

subsection \<open>The macro \<open>mulle_thread_recursive_mutex_do\<close>\<close>

text \<open>
  Two nested loops as in \<open>mulle_thread_mutex_do\<close>: the inner one, over \<open>j\<close>, runs the body once,
  the outer one, over \<open>i\<close>, locks before its first test and unlocks in its increment. The body
  may block itself, so it has no result then. The state is the memory with the plain mutex,
  and the client's data.
\<close>

function rmtx_inner ::
  "nat \<Rightarrow> ('s \<Rightarrow> (body_exit \<times> 's) option) \<Rightarrow> 's \<Rightarrow> (body_exit option \<times> 's) option"
where
  "rmtx_inner j body s =
     (if j < 1
      then (case body s of
          None \<Rightarrow> None
        | Some (Leaves, s') \<Rightarrow> Some (Some Leaves, s')
        | Some (Breaks, s') \<Rightarrow> Some (None, s')
        | Some (_, s') \<Rightarrow> rmtx_inner (j + 1) body s')
      else Some (None, s))"
  by pat_completeness auto
termination by (relation "measure (\<lambda>(j, _). 1 - j)") auto

function rmtx_outer ::
  "backend \<Rightarrow> 'm mutex_ops \<Rightarrow> bool \<Rightarrow> nat \<Rightarrow> tid \<Rightarrow> nat \<Rightarrow>
     ((mem \<times> 'm) \<times> 'd \<Rightarrow> (body_exit \<times> (mem \<times> 'm) \<times> 'd) option) \<Rightarrow> (mem \<times> 'm) \<times> 'd \<Rightarrow>
     (body_exit option \<times> (mem \<times> 'm) \<times> 'd) option"
where
  "rmtx_outer B M ndebug p t i body s =
     (if i < 1
      then (case rmtx_inner 0 body s of
          None \<Rightarrow> None
        | Some (Some e, s') \<Rightarrow> Some (Some e, s')
        | Some (None, (mutex, d)) \<Rightarrow>
            (case rm_complete B M ndebug Rm_unlock p t mutex of
               None \<Rightarrow> None
             | Some (_, mutex') \<Rightarrow> rmtx_outer B M ndebug p t (i + 1) body (mutex', d)))
      else Some (None, s))"
  by pat_completeness auto
termination by (relation "measure (\<lambda>(_, _, _, _, _, i, _). 1 - i)") auto

declare rmtx_inner.simps [simp del] rmtx_outer.simps [simp del]

definition mulle_thread_recursive_mutex_do ::
  "backend \<Rightarrow> 'm mutex_ops \<Rightarrow> bool \<Rightarrow> nat \<Rightarrow> tid \<Rightarrow>
     ((mem \<times> 'm) \<times> 'd \<Rightarrow> (body_exit \<times> (mem \<times> 'm) \<times> 'd) option) \<Rightarrow> (mem \<times> 'm) \<times> 'd \<Rightarrow>
     (body_exit option \<times> (mem \<times> 'm) \<times> 'd) option"
where
  "mulle_thread_recursive_mutex_do B M ndebug p t body s =
     (case rm_complete B M ndebug Rm_lock p t (fst s) of
        None \<Rightarrow> None
      | Some (_, mutex) \<Rightarrow> rmtx_outer B M ndebug p t 0 body (mutex, snd s))"

lemma rmtx_inner_once:
  "rmtx_inner 0 body s =
     (case body s of
        None \<Rightarrow> None
      | Some (e, s') \<Rightarrow> Some (if e = Leaves then Some Leaves else None, s'))"
  by (auto simp: rmtx_inner.simps [of 0] rmtx_inner.simps [of "Suc 0"]
    split: option.splits body_exit.splits)

lemma rmtx_outer_once:
  "rmtx_outer B M nd p t 0 body s =
     (case body s of
        None \<Rightarrow> None
      | Some (e, mutex, d) \<Rightarrow>
          if e = Leaves then Some (Some Leaves, mutex, d)
          else map_option (\<lambda>(r, mutex'). (None, mutex', d)) (rm_complete B M nd Rm_unlock p t mutex))"
  by (auto simp: rmtx_outer.simps [of _ _ _ _ _ 0] rmtx_outer.simps [of _ _ _ _ _ "Suc 0"]
    rmtx_inner_once split: option.splits)

text \<open>Client code with blocks in blocks, all on the same mutex: \<open>Protected\<close> is a use of the macro,
  \<open>Locked\<close> a lock and an unlock around the block, \<open>Tried\<close> a trylock with what is done if it
  succeeds, and then an unlock, and what otherwise. \<open>Client\<close> changes the data; the state
  of memory and mutex it is run in is noted.\<close>

datatype 'd client =
  Client "'d \<Rightarrow> 'd" | Then "'d client" "'d client" | Protected "'d client"
| Locked "'d client" | Tried "'d client" "'d client"

definition rm_unlocking ::
  "backend \<Rightarrow> 'm mutex_ops \<Rightarrow> bool \<Rightarrow> nat \<Rightarrow> tid \<Rightarrow> ((mem \<times> 'm) \<times> 'd) option \<Rightarrow>
     ((mem \<times> 'm) \<times> 'd) option"
where
  "rm_unlocking B M nd p t r =
     (case r of
        None \<Rightarrow> None
      | Some (mutex, d) \<Rightarrow> map_option (\<lambda>r. (snd r, d)) (rm_complete B M nd Rm_unlock p t mutex))"

primrec run_client ::
  "backend \<Rightarrow> 'm mutex_ops \<Rightarrow> bool \<Rightarrow> nat \<Rightarrow> tid \<Rightarrow> 'd client \<Rightarrow> (mem \<times> 'm) \<times> 'd \<times> (mem \<times> 'm) list \<Rightarrow>
     ((mem \<times> 'm) \<times> 'd \<times> (mem \<times> 'm) list) option"
where
  "run_client B M nd p t (Client f) s = Some (fst s, f (fst (snd s)), snd (snd s) @ [fst s])"
| "run_client B M nd p t (Then c c') s =
     (case run_client B M nd p t c s of None \<Rightarrow> None | Some s' \<Rightarrow> run_client B M nd p t c' s')"
| "run_client B M nd p t (Protected c) s =
     map_option snd (mulle_thread_recursive_mutex_do B M nd p t
       (\<lambda>s. map_option (\<lambda>s'. (Falls, s')) (run_client B M nd p t c s)) s)"
| "run_client B M nd p t (Locked c) s =
     (case rm_complete B M nd Rm_lock p t (fst s) of
        None \<Rightarrow> None
      | Some (rval, mutex) \<Rightarrow> rm_unlocking B M nd p t (run_client B M nd p t c (mutex, snd s)))"
| "run_client B M nd p t (Tried c c') s =
     (case rm_complete B M nd Rm_trylock p t (fst s) of
        None \<Rightarrow> None
      | Some (rval, mutex) \<Rightarrow>
          if rval = 0 then rm_unlocking B M nd p t (run_client B M nd p t c (mutex, snd s))
          else run_client B M nd p t c' (mutex, snd s))"

text \<open>The same without the locks; how deep the blocks are nested; and how often the mutex is to
  be held at every \<open>Client\<close>, in a thread that already holds it \<open>k\<close> times.\<close>

primrec client_effect :: "'d client \<Rightarrow> 'd \<Rightarrow> 'd" where
  "client_effect (Client f) d = f d"
| "client_effect (Then c c') d = client_effect c' (client_effect c d)"
| "client_effect (Protected c) d = client_effect c d"
| "client_effect (Locked c) d = client_effect c d"
| "client_effect (Tried c c') d = client_effect c d"

primrec nesting :: "'d client \<Rightarrow> nat" where
  "nesting (Client f) = 0"
| "nesting (Then c c') = max (nesting c) (nesting c')"
| "nesting (Protected c) = nesting c + 1"
| "nesting (Locked c) = nesting c + 1"
| "nesting (Tried c c') = nesting c + 1"

primrec client_depths :: "'d client \<Rightarrow> nat \<Rightarrow> nat list" where
  "client_depths (Client f) k = [k]"
| "client_depths (Then c c') k = client_depths c k @ client_depths c' k"
| "client_depths (Protected c) k = client_depths c (k + 1)"
| "client_depths (Locked c) k = client_depths c (k + 1)"
| "client_depths (Tried c c') k = client_depths c (k + 1)"

text \<open>A block has its effect, finds the mutex held as often as it is to be, and gives it back.\<close>

definition client_done ::
  "('m \<Rightarrow> tid option) \<Rightarrow> nat \<Rightarrow> tid \<Rightarrow> nat \<Rightarrow> 'd client \<Rightarrow> mem \<times> 'm \<Rightarrow> 'd \<times> (mem \<times> 'm) list \<Rightarrow>
     (mem \<times> 'm) \<times> 'd \<times> (mem \<times> 'm) list \<Rightarrow> bool"
where
  "client_done holder p t k c s d r \<longleftrightarrow>
     rm_holds holder p t k (fst r) \<and> rm_elsewhere p s (fst r) \<and>
     fst (snd r) = client_effect c (fst d) \<and>
     (\<exists>seen. snd (snd r) = snd d @ seen \<and>
        list_all2 (rm_holds holder p t) (client_depths c k) seen)"

context recursive_mutex
begin

lemma do_result:
  assumes h: "rm_holds holder p t k s" and t: "t \<noteq> 0" and k: "int (k + 1) \<le> rm_max_depth"
    and body: "\<forall>s. rm_holds holder p t (k + 1) s \<longrightarrow>
      (\<exists>e s'. body (s, d) = Some (e, s', d') \<and> e = e0 \<and> rm_holds holder p t (k + 1) s' \<and>
        rm_elsewhere p s s')"
  shows "\<exists>s'. mulle_thread_recursive_mutex_do B M nd p t body (s, d) =
      Some (if e0 = Leaves then Some Leaves else None, s', d') \<and>
    rm_holds holder p t (if e0 = Leaves then k + 1 else k) s' \<and> rm_elsewhere p s s'"
proof -
  obtain s1 where s1: "rm_complete B M nd Rm_lock p t s = Some (0, s1)"
    "rm_holds holder p t (k + 1) s1" "rm_elsewhere p s s1"
    using complete_lock [OF h t] by blast
  obtain s2 where s2: "body (s1, d) = Some (e0, s2, d')" "rm_holds holder p t (k + 1) s2"
    "rm_elsewhere p s1 s2" using body s1(2) by blast
  show ?thesis
  proof (cases "e0 = Leaves")
    case True
    then show ?thesis
      using s1 s2 rm_elsewhere_trans [OF s1(3) s2(3)]
      by (simp add: mulle_thread_recursive_mutex_do_def rmtx_outer_once)
  next
    case False
    obtain s3 where "rm_complete B M nd Rm_unlock p t s2 = Some (0, s3)" "rm_holds holder p t k s3"
      "rm_elsewhere p s2 s3" using complete_unlock [OF s2(2) k] by blast
    then show ?thesis
      using False s1 s2 rm_elsewhere_trans [OF rm_elsewhere_trans [OF s1(3) s2(3)]]
      by (simp add: mulle_thread_recursive_mutex_do_def rmtx_outer_once)
  qed
qed

lemma unlocking_done:
  assumes r: "client_done holder p t (k + 1) c s d r" and k: "int (k + 1) \<le> rm_max_depth"
    and c': "client_effect c' = client_effect c" "client_depths c' k = client_depths c (k + 1)"
    and s0: "rm_elsewhere p s0 s"
  shows "\<exists>r'. rm_unlocking B M nd p t (Some r) = Some r' \<and> client_done holder p t k c' s0 d r'"
proof -
  have s1: "rm_holds holder p t (k + 1) (fst r)" "rm_elsewhere p s (fst r)"
    using r by (simp_all add: client_done_def)
  obtain s2 where s2: "rm_complete B M nd Rm_unlock p t (fst r) = Some (0, s2)"
    "rm_holds holder p t k s2" "rm_elsewhere p (fst r) s2" using complete_unlock [OF s1(1) k] by blast
  have "rm_elsewhere p s0 s2" by (rule rm_elsewhere_trans [OF s0 rm_elsewhere_trans [OF s1(2) s2(3)]])
  with s2 r c' show ?thesis
    by (auto simp: rm_unlocking_def client_done_def case_prod_beta)
qed

lemma client_result:
  assumes "rm_holds holder p t k s" and "t \<noteq> 0" and "int (k + nesting c) \<le> rm_max_depth"
  shows "\<exists>r. run_client B M nd p t c (s, d) = Some r \<and> client_done holder p t k c s d r"
  using assms
proof (induction c arbitrary: k s d)
  case (Client f)
  then show ?case by (simp add: client_done_def)
next
  case (Then c c')
  have deep: "int (k + nesting c) \<le> rm_max_depth" "int (k + nesting c') \<le> rm_max_depth"
    using Then.prems(3) by auto
  obtain r where r: "run_client B M nd p t c (s, d) = Some r" "client_done holder p t k c s d r"
    using Then.IH(1) [OF Then.prems(1,2) deep(1)] by blast
  then have s1: "rm_holds holder p t k (fst r)" "rm_elsewhere p s (fst r)"
    by (simp_all add: client_done_def)
  obtain r' where r': "run_client B M nd p t c' (fst r, snd r) = Some r'"
    "client_done holder p t k c' (fst r) (snd r) r'"
    using Then.IH(2) [OF s1(1) Then.prems(2) deep(2)] by blast
  then have "rm_elsewhere p s (fst r')"
    using rm_elsewhere_trans [OF s1(2)] by (simp add: client_done_def)
  with r r' show ?case by (auto simp: client_done_def intro!: list_all2_appendI)
next
  case (Protected c)
  have deep: "int (k + 1 + nesting c) \<le> rm_max_depth" "int (k + 1) \<le> rm_max_depth"
    using Protected.prems(3) by auto
  obtain s1 where s1: "rm_complete B M nd Rm_lock p t s = Some (0, s1)" "rm_holds holder p t (k + 1) s1"
    "rm_elsewhere p s s1" using complete_lock [OF Protected.prems(1,2)] by blast
  obtain r where r: "run_client B M nd p t c (s1, d) = Some r" "client_done holder p t (k + 1) c s1 d r"
    using Protected.IH [OF s1(2) Protected.prems(2) deep(1)] by blast
  have "run_client B M nd p t (Protected c) (s, d) = rm_unlocking B M nd p t (Some r)"
    using s1(1) r(1)
    by (cases r) (simp add: mulle_thread_recursive_mutex_do_def rmtx_outer_once rm_unlocking_def
      option.map_comp o_def split_def)
  with unlocking_done [OF r(2) deep(2) _ _ s1(3), of "Protected c"] show ?case by (simp add: fun_eq_iff)
next
  case (Locked c)
  have deep: "int (k + 1 + nesting c) \<le> rm_max_depth" "int (k + 1) \<le> rm_max_depth"
    using Locked.prems(3) by auto
  obtain s1 where s1: "rm_complete B M nd Rm_lock p t s = Some (0, s1)" "rm_holds holder p t (k + 1) s1"
    "rm_elsewhere p s s1" using complete_lock [OF Locked.prems(1,2)] by blast
  obtain r where r: "run_client B M nd p t c (s1, d) = Some r" "client_done holder p t (k + 1) c s1 d r"
    using Locked.IH [OF s1(2) Locked.prems(2) deep(1)] by blast
  with unlocking_done [OF r(2) deep(2) _ _ s1(3), of "Locked c"] s1(1) show ?case by (simp add: fun_eq_iff)
next
  case (Tried c c')
  have deep: "int (k + 1 + nesting c) \<le> rm_max_depth" "int (k + 1) \<le> rm_max_depth"
    using Tried.prems(3) by auto
  obtain s1 where s1: "rm_complete B M nd Rm_trylock p t s = Some (0, s1)" "rm_holds holder p t (k + 1) s1"
    "rm_elsewhere p s s1" using complete_trylock [OF Tried.prems(1,2)] by blast
  obtain r where r: "run_client B M nd p t c (s1, d) = Some r" "client_done holder p t (k + 1) c s1 d r"
    using Tried.IH(1) [OF s1(2) Tried.prems(2) deep(1)] by blast
  with unlocking_done [OF r(2) deep(2) _ _ s1(3), of "Tried c c'"] s1(1) show ?case by (simp add: fun_eq_iff)
qed

end

context pthread_mutex_laws
begin

lemmas rm_do_result = rm.do_result
lemmas rm_client_result = rm.client_result

end

subsection \<open>Properties\<close>

text \<open>C18: blocks in blocks give back what they took, and run with the mutex held. Client code
  with uses of \<open>mulle_thread_recursive_mutex_do\<close>, pairs of lock and unlock and successful
  trylocks with their unlock, nested in any way, run by a thread that holds the mutex \<open>k\<close> times
  or finds it free, neither blocks nor stops at an assertion; it has exactly the effect it
  would have without the locks; every step of it finds the mutex held by the thread, \<open>k\<close> times
  and once more for every block around it; and the owner, the depth and the plain mutex are
  left as they were.\<close>

theorem recursive_mutex_nested:
  assumes "pthread_mutex_laws P holder" and "rm_holds holder p t k s" and "t \<noteq> 0"
    and "int (k + nesting c) \<le> rm_max_depth"
  shows "\<exists>s' seen. run_client c11_backend (pthreads_mutex P) nd p t c (s, d, []) =
      Some (s', client_effect c d, seen) \<and>
    list_all2 (rm_holds holder p t) (client_depths c k) seen \<and>
    rm_view holder p (fst s') (snd s') = rm_view holder p (fst s) (snd s) \<and> rm_elsewhere p s s'"
proof -
  obtain s' d' seen where
    "run_client c11_backend (pthreads_mutex P) nd p t c (s, d, []) = Some (s', d', seen)"
    "client_done holder p t k c s (d, []) (s', d', seen)"
    using pthread_mutex_laws.rm_client_result [OF assms, of nd "(d, [])"] by auto
  with assms(2) show ?thesis by (simp add: client_done_def rm_holds_def)
qed

definition free_recursive_mutex :: "mem \<times> tid option" where
  "free_recursive_mutex = (\<lparr>cells = (\<lambda>a. 0), log = []\<rparr>, None)"

lemma free_recursive_mutex_holds: "rm_holds (\<lambda>m. m) p t 0 free_recursive_mutex"
  by (simp add: rm_holds_def rm_view_def free_recursive_mutex_def)

theorem recursive_mutex_nested_witness:
  "\<exists>s' x y. run_client c11_backend (pthreads_mutex reference_pthread) False 0 5
      (Protected (Then (Client (\<lambda>d. d + 1)) (Locked (Client (\<lambda>d. d * 2)))))
      (free_recursive_mutex, 20 :: nat, []) = Some (s', 42, [x, y]) \<and> snd s' = None \<and>
    rm_holds (\<lambda>m. m) 0 5 1 x \<and> rm_holds (\<lambda>m. m) 0 5 2 y"
proof -
  let ?c = "Protected (Then (Client (\<lambda>d :: nat. d + 1)) (Locked (Client (\<lambda>d. d * 2))))"
  have "int (0 + nesting ?c) \<le> rm_max_depth" by (simp add: rm_max_depth_def)
  from recursive_mutex_nested [where p = 0 and t = 5 and nd = False and d = 20,
      OF reference_posix.pthread_mutex_laws_axioms free_recursive_mutex_holds _ this]
  obtain s' seen where "run_client c11_backend (pthreads_mutex reference_pthread) False 0 5 ?c
      (free_recursive_mutex, 20, []) = Some (s', client_effect ?c 20, seen)"
    "list_all2 (rm_holds (\<lambda>m. m) 0 5) (client_depths ?c 0) seen"
    "rm_view (\<lambda>m. m) 0 (fst s') (snd s') =
      rm_view (\<lambda>m. m) 0 (fst free_recursive_mutex) (snd free_recursive_mutex)" by auto
  then show ?thesis
    by (auto simp: rm_view_def free_recursive_mutex_def list_all2_Cons1 numeral_2_eq_2
      simp del: run_client.simps)
qed

text \<open>One use of \<open>mulle_thread_recursive_mutex_do\<close>: however the body ends, by its end, by
  \<open>break\<close> or by \<open>continue\<close>, the lock taken for it is given back; only a body that leaves the
  enclosing function keeps it.\<close>

theorem recursive_mutex_do_releases:
  assumes "pthread_mutex_laws P holder" and "rm_holds holder p t k s" and "t \<noteq> 0"
    and "int (k + 1) \<le> rm_max_depth"
    and "\<forall>s. rm_holds holder p t (k + 1) s \<longrightarrow>
      (\<exists>e s'. body (s, d) = Some (e, s', d') \<and> e = e0 \<and> rm_holds holder p t (k + 1) s' \<and>
        rm_elsewhere p s s')"
  shows "\<exists>s'. mulle_thread_recursive_mutex_do c11_backend (pthreads_mutex P) nd p t body (s, d) =
      Some (if e0 = Leaves then Some Leaves else None, s', d') \<and>
    rm_holds holder p t (if e0 = Leaves then k + 1 else k) s'"
  using pthread_mutex_laws.rm_do_result [OF assms, of nd] by blast

theorem recursive_mutex_do_releases_witness:
  "\<exists>s'. mulle_thread_recursive_mutex_do c11_backend (pthreads_mutex reference_pthread) False 0 5
      (\<lambda>(s, d). Some (Breaks, s, 7 :: nat)) (free_recursive_mutex, 3) = Some (None, s', 7) \<and>
    rm_holds (\<lambda>m. m) 0 5 0 s'"
proof -
  have "int (0 + 1) \<le> rm_max_depth" by (simp add: rm_max_depth_def)
  moreover have "\<forall>s. rm_holds (\<lambda>m. m) 0 5 (0 + 1) s \<longrightarrow>
      (\<exists>e s'. (\<lambda>(s, d). Some (Breaks, s, 7 :: nat)) (s, 3 :: nat) = Some (e, s', 7) \<and> e = Breaks \<and>
        rm_holds (\<lambda>m. m) 0 5 (0 + 1) s' \<and> rm_elsewhere 0 s s')" by simp
  ultimately show ?thesis
    using recursive_mutex_do_releases [where p = 0 and t = 5 and nd = False and ?e0.0 = Breaks and
        body = "\<lambda>(s, d). Some (Breaks, s, 7 :: nat)" and d = 3 and d' = 7,
        OF reference_posix.pthread_mutex_laws_axioms free_recursive_mutex_holds]
    by simp
qed

end
