(* ===== verification/Once.thy ===== *)
theory Once
  imports Atomic_Api
begin

text \<open>
  One-time initialization over a plain once flag (\<open>mulle_thread_once_t\<close>):
  \<open>mulle_thread_once\<close>, \<open>mulle_thread_once_call\<close> of \<open>src/mulle-thread.c\<close>, the non-blocking
  variants and the macros \<open>mulle_thread_once_do\<close>, \<open>mulle_thread_once_do_noblock\<close> of
  \<open>src/mulle-thread.h\<close>, as an interleaving of any number of threads.

  An activation of one of the functions is a \<open>frame\<close>: its arguments, its local \<open>actual\<close> and
  the point of the function it has reached. A thread is a stack of frames, because \<open>init\<close>
  (or the body of a macro) is arbitrary client code, which may call once functions again on
  the same flag or on others. One step of a thread executes one access to shared memory.
\<close>

subsection \<open>Flags\<close>

definition MULLE_THREAD_ONCE_DATA :: ptr where
  "MULLE_THREAD_ONCE_DATA = 0"

definition MULLE_THREAD_ONCE_BUSY :: ptr where
  "MULLE_THREAD_ONCE_BUSY = 1848"

definition MULLE_THREAD_ONCE_DONE :: ptr where
  "MULLE_THREAD_ONCE_DONE = 1"

definition MULLE_ATOMIC_POINTER_INIT :: ptr where
  "MULLE_ATOMIC_POINTER_INIT = 0"

definition MULLE_THREAD_ONCE_INIT :: ptr where
  "MULLE_THREAD_ONCE_INIT = MULLE_ATOMIC_POINTER_INIT"

lemma once_init_eq_data: "MULLE_THREAD_ONCE_INIT = MULLE_THREAD_ONCE_DATA"
  by (simp add: MULLE_THREAD_ONCE_INIT_def MULLE_ATOMIC_POINTER_INIT_def
    MULLE_THREAD_ONCE_DATA_def)

lemma once_flags_distinct [simp]:
  "MULLE_THREAD_ONCE_DATA \<noteq> MULLE_THREAD_ONCE_BUSY"
  "MULLE_THREAD_ONCE_BUSY \<noteq> MULLE_THREAD_ONCE_DATA"
  "MULLE_THREAD_ONCE_DATA \<noteq> MULLE_THREAD_ONCE_DONE"
  "MULLE_THREAD_ONCE_DONE \<noteq> MULLE_THREAD_ONCE_DATA"
  "MULLE_THREAD_ONCE_BUSY \<noteq> MULLE_THREAD_ONCE_DONE"
  "MULLE_THREAD_ONCE_DONE \<noteq> MULLE_THREAD_ONCE_BUSY"
  by (simp_all add: MULLE_THREAD_ONCE_DATA_def MULLE_THREAD_ONCE_BUSY_def
    MULLE_THREAD_ONCE_DONE_def)

subsection \<open>Activations\<close>

text \<open>
  The points of a once function, named by the access or call that comes next: the first
  exchange; in the waiting loop the yield and the read; the barrier after the wait; the call
  of \<open>init\<close>; inside \<open>init\<close>; the barrier after it; the publishing exchange; returned; stopped
  at a failed assertion.
\<close>

datatype once_pc =
  P_cas | P_yield | P_read | P_wait_barrier | P_call_init | P_in_init | P_barrier | P_publish
| P_ret | P_abort

datatype once_fn =
  Once | Once_call | Once_noblock | Once_call_noblock | Once_do | Once_do_noblock

record frame =
  fr_fn :: once_fn
  fr_obj :: nat
  fr_userinfo :: ptr
  fr_pc :: once_pc
  fr_actual :: ptr

definition goto :: "once_pc \<Rightarrow> frame \<Rightarrow> frame" where
  "goto p fr = fr\<lparr>fr_pc := p\<rparr>"

definition once_addr :: "frame \<Rightarrow> addr" where
  "once_addr fr = (fr_obj fr, 0)"

text \<open>\<open>mulle_thread_once\<close>: \<open>once\<close> is the address of the flag, \<open>t\<close> the calling thread.\<close>

definition mulle_thread_once :: "backend \<Rightarrow> bool \<Rightarrow> tid \<Rightarrow> frame \<Rightarrow> mem \<Rightarrow> frame \<times> mem" where
  "mulle_thread_once B ndebug t fr m =
     (let once = once_addr fr in
      case fr_pc fr of
        P_cas \<Rightarrow>
          (case mulle_atomic_pointer_compare_and_swap_actual B t once
                  MULLE_THREAD_ONCE_BUSY MULLE_THREAD_ONCE_INIT m of
             (actual, m') \<Rightarrow>
               (let fr' = fr\<lparr>fr_actual := actual\<rparr> in
                if actual = MULLE_THREAD_ONCE_DONE then (goto P_ret fr', m')
                else if actual \<noteq> MULLE_THREAD_ONCE_INIT then (goto P_yield fr', m')
                else (goto P_call_init fr', m')))
      | P_yield \<Rightarrow> (goto P_read fr, m)
      | P_read \<Rightarrow>
          (case be_pointer_read B t once m of
             (v, m') \<Rightarrow>
               if v \<noteq> MULLE_THREAD_ONCE_DONE then (goto P_yield fr, m')
               else (goto P_wait_barrier fr, m'))
      | P_wait_barrier \<Rightarrow> (goto P_ret fr, be_memory_barrier B t m)
      | P_call_init \<Rightarrow> (goto P_in_init fr, m)
      | P_in_init \<Rightarrow> (goto P_barrier fr, m)
      | P_barrier \<Rightarrow> (goto P_publish fr, be_memory_barrier B t m)
      | P_publish \<Rightarrow>
          (case mulle_atomic_pointer_compare_and_swap B ndebug t once
                  MULLE_THREAD_ONCE_DONE MULLE_THREAD_ONCE_BUSY m of
             Inl f \<Rightarrow> (goto P_abort fr, m)
           | Inr (r, m') \<Rightarrow> (goto P_ret fr, m'))
      | P_ret \<Rightarrow> (fr, m)
      | P_abort \<Rightarrow> (fr, m))"

text \<open>\<open>mulle_thread_once_call\<close>: the same with \<open>userinfo\<close> handed to \<open>init\<close>.\<close>

definition mulle_thread_once_call ::
  "backend \<Rightarrow> bool \<Rightarrow> tid \<Rightarrow> frame \<Rightarrow> mem \<Rightarrow> frame \<times> mem"
where
  "mulle_thread_once_call B ndebug t fr m =
     (let once = once_addr fr in
      case fr_pc fr of
        P_cas \<Rightarrow>
          (case mulle_atomic_pointer_compare_and_swap_actual B t once
                  MULLE_THREAD_ONCE_BUSY MULLE_THREAD_ONCE_INIT m of
             (actual, m') \<Rightarrow>
               (let fr' = fr\<lparr>fr_actual := actual\<rparr> in
                if actual = MULLE_THREAD_ONCE_DONE then (goto P_ret fr', m')
                else if actual \<noteq> MULLE_THREAD_ONCE_INIT then (goto P_yield fr', m')
                else (goto P_call_init fr', m')))
      | P_yield \<Rightarrow> (goto P_read fr, m)
      | P_read \<Rightarrow>
          (case be_pointer_read B t once m of
             (v, m') \<Rightarrow>
               if v \<noteq> MULLE_THREAD_ONCE_DONE then (goto P_yield fr, m')
               else (goto P_wait_barrier fr, m'))
      | P_wait_barrier \<Rightarrow> (goto P_ret fr, be_memory_barrier B t m)
      | P_call_init \<Rightarrow> (goto P_in_init fr, m)
      | P_in_init \<Rightarrow> (goto P_barrier fr, m)
      | P_barrier \<Rightarrow> (goto P_publish fr, be_memory_barrier B t m)
      | P_publish \<Rightarrow>
          (case mulle_atomic_pointer_compare_and_swap B ndebug t once
                  MULLE_THREAD_ONCE_DONE MULLE_THREAD_ONCE_BUSY m of
             Inl f \<Rightarrow> (goto P_abort fr, m)
           | Inr (r, m') \<Rightarrow> (goto P_ret fr, m'))
      | P_ret \<Rightarrow> (fr, m)
      | P_abort \<Rightarrow> (fr, m))"

text \<open>The non-blocking variants test the flag of the exchange and never wait.\<close>

definition mulle_thread_once_noblock ::
  "backend \<Rightarrow> bool \<Rightarrow> tid \<Rightarrow> frame \<Rightarrow> mem \<Rightarrow> frame \<times> mem"
where
  "mulle_thread_once_noblock B ndebug t fr m =
     (let once = once_addr fr in
      case fr_pc fr of
        P_cas \<Rightarrow>
          (case mulle_atomic_pointer_compare_and_swap B ndebug t once
                  MULLE_THREAD_ONCE_BUSY MULLE_THREAD_ONCE_DATA m of
             Inl f \<Rightarrow> (goto P_abort fr, m)
           | Inr (r, m') \<Rightarrow> (goto (if r \<noteq> 0 then P_call_init else P_ret) fr, m'))
      | P_call_init \<Rightarrow> (goto P_in_init fr, m)
      | P_in_init \<Rightarrow> (goto P_barrier fr, m)
      | P_barrier \<Rightarrow> (goto P_publish fr, be_memory_barrier B t m)
      | P_publish \<Rightarrow>
          (case mulle_atomic_pointer_compare_and_swap B ndebug t once
                  MULLE_THREAD_ONCE_DONE MULLE_THREAD_ONCE_BUSY m of
             Inl f \<Rightarrow> (goto P_abort fr, m)
           | Inr (r, m') \<Rightarrow> (goto P_ret fr, m'))
      | _ \<Rightarrow> (fr, m))"

definition mulle_thread_once_call_noblock ::
  "backend \<Rightarrow> bool \<Rightarrow> tid \<Rightarrow> frame \<Rightarrow> mem \<Rightarrow> frame \<times> mem"
where
  "mulle_thread_once_call_noblock B ndebug t fr m =
     (let once = once_addr fr in
      case fr_pc fr of
        P_cas \<Rightarrow>
          (case mulle_atomic_pointer_compare_and_swap B ndebug t once
                  MULLE_THREAD_ONCE_BUSY MULLE_THREAD_ONCE_DATA m of
             Inl f \<Rightarrow> (goto P_abort fr, m)
           | Inr (r, m') \<Rightarrow> (goto (if r \<noteq> 0 then P_call_init else P_ret) fr, m'))
      | P_call_init \<Rightarrow> (goto P_in_init fr, m)
      | P_in_init \<Rightarrow> (goto P_barrier fr, m)
      | P_barrier \<Rightarrow> (goto P_publish fr, be_memory_barrier B t m)
      | P_publish \<Rightarrow>
          (case mulle_atomic_pointer_compare_and_swap B ndebug t once
                  MULLE_THREAD_ONCE_DONE MULLE_THREAD_ONCE_BUSY m of
             Inl f \<Rightarrow> (goto P_abort fr, m)
           | Inr (r, m') \<Rightarrow> (goto P_ret fr, m'))
      | _ \<Rightarrow> (fr, m))"

text \<open>
  The macro \<open>mulle_thread_once_do\<close>. Its outer loop runs while \<open>actual\<close> is not DONE and its
  increment publishes and sets \<open>actual\<close> to DONE; a thread that waited leaves the inner loop
  with \<open>break\<close> and runs the increment too. The body is the client code; \<open>break\<close> and
  \<open>continue\<close> in it end the inner loop, so they lead to the increment like its normal end.
\<close>

definition mulle_thread_once_do ::
  "backend \<Rightarrow> bool \<Rightarrow> tid \<Rightarrow> frame \<Rightarrow> mem \<Rightarrow> frame \<times> mem"
where
  "mulle_thread_once_do B ndebug t fr m =
     (let name = once_addr fr in
      case fr_pc fr of
        P_cas \<Rightarrow>
          (case mulle_atomic_pointer_compare_and_swap_actual B t name
                  MULLE_THREAD_ONCE_BUSY MULLE_THREAD_ONCE_DATA m of
             (actual, m') \<Rightarrow>
               (let fr' = fr\<lparr>fr_actual := actual\<rparr> in
                if actual \<noteq> MULLE_THREAD_ONCE_DONE
                then if actual \<noteq> MULLE_THREAD_ONCE_DATA then (goto P_yield fr', m')
                     else (goto P_call_init fr', m')
                else (goto P_ret fr', m')))
      | P_yield \<Rightarrow> (goto P_read fr, m)
      | P_read \<Rightarrow>
          (case be_pointer_read B t name m of
             (v, m') \<Rightarrow>
               if v \<noteq> MULLE_THREAD_ONCE_DONE then (goto P_yield fr, m')
               else (goto P_wait_barrier fr, m'))
      | P_wait_barrier \<Rightarrow> (goto P_barrier fr, be_memory_barrier B t m)
      | P_call_init \<Rightarrow> (goto P_in_init fr, m)
      | P_in_init \<Rightarrow> (goto P_barrier fr, m)
      | P_barrier \<Rightarrow> (goto P_publish fr, be_memory_barrier B t m)
      | P_publish \<Rightarrow>
          (case mulle_atomic_pointer_compare_and_swap B ndebug t name
                  MULLE_THREAD_ONCE_DONE MULLE_THREAD_ONCE_BUSY m of
             Inl f \<Rightarrow> (goto P_abort fr, m)
           | Inr (r, m') \<Rightarrow> (goto P_ret (fr\<lparr>fr_actual := MULLE_THREAD_ONCE_DONE\<rparr>), m'))
      | P_ret \<Rightarrow> (fr, m)
      | P_abort \<Rightarrow> (fr, m))"

definition mulle_thread_once_do_noblock ::
  "backend \<Rightarrow> bool \<Rightarrow> tid \<Rightarrow> frame \<Rightarrow> mem \<Rightarrow> frame \<times> mem"
where
  "mulle_thread_once_do_noblock B ndebug t fr m =
     (let name = once_addr fr in
      case fr_pc fr of
        P_cas \<Rightarrow>
          (case mulle_atomic_pointer_compare_and_swap_actual B t name
                  MULLE_THREAD_ONCE_BUSY MULLE_THREAD_ONCE_DATA m of
             (actual, m') \<Rightarrow>
               (let fr' = fr\<lparr>fr_actual := actual\<rparr> in
                if actual = MULLE_THREAD_ONCE_DATA then (goto P_call_init fr', m')
                else (goto P_ret fr', m')))
      | P_call_init \<Rightarrow> (goto P_in_init fr, m)
      | P_in_init \<Rightarrow> (goto P_barrier fr, m)
      | P_barrier \<Rightarrow> (goto P_publish fr, be_memory_barrier B t m)
      | P_publish \<Rightarrow>
          (case mulle_atomic_pointer_compare_and_swap B ndebug t name
                  MULLE_THREAD_ONCE_DONE MULLE_THREAD_ONCE_BUSY m of
             Inl f \<Rightarrow> (goto P_abort fr, m)
           | Inr (r, m') \<Rightarrow> (goto P_ret (fr\<lparr>fr_actual := MULLE_THREAD_ONCE_DONE\<rparr>), m'))
      | _ \<Rightarrow> (fr, m))"

definition once_fn_step :: "backend \<Rightarrow> bool \<Rightarrow> tid \<Rightarrow> frame \<Rightarrow> mem \<Rightarrow> frame \<times> mem" where
  "once_fn_step B ndebug t fr m =
     (case fr_fn fr of
        Once \<Rightarrow> mulle_thread_once B ndebug t fr m
      | Once_call \<Rightarrow> mulle_thread_once_call B ndebug t fr m
      | Once_noblock \<Rightarrow> mulle_thread_once_noblock B ndebug t fr m
      | Once_call_noblock \<Rightarrow> mulle_thread_once_call_noblock B ndebug t fr m
      | Once_do \<Rightarrow> mulle_thread_once_do B ndebug t fr m
      | Once_do_noblock \<Rightarrow> mulle_thread_once_do_noblock B ndebug t fr m)"

lemmas once_fn_defs =
  once_fn_step_def mulle_thread_once_def mulle_thread_once_call_def
  mulle_thread_once_noblock_def mulle_thread_once_call_noblock_def
  mulle_thread_once_do_def mulle_thread_once_do_noblock_def

subsection \<open>Threads\<close>

text \<open>
  The whole system: memory, one stack of frames per thread (top first), and two histories
  per flag: the calls of \<open>init\<close> with the thread and the argument, and for every return of
  \<open>init\<close> the length of the memory log at that moment.
\<close>

record once_sys =
  os_mem :: mem
  os_stk :: "tid \<Rightarrow> frame list"
  os_calls :: "nat \<Rightarrow> (tid \<times> ptr option) list"
  os_rets :: "nat \<Rightarrow> nat list"

text \<open>What \<open>init\<close> is called with: \<open>userinfo\<close> in the \<open>_call\<close> functions, else nothing.\<close>

definition init_arg :: "frame \<Rightarrow> ptr option" where
  "init_arg fr = (if fr_fn fr \<in> {Once_call, Once_call_noblock} then Some (fr_userinfo fr) else None)"

definition new_frame :: "once_fn \<Rightarrow> nat \<Rightarrow> ptr \<Rightarrow> frame" where
  "new_frame f ob ui =
     \<lparr>fr_fn = f, fr_obj = ob, fr_userinfo = ui, fr_pc = P_cas, fr_actual = NULL\<rparr>"

definition may_call :: "frame list \<Rightarrow> bool" where
  "may_call st = (case st of [] \<Rightarrow> True | fr # _ \<Rightarrow> fr_pc fr = P_in_init)"

text \<open>
  A move of the scheduler: a thread calls a once function (from outside or from inside an
  \<open>init\<close>), or executes its next step; a step at \<open>P_in_init\<close> is the return of \<open>init\<close>, a step
  at \<open>P_ret\<close> the return to the caller. \<open>None\<close>: the thread can't make that move.
\<close>

datatype once_move = Invoke tid once_fn nat ptr | Step tid

fun once_exec :: "backend \<Rightarrow> bool \<Rightarrow> once_move \<Rightarrow> once_sys \<Rightarrow> once_sys option" where
  "once_exec B ndebug (Invoke t f ob ui) s =
     (if may_call (os_stk s t)
      then Some (s\<lparr>os_stk := (os_stk s)(t := new_frame f ob ui # os_stk s t)\<rparr>) else None)"
| "once_exec B ndebug (Step t) s =
     (case os_stk s t of
        [] \<Rightarrow> None
      | fr # rest \<Rightarrow>
          if fr_pc fr = P_abort then None
          else if fr_pc fr = P_ret then Some (s\<lparr>os_stk := (os_stk s)(t := rest)\<rparr>)
          else (case once_fn_step B ndebug t fr (os_mem s) of
            (fr', m') \<Rightarrow> Some (s\<lparr>
              os_mem := m',
              os_stk := (os_stk s)(t := fr' # rest),
              os_calls := (if fr_pc fr = P_call_init
                then (os_calls s)(fr_obj fr := os_calls s (fr_obj fr) @ [(t, init_arg fr)])
                else os_calls s),
              os_rets := (if fr_pc fr = P_in_init
                then (os_rets s)(fr_obj fr := os_rets s (fr_obj fr) @ [length (log m')])
                else os_rets s)\<rparr>)))"

fun once_run :: "backend \<Rightarrow> bool \<Rightarrow> once_move list \<Rightarrow> once_sys \<Rightarrow> once_sys option" where
  "once_run B ndebug [] s = Some s"
| "once_run B ndebug (mv # mvs) s =
     (case once_exec B ndebug mv s of
        None \<Rightarrow> None | Some s' \<Rightarrow> once_run B ndebug mvs s')"

text \<open>At the start every flag holds its static initializer and no thread is in a function.\<close>

definition once_start :: "once_sys \<Rightarrow> bool" where
  "once_start s \<longleftrightarrow> (\<forall>ob. cells (os_mem s) (ob, 0) = MULLE_THREAD_ONCE_INIT) \<and>
     os_stk s = (\<lambda>t. []) \<and> os_calls s = (\<lambda>ob. []) \<and> os_rets s = (\<lambda>ob. []) \<and> log (os_mem s) = []"

inductive once_reach :: "backend \<Rightarrow> bool \<Rightarrow> once_sys \<Rightarrow> bool" for B nd where
  reach_start: "once_start s \<Longrightarrow> once_reach B nd s"
| reach_step: "once_reach B nd s \<Longrightarrow> once_exec B nd mv s = Some s' \<Longrightarrow> once_reach B nd s'"

lemma once_run_reach:
  "once_reach B nd s \<Longrightarrow> once_run B nd mvs s = Some s' \<Longrightarrow> once_reach B nd s'"
  by (induction mvs arbitrary: s) (auto split: option.splits intro: reach_step)

definition once_init_sys :: once_sys where
  "once_init_sys = \<lparr>os_mem = \<lparr>cells = (\<lambda>_. 0), log = []\<rparr>, os_stk = (\<lambda>t. []),
     os_calls = (\<lambda>ob. []), os_rets = (\<lambda>ob. [])\<rparr>"

lemma once_init_reach: "once_reach B nd once_init_sys"
  by (rule reach_start) (simp add: once_start_def once_init_sys_def
    MULLE_THREAD_ONCE_INIT_def MULLE_ATOMIC_POINTER_INIT_def)

subsection \<open>The protocol the functions follow\<close>

text \<open>
  The abstract specification of one activation, as a relation on its point, its \<open>actual\<close>
  and the value of the flag. \<open>b\<close> says whether the activation may wait. Every function above
  refines it (\<open>once_fn_step_refines\<close>), so the invariants are proved over these rules.
\<close>

inductive once_trans :: "bool \<Rightarrow> once_pc \<Rightarrow> ptr \<Rightarrow> ptr \<Rightarrow> once_pc \<Rightarrow> ptr \<Rightarrow> ptr \<Rightarrow> bool" for b where
  tr_acquire: "once_trans b P_cas a MULLE_THREAD_ONCE_DATA
     P_call_init MULLE_THREAD_ONCE_DATA MULLE_THREAD_ONCE_BUSY"
| tr_skip: "w \<noteq> MULLE_THREAD_ONCE_DATA \<Longrightarrow> (b \<Longrightarrow> w = MULLE_THREAD_ONCE_DONE) \<Longrightarrow>
     once_trans b P_cas a w P_ret a' w"
| tr_wait: "b \<Longrightarrow> w \<noteq> MULLE_THREAD_ONCE_DATA \<Longrightarrow> w \<noteq> MULLE_THREAD_ONCE_DONE \<Longrightarrow>
     once_trans b P_cas a w P_yield w w"
| tr_yield: "b \<Longrightarrow> once_trans b P_yield a w P_read a w"
| tr_again: "b \<Longrightarrow> w \<noteq> MULLE_THREAD_ONCE_DONE \<Longrightarrow> once_trans b P_read a w P_yield a w"
| tr_seen: "b \<Longrightarrow> once_trans b P_read a MULLE_THREAD_ONCE_DONE P_wait_barrier a MULLE_THREAD_ONCE_DONE"
| tr_leave: "b \<Longrightarrow> p' = P_ret \<or> p' = P_barrier \<Longrightarrow> once_trans b P_wait_barrier a w p' a w"
| tr_call: "once_trans b P_call_init a w P_in_init a w"
| tr_back: "once_trans b P_in_init a w P_barrier a w"
| tr_fence: "once_trans b P_barrier a w P_publish a w"
| tr_publish: "once_trans b P_publish a MULLE_THREAD_ONCE_BUSY P_ret a' MULLE_THREAD_ONCE_DONE"
| tr_published: "w \<noteq> MULLE_THREAD_ONCE_BUSY \<Longrightarrow> once_trans b P_publish a w P_ret a' w"

inductive_cases once_transE: "once_trans b p a w p' a' w'"

inductive_simps once_trans_simps:
  "once_trans b P_cas a w p' a' w'"
  "once_trans b P_yield a w p' a' w'"
  "once_trans b P_read a w p' a' w'"
  "once_trans b P_wait_barrier a w p' a' w'"
  "once_trans b P_call_init a w p' a' w'"
  "once_trans b P_in_init a w p' a' w'"
  "once_trans b P_barrier a w p' a' w'"
  "once_trans b P_publish a w p' a' w'"
  "once_trans b P_ret a w p' a' w'"
  "once_trans b P_abort a w p' a' w'"

definition blocking :: "once_fn \<Rightarrow> bool" where
  "blocking f \<longleftrightarrow> f \<in> {Once, Once_call, Once_do}"

text \<open>What an activation knows: where it can be, and what the flag must be there.\<close>

definition frame_ok :: "ptr \<Rightarrow> frame \<Rightarrow> bool" where
  "frame_ok w fr \<longleftrightarrow>
     (case fr_pc fr of
        P_cas \<Rightarrow> fr_actual fr = MULLE_THREAD_ONCE_DATA
      | P_yield \<Rightarrow> blocking (fr_fn fr) \<and> fr_actual fr \<noteq> MULLE_THREAD_ONCE_DATA
      | P_read \<Rightarrow> blocking (fr_fn fr) \<and> fr_actual fr \<noteq> MULLE_THREAD_ONCE_DATA
      | P_wait_barrier \<Rightarrow> blocking (fr_fn fr) \<and> fr_actual fr \<noteq> MULLE_THREAD_ONCE_DATA \<and>
          w = MULLE_THREAD_ONCE_DONE
      | P_call_init \<Rightarrow> fr_actual fr = MULLE_THREAD_ONCE_DATA
      | P_in_init \<Rightarrow> fr_actual fr = MULLE_THREAD_ONCE_DATA
      | P_barrier \<Rightarrow> fr_actual fr \<noteq> MULLE_THREAD_ONCE_DATA \<longrightarrow> w = MULLE_THREAD_ONCE_DONE
      | P_publish \<Rightarrow> fr_actual fr \<noteq> MULLE_THREAD_ONCE_DATA \<longrightarrow> w = MULLE_THREAD_ONCE_DONE
      | P_ret \<Rightarrow> blocking (fr_fn fr) \<longrightarrow> w = MULLE_THREAD_ONCE_DONE
      | P_abort \<Rightarrow> False)"

lemma frame_ok_DONE: "frame_ok w fr \<Longrightarrow> frame_ok MULLE_THREAD_ONCE_DONE fr"
  by (auto simp: frame_ok_def split: once_pc.splits)

lemma frame_ok_not_DONE:
  "frame_ok w fr \<Longrightarrow> w \<noteq> MULLE_THREAD_ONCE_DONE \<Longrightarrow> frame_ok w' fr"
  by (auto simp: frame_ok_def split: once_pc.splits)

lemma new_frame_ok: "frame_ok w (new_frame f ob ui)"
  by (simp add: frame_ok_def new_frame_def MULLE_THREAD_ONCE_DATA_def)

definition same_call :: "frame \<Rightarrow> frame \<Rightarrow> bool" where
  "same_call fr fr' \<longleftrightarrow> fr_fn fr' = fr_fn fr \<and> fr_obj fr' = fr_obj fr \<and>
     fr_userinfo fr' = fr_userinfo fr"

lemma goto_simps [simp]:
  "fr_fn (goto p fr) = fr_fn fr" "fr_obj (goto p fr) = fr_obj fr"
  "fr_userinfo (goto p fr) = fr_userinfo fr" "fr_pc (goto p fr) = p"
  "fr_actual (goto p fr) = fr_actual fr"
  by (simp_all add: goto_def)

lemma new_frame_simps [simp]:
  "fr_fn (new_frame f ob ui) = f" "fr_obj (new_frame f ob ui) = ob"
  "fr_userinfo (new_frame f ob ui) = ui" "fr_pc (new_frame f ob ui) = P_cas"
  by (simp_all add: new_frame_def)

context atomic_backend
begin

lemma compare_and_swap_flagE:
  assumes "v \<noteq> e"
  obtains m' where "mulle_atomic_pointer_compare_and_swap B nd t a v e m =
      Inr (c_bool (cells m a = e), m')" and "cells m' = cas_result m a v e"
  using assms that
  by (cases "be_pointer_cas B nd t a v e m")
    (auto simp: atomic_api_defs dest: cas_no_fault cas_flag)

text \<open>Every function follows the protocol and touches no other cell.\<close>

lemma once_fn_step_refines:
  assumes step: "once_fn_step B nd t fr m = (fr', m')"
    and ok: "frame_ok (cells m (once_addr fr)) fr" and pc: "fr_pc fr \<noteq> P_ret"
  shows "same_call fr fr' \<and>
    once_trans (blocking (fr_fn fr)) (fr_pc fr) (fr_actual fr) (cells m (once_addr fr))
      (fr_pc fr') (fr_actual fr') (cells m' (once_addr fr)) \<and>
    (\<forall>a. a \<noteq> once_addr fr \<longrightarrow> cells m' a = cells m a)"
proof -
  obtain m1 where acq: "mulle_atomic_pointer_compare_and_swap B nd t (once_addr fr)
      MULLE_THREAD_ONCE_BUSY MULLE_THREAD_ONCE_DATA m =
      Inr (c_bool (cells m (once_addr fr) = MULLE_THREAD_ONCE_DATA), m1)"
    and acq_cells: "cells m1 =
      cas_result m (once_addr fr) MULLE_THREAD_ONCE_BUSY MULLE_THREAD_ONCE_DATA"
    by (rule compare_and_swap_flagE [OF once_flags_distinct(2)])
  obtain m2 where pub: "mulle_atomic_pointer_compare_and_swap B nd t (once_addr fr)
      MULLE_THREAD_ONCE_DONE MULLE_THREAD_ONCE_BUSY m =
      Inr (c_bool (cells m (once_addr fr) = MULLE_THREAD_ONCE_BUSY), m2)"
    and pub_cells: "cells m2 =
      cas_result m (once_addr fr) MULLE_THREAD_ONCE_DONE MULLE_THREAD_ONCE_BUSY"
    by (rule compare_and_swap_flagE [OF once_flags_distinct(6)])
  note defs = Let_def case_prod_beta once_init_eq_data same_call_def
    mulle_atomic_pointer_compare_and_swap_actual_def acq pub
    cas_result_def frame_ok_def blocking_def once_trans_simps
  show ?thesis
  proof (cases "fr_pc fr")
    case P_cas
    then show ?thesis using step ok acq_cells
      by (cases "fr_fn fr") (auto simp: once_fn_defs defs split: if_splits)
  next
    case P_publish
    then show ?thesis using step ok pub_cells
      by (cases "fr_fn fr") (auto simp: once_fn_defs defs split: if_splits)
  qed (use step ok pc in
    \<open>cases "fr_fn fr"; auto simp: once_fn_defs defs split: if_splits\<close>)+
qed

end

end
