(* ===== verification/Once_Invariant.thy ===== *)
theory Once_Invariant
  imports Once
begin

text \<open>
  The invariant of one-time initialization over a plain once flag, for any atomic backend:
  what each activation may assume about the flag at the point it has reached, who owns the
  initialization, and how often \<open>init\<close> has been called and has returned. It is proved over
  the protocol rules of theory \<open>Once\<close> and lifted to every reachable state.
\<close>

subsection \<open>The invariant\<close>

text \<open>The frames that hold the initialization of flag \<open>ob\<close>: those that won the exchange and
  have not published yet.\<close>

definition owner_frame :: "nat \<Rightarrow> frame \<Rightarrow> bool" where
  "owner_frame ob fr \<longleftrightarrow> fr_obj fr = ob \<and> fr_actual fr = MULLE_THREAD_ONCE_DATA \<and>
     fr_pc fr \<in> {P_call_init, P_in_init, P_barrier, P_publish}"

definition owned :: "nat \<Rightarrow> frame list \<Rightarrow> nat" where
  "owned ob st = length (filter (owner_frame ob) st)"

lemma owned_simps [simp]:
  "owned ob [] = 0"
  "owned ob (fr # st) = (if owner_frame ob fr then Suc (owned ob st) else owned ob st)"
  by (simp_all add: owned_def)

lemma owned_zero_iff: "owned ob st = 0 \<longleftrightarrow> (\<forall>fr \<in> set st. \<not> owner_frame ob fr)"
  by (auto simp: owned_def filter_empty_conv)

text \<open>How often \<open>init\<close> has been called and has returned when the owner is at a point.\<close>

definition calls_at :: "once_pc \<Rightarrow> nat" where
  "calls_at p = (if p = P_call_init then 0 else 1)"

definition rets_at :: "once_pc \<Rightarrow> nat" where
  "rets_at p = (if p \<in> {P_call_init, P_in_init} then 0 else 1)"

definition flag_of :: "once_sys \<Rightarrow> nat \<Rightarrow> ptr" where
  "flag_of s ob = cells (os_mem s) (ob, 0)"

lemma flag_of_stk [simp]: "flag_of (s\<lparr>os_stk := f\<rparr>) = flag_of s"
  by (simp add: flag_of_def fun_eq_iff)

text \<open>The three phases of a flag: fresh, with nothing started; busy, with exactly one owner
  frame in all stacks, and the histories as that frame's point says; done, without owner,
  and \<open>init\<close> called once and returned once.\<close>

definition flag_inv :: "once_sys \<Rightarrow> nat \<Rightarrow> bool" where
  "flag_inv s ob \<longleftrightarrow>
     (flag_of s ob = MULLE_THREAD_ONCE_DATA \<and> os_calls s ob = [] \<and> os_rets s ob = [] \<and>
        (\<forall>t. owned ob (os_stk s t) = 0)) \<or>
     (flag_of s ob = MULLE_THREAD_ONCE_BUSY \<and>
        (\<exists>t. owned ob (os_stk s t) = 1 \<and> (\<forall>t'. t' \<noteq> t \<longrightarrow> owned ob (os_stk s t') = 0)) \<and>
        (\<forall>t. \<forall>fr \<in> set (os_stk s t). owner_frame ob fr \<longrightarrow>
           length (os_calls s ob) = calls_at (fr_pc fr) \<and>
           length (os_rets s ob) = rets_at (fr_pc fr))) \<or>
     (flag_of s ob = MULLE_THREAD_ONCE_DONE \<and> length (os_calls s ob) = 1 \<and>
        length (os_rets s ob) = 1 \<and> (\<forall>t. owned ob (os_stk s t) = 0))"

definition stack_ok :: "once_sys \<Rightarrow> frame list \<Rightarrow> bool" where
  "stack_ok s st \<longleftrightarrow> (\<forall>fr \<in> set (tl st). fr_pc fr = P_in_init) \<and>
     (\<forall>fr \<in> set st. frame_ok (flag_of s (fr_obj fr)) fr)"

definition once_inv :: "once_sys \<Rightarrow> bool" where
  "once_inv s \<longleftrightarrow> (\<forall>ob. flag_inv s ob) \<and> (\<forall>t. stack_ok s (os_stk s t))"

lemma once_start_inv: "once_start s \<Longrightarrow> once_inv s"
  by (simp add: once_start_def once_inv_def flag_inv_def flag_of_def stack_ok_def
    once_init_eq_data)

lemma flag_inv_cong:
  assumes "flag_inv s ob" and "flag_of s' ob = flag_of s ob" and "os_calls s' ob = os_calls s ob"
    and "os_rets s' ob = os_rets s ob"
    and own: "\<And>t. filter (owner_frame ob) (os_stk s' t) = filter (owner_frame ob) (os_stk s t)"
  shows "flag_inv s' ob"
proof -
  have owned: "owned ob (os_stk s' t) = owned ob (os_stk s t)" for t
    by (simp add: owned_def own)
  have mem: "fr \<in> set (os_stk s' t) \<and> owner_frame ob fr \<longleftrightarrow>
      fr \<in> set (os_stk s t) \<and> owner_frame ob fr" for fr t
    using arg_cong [OF own [of t], of set] by auto
  show ?thesis
    using assms(1) mem unfolding flag_inv_def owned assms(2,3,4) by meson
qed

lemma once_invoke_inv:
  assumes inv: "once_inv s" and "once_exec B nd (Invoke t f ob ui) s = Some s'"
  shows "once_inv s'"
proof -
  have s': "s' = s\<lparr>os_stk := (os_stk s)(t := new_frame f ob ui # os_stk s t)\<rparr>"
    and may: "may_call (os_stk s t)"
    using assms(2) by (auto split: if_splits)
  have flag: "flag_of s' = flag_of s" by (simp add: s' flag_of_def fun_eq_iff)
  have no: "\<not> owner_frame ob' (new_frame f ob ui)" for ob'
    by (simp add: owner_frame_def)
  have st: "stack_ok s (os_stk s t')" for t'
    using inv by (simp add: once_inv_def)
  have "\<forall>fr \<in> set (os_stk s t). fr_pc fr = P_in_init"
    using st [of t] may by (cases "os_stk s t") (auto simp: stack_ok_def may_call_def)
  then have "stack_ok s' (os_stk s' t')" for t'
    using st [of t'] unfolding stack_ok_def flag by (auto simp: s' new_frame_ok)
  moreover have "flag_inv s' ob'" for ob'
    by (rule flag_inv_cong [of s]) (use inv in \<open>auto simp: once_inv_def flag no s'\<close>)
  ultimately show ?thesis by (simp add: once_inv_def)
qed

text \<open>What one step of the protocol does to the flag and to ownership.\<close>

lemma once_trans_flag:
  "once_trans b p a w p' a' w' \<Longrightarrow> w' = w \<or> w \<noteq> MULLE_THREAD_ONCE_DONE"
  by (auto elim: once_transE)

lemma once_trans_frame_ok:
  assumes "once_trans (blocking (fr_fn fr)) (fr_pc fr) (fr_actual fr) w (fr_pc fr') (fr_actual fr') w'"
    and "same_call fr fr'" and "frame_ok w fr"
    and "owner_frame (fr_obj fr) fr \<Longrightarrow> w = MULLE_THREAD_ONCE_BUSY"
  shows "frame_ok w' fr'"
  using assms
  by (cases "fr_pc fr")
    (auto simp: once_trans_simps frame_ok_def same_call_def owner_frame_def)

lemma once_trans_owner:
  assumes "once_trans b (fr_pc fr) (fr_actual fr) MULLE_THREAD_ONCE_BUSY (fr_pc fr') (fr_actual fr') w'"
    and "same_call fr fr'" and "owner_frame ob fr"
  shows "(fr_pc fr = P_publish \<and> fr_pc fr' = P_ret \<and> w' = MULLE_THREAD_ONCE_DONE) \<or>
    (owner_frame ob fr' \<and> w' = MULLE_THREAD_ONCE_BUSY \<and>
      (fr_pc fr, fr_pc fr') \<in> {(P_call_init, P_in_init), (P_in_init, P_barrier), (P_barrier, P_publish)})"
  using assms
  by (auto simp: owner_frame_def once_trans_simps same_call_def)

lemma once_trans_not_owner:
  assumes "once_trans b (fr_pc fr) (fr_actual fr) w (fr_pc fr') (fr_actual fr') w'"
    and "same_call fr fr'" and "frame_ok w fr" and "\<not> owner_frame (fr_obj fr) fr"
  shows "(w = MULLE_THREAD_ONCE_DATA \<and> w' = MULLE_THREAD_ONCE_BUSY \<and> fr_pc fr = P_cas \<and>
      fr_pc fr' = P_call_init \<and> owner_frame (fr_obj fr) fr') \<or>
    (w' = w \<and> \<not> owner_frame (fr_obj fr) fr' \<and> fr_pc fr \<notin> {P_call_init, P_in_init})"
  using assms
  by (cases "fr_pc fr") (auto simp: owner_frame_def once_trans_simps same_call_def frame_ok_def)

lemma owner_frame_obj: "owner_frame ob fr \<Longrightarrow> fr_obj fr = ob"
  by (simp add: owner_frame_def)

lemma flag_inv_owner:
  assumes "flag_inv s ob" and "fr \<in> set (os_stk s t)" and "owner_frame ob fr"
  shows "flag_of s ob = MULLE_THREAD_ONCE_BUSY" and "owned ob (os_stk s t) = 1"
    and "t' \<noteq> t \<Longrightarrow> owned ob (os_stk s t') = 0"
    and "length (os_calls s ob) = calls_at (fr_pc fr)" and "length (os_rets s ob) = rets_at (fr_pc fr)"
proof -
  have "owned ob (os_stk s t) \<noteq> 0"
    using assms(2,3) by (auto simp: owned_zero_iff)
  moreover have "t' \<noteq> t \<Longrightarrow> owned ob (os_stk s t') = 0"
    if "owned ob (os_stk s t0) = 1" "\<forall>t'. t' \<noteq> t0 \<longrightarrow> owned ob (os_stk s t') = 0" for t0
    using that calculation by (metis)
  ultimately show "flag_of s ob = MULLE_THREAD_ONCE_BUSY" "owned ob (os_stk s t) = 1"
    "t' \<noteq> t \<Longrightarrow> owned ob (os_stk s t') = 0"
    "length (os_calls s ob) = calls_at (fr_pc fr)" "length (os_rets s ob) = rets_at (fr_pc fr)"
    using assms unfolding flag_inv_def by (metis One_nat_def)+
qed

text \<open>The state after a step of thread \<open>t\<close> in its top frame \<open>fr\<close>.\<close>

definition after_step :: "tid \<Rightarrow> frame \<Rightarrow> frame list \<Rightarrow> frame \<Rightarrow> mem \<Rightarrow> once_sys \<Rightarrow> once_sys" where
  "after_step t fr rest fr' m' s = s\<lparr>
     os_mem := m',
     os_stk := (os_stk s)(t := fr' # rest),
     os_calls := (if fr_pc fr = P_call_init
       then (os_calls s)(fr_obj fr := os_calls s (fr_obj fr) @ [(t, init_arg fr)]) else os_calls s),
     os_rets := (if fr_pc fr = P_in_init
       then (os_rets s)(fr_obj fr := os_rets s (fr_obj fr) @ [length (log m')]) else os_rets s)\<rparr>"

lemma once_exec_StepE:
  assumes "once_exec B nd (Step t) s = Some s'"
  obtains fr rest where "os_stk s t = fr # rest" and "fr_pc fr = P_ret"
      and "s' = s\<lparr>os_stk := (os_stk s)(t := rest)\<rparr>"
    | fr rest fr' m' where "os_stk s t = fr # rest" and "fr_pc fr \<noteq> P_ret" and "fr_pc fr \<noteq> P_abort"
      and "once_fn_step B nd t fr (os_mem s) = (fr', m')" and "s' = after_step t fr rest fr' m' s"
  using assms by (auto simp: after_step_def split: list.splits if_splits prod.splits)

lemma once_pop_inv:
  assumes inv: "once_inv s" and st: "os_stk s t = fr # rest" and "fr_pc fr = P_ret"
  shows "once_inv (s\<lparr>os_stk := (os_stk s)(t := rest)\<rparr>)" (is "once_inv ?s")
proof -
  have flag: "flag_of ?s = flag_of s" by (simp add: flag_of_def fun_eq_iff)
  have ok: "stack_ok s (os_stk s t')" for t'
    using inv by (simp add: once_inv_def)
  have "stack_ok ?s (os_stk ?s t')" for t'
    using ok [of t'] unfolding stack_ok_def flag
    by (cases "t' = t"; cases rest) (auto simp: st)
  moreover have "flag_inv ?s ob" for ob
    by (rule flag_inv_cong [of s])
      (use inv assms(3) in \<open>auto simp: once_inv_def flag st owner_frame_def\<close>)
  ultimately show ?thesis by (simp add: once_inv_def)
qed

lemma after_step_flag_inv:
  assumes inv: "flag_inv s ob" and st: "os_stk s t = fr # rest" and ob: "fr_obj fr = ob"
    and tr: "once_trans b (fr_pc fr) (fr_actual fr) (flag_of s ob)
      (fr_pc fr') (fr_actual fr') (cells m' (ob, 0))"
    and same: "same_call fr fr'" and ok: "frame_ok (flag_of s ob) fr"
  shows "flag_inv (after_step t fr rest fr' m' s) ob" (is "flag_inv ?s ob")
proof (cases "owner_frame ob fr")
  case True
  have mem: "fr \<in> set (os_stk s t)" by (simp add: st)
  note own = flag_inv_owner [OF inv mem True]
  have rest: "owned ob rest = 0" using own(2) True by (simp add: st)
  have only: "t' = t \<and> g = fr'" if "g \<in> set (os_stk ?s t')" "owner_frame ob g" for g t'
    using that own(3) [of t'] rest
    by (auto simp: after_step_def owned_zero_iff split: if_splits)
  from once_trans_owner [OF tr [unfolded own(1)] same True] show ?thesis
  proof (elim disjE conjE)
    assume p: "fr_pc fr = P_publish" "fr_pc fr' = P_ret"
      "cells m' (ob, 0) = MULLE_THREAD_ONCE_DONE"
    have "\<not> owner_frame ob fr'" by (simp add: owner_frame_def p)
    then have "owned ob (os_stk ?s t') = 0" for t'
      using own(3) [of t'] rest by (simp add: after_step_def)
    then show ?thesis using p own(4,5)
      by (simp add: flag_inv_def flag_of_def after_step_def calls_at_def rets_at_def)
  next
    assume p: "owner_frame ob fr'" "cells m' (ob, 0) = MULLE_THREAD_ONCE_BUSY"
      "(fr_pc fr, fr_pc fr') \<in>
        {(P_call_init, P_in_init), (P_in_init, P_barrier), (P_barrier, P_publish)}"
    have "owned ob (os_stk ?s t) = 1" "t' \<noteq> t \<Longrightarrow> owned ob (os_stk ?s t') = 0" for t'
      using own(3) [of t'] rest p(1) by (simp_all add: after_step_def)
    moreover have "length (os_calls ?s ob) = calls_at (fr_pc fr')"
      "length (os_rets ?s ob) = rets_at (fr_pc fr')"
      using own(4,5) p(3) ob by (auto simp: after_step_def calls_at_def rets_at_def)
    moreover have "flag_of ?s ob = MULLE_THREAD_ONCE_BUSY"
      using p(2) by (simp add: flag_of_def after_step_def)
    ultimately show ?thesis
      unfolding flag_inv_def using only by blast
  qed
next
  case False
  from once_trans_not_owner [OF tr same ok] False ob
  consider (acquire) "flag_of s ob = MULLE_THREAD_ONCE_DATA"
      "cells m' (ob, 0) = MULLE_THREAD_ONCE_BUSY" "fr_pc fr = P_cas" "fr_pc fr' = P_call_init"
      "owner_frame ob fr'"
    | (keep) "cells m' (ob, 0) = flag_of s ob" "\<not> owner_frame ob fr'"
      "fr_pc fr \<notin> {P_call_init, P_in_init}"
    by auto
  then show ?thesis
  proof cases
    case acquire
    then have zero: "os_calls s ob = []" "os_rets s ob = []" "\<And>t. owned ob (os_stk s t) = 0"
      using inv by (auto simp: flag_inv_def)
    then have all: "owned ob rest = 0" "\<And>t. owned ob (os_stk s t) = 0"
      using zero(3) [of t] False by (auto simp: st)
    have only: "t' = t \<and> g = fr'" if "g \<in> set (os_stk ?s t')" "owner_frame ob g" for g t'
      using that all(2) [of t'] all(1)
      by (auto simp: after_step_def owned_zero_iff split: if_splits)
    have "owned ob (os_stk ?s t) = 1" "t' \<noteq> t \<Longrightarrow> owned ob (os_stk ?s t') = 0" for t'
      using all acquire(5) by (simp_all add: after_step_def)
    moreover have "length (os_calls ?s ob) = calls_at (fr_pc fr')"
      "length (os_rets ?s ob) = rets_at (fr_pc fr')"
      using zero acquire by (auto simp: after_step_def calls_at_def rets_at_def)
    moreover have "flag_of ?s ob = MULLE_THREAD_ONCE_BUSY"
      using acquire(2) by (simp add: flag_of_def after_step_def)
    ultimately show ?thesis
      unfolding flag_inv_def using only by blast
  next
    case keep
    then show ?thesis
      by (intro flag_inv_cong [OF inv]) (use False in \<open>auto simp: after_step_def flag_of_def st\<close>)
  qed
qed

context atomic_backend
begin

lemma once_step_inv:
  assumes inv: "once_inv s" and st: "os_stk s t = fr # rest" and pc: "fr_pc fr \<noteq> P_ret"
    and step: "once_fn_step B nd t fr (os_mem s) = (fr', m')"
  shows "once_inv (after_step t fr rest fr' m' s)" (is "once_inv ?s")
proof -
  define ob where "ob = fr_obj fr"
  have fi: "flag_inv s ob'" and so: "stack_ok s (os_stk s t')" for ob' t'
    using inv by (auto simp: once_inv_def)
  have ok: "frame_ok (flag_of s ob) fr"
    using so [of t] by (simp add: st stack_ok_def ob_def)
  then have ok': "frame_ok (cells (os_mem s) (once_addr fr)) fr"
    by (simp add: flag_of_def once_addr_def ob_def)
  note ref = once_fn_step_refines [OF step ok' pc]
  have same: "same_call fr fr'" using ref by blast
  have tr: "once_trans (blocking (fr_fn fr)) (fr_pc fr) (fr_actual fr) (flag_of s ob)
      (fr_pc fr') (fr_actual fr') (flag_of ?s ob)"
    using ref by (simp add: flag_of_def once_addr_def ob_def after_step_def)
  have other: "flag_of ?s ob' = flag_of s ob'" if "ob' \<noteq> ob" for ob'
    using ref that by (simp add: flag_of_def once_addr_def ob_def after_step_def)
  have flags: "flag_inv ?s ob'" for ob'
  proof (cases "ob' = ob")
    case True
    then show ?thesis
      using after_step_flag_inv [OF fi st _ _ same, of ob] tr ok
      by (simp add: ob_def flag_of_def after_step_def)
  next
    case False
    then have "\<not> owner_frame ob' fr" "\<not> owner_frame ob' fr'"
      using same by (auto simp: owner_frame_def ob_def same_call_def)
    then show ?thesis
      by (intro flag_inv_cong [OF fi])
        (use False other in \<open>auto simp: after_step_def st ob_def\<close>)
  qed
  have own: "owner_frame (fr_obj fr) fr \<Longrightarrow> flag_of s ob = MULLE_THREAD_ONCE_BUSY"
    using flag_inv_owner(1) [OF fi, of fr t] st by (simp add: ob_def)
  have ok_new: "frame_ok (flag_of ?s (fr_obj fr')) fr'"
    using once_trans_frame_ok [OF tr same ok own] same by (simp add: same_call_def ob_def)
  have ok_other: "frame_ok (flag_of ?s (fr_obj g)) g" if "frame_ok (flag_of s (fr_obj g)) g" for g
    using that once_trans_flag [OF tr] other [of "fr_obj g"] frame_ok_not_DONE
    by (cases "fr_obj g = ob") auto
  have "stack_ok ?s (os_stk ?s t')" for t'
    using so [of t'] ok_new ok_other
    by (cases "t' = t") (auto simp: stack_ok_def after_step_def st)
  with flags show ?thesis by (simp add: once_inv_def)
qed

theorem once_reach_inv: "once_reach B nd s \<Longrightarrow> once_inv s"
proof (induction rule: once_reach.induct)
  case (reach_start s)
  then show ?case by (rule once_start_inv)
next
  case (reach_step s mv s')
  then show ?case
  proof (cases mv)
    case (Invoke t f ob ui)
    with reach_step show ?thesis by (auto intro: once_invoke_inv simp del: once_exec.simps)
  next
    case (Step t)
    with reach_step have "once_exec B nd (Step t) s = Some s'" by simp
    then show ?thesis
      by (cases rule: once_exec_StepE)
        (auto intro: once_pop_inv once_step_inv reach_step.IH)
  qed
qed

end

end
