(* ===== verification/Once_Properties.thy ===== *)
theory Once_Properties
  imports Once_Invariant
begin

text \<open>
  What one-time initialization guarantees its callers, over every interleaving: \<open>init\<close> runs
  at most once and alone, a blocking call returns only after it, the flag moves one way, no
  assertion fails, and a nested blocking call on the same flag never returns.
\<close>

subsection \<open>The phases of a flag\<close>

datatype once_phase = Fresh | Busy | Done

instantiation once_phase :: linorder
begin

fun rank_once_phase :: "once_phase \<Rightarrow> nat" where
  "rank_once_phase Fresh = 0"
| "rank_once_phase Busy = 1"
| "rank_once_phase Done = 2"

definition less_eq_once_phase :: "once_phase \<Rightarrow> once_phase \<Rightarrow> bool" where
  "less_eq_once_phase p q \<longleftrightarrow> rank_once_phase p \<le> rank_once_phase q"

definition less_once_phase :: "once_phase \<Rightarrow> once_phase \<Rightarrow> bool" where
  "less_once_phase p q \<longleftrightarrow> rank_once_phase p < rank_once_phase q"

instance
proof
  fix p q :: once_phase
  assume "p \<le> q" "q \<le> p"
  then show "p = q"
    by (cases p; cases q) (simp_all add: less_eq_once_phase_def)
qed (auto simp: less_eq_once_phase_def less_once_phase_def)

end

definition phase :: "ptr \<Rightarrow> once_phase option" where
  "phase w =
     (if w = MULLE_THREAD_ONCE_DATA then Some Fresh
      else if w = MULLE_THREAD_ONCE_BUSY then Some Busy
      else if w = MULLE_THREAD_ONCE_DONE then Some Done else None)"

lemma phase_simps [simp]:
  "phase MULLE_THREAD_ONCE_DATA = Some Fresh"
  "phase MULLE_THREAD_ONCE_BUSY = Some Busy"
  "phase MULLE_THREAD_ONCE_DONE = Some Done"
  by (simp_all add: phase_def)

lemma flag_inv_phase: "flag_inv s ob \<Longrightarrow> phase (flag_of s ob) \<noteq> None"
  by (auto simp: flag_inv_def)

text \<open>The points from which an activation waits for the flag or leaves after it.\<close>

definition wait_dist :: "once_pc \<Rightarrow> nat" where
  "wait_dist p = (case p of P_yield \<Rightarrow> 5 | P_read \<Rightarrow> 4 | P_wait_barrier \<Rightarrow> 3
     | P_barrier \<Rightarrow> 2 | P_publish \<Rightarrow> 1 | _ \<Rightarrow> 0)"

definition owner_dist :: "once_pc \<Rightarrow> nat" where
  "owner_dist p = (case p of P_call_init \<Rightarrow> 4 | P_in_init \<Rightarrow> 3 | P_barrier \<Rightarrow> 2 | P_publish \<Rightarrow> 1
     | _ \<Rightarrow> 0)"

definition waiting :: "nat \<Rightarrow> frame \<Rightarrow> bool" where
  "waiting ob fr \<longleftrightarrow> fr_obj fr = ob \<and> blocking (fr_fn fr) \<and>
     fr_actual fr \<noteq> MULLE_THREAD_ONCE_DATA \<and>
     fr_pc fr \<in> {P_yield, P_read, P_wait_barrier, P_barrier, P_publish}"

lemma once_run_append:
  "once_run B nd (xs @ ys) s =
     (case once_run B nd xs s of None \<Rightarrow> None | Some s1 \<Rightarrow> once_run B nd ys s1)"
  by (induction xs arbitrary: s) (auto split: option.splits)

text \<open>A move of one thread leaves the stack of another alone.\<close>

fun mover :: "once_move \<Rightarrow> tid" where
  "mover (Invoke t f ob ui) = t"
| "mover (Step t) = t"

lemma once_exec_other:
  "once_exec B nd mv s = Some s' \<Longrightarrow> mover mv \<noteq> t \<Longrightarrow> os_stk s' t = os_stk s t"
  by (cases mv) (auto split: if_splits list.splits prod.splits)

lemma invoke_needs_init:
  "once_exec B nd (Invoke t f ob ui) s = Some s' \<Longrightarrow> os_stk s t = fr # rest \<Longrightarrow>
     fr_pc fr = P_in_init"
  by (auto simp: may_call_def split: if_splits)

text \<open>A thread waiting for a flag whose initialization it owns itself.\<close>

definition self_wait :: "nat \<Rightarrow> tid \<Rightarrow> frame list \<Rightarrow> once_sys \<Rightarrow> bool" where
  "self_wait ob t rest s \<longleftrightarrow> (\<exists>fr g. os_stk s t = fr # rest \<and> waiting ob fr \<and>
     fr_pc fr \<in> {P_yield, P_read} \<and> g \<in> set rest \<and> owner_frame ob g)"

text \<open>The flag only moves from DATA to BUSY and from BUSY to DONE.\<close>

lemma once_trans_moves:
  "once_trans b p a w p' a' w' \<Longrightarrow> w' = w \<or>
     (w = MULLE_THREAD_ONCE_DATA \<and> w' = MULLE_THREAD_ONCE_BUSY) \<or>
     (w = MULLE_THREAD_ONCE_BUSY \<and> w' = MULLE_THREAD_ONCE_DONE)"
  by (erule once_transE) simp_all

context atomic_backend
begin

lemma once_exec_inv:
  assumes "once_inv s" and "once_exec B nd mv s = Some s'"
  shows "once_inv s'"
proof (cases mv)
  case (Invoke t f ob ui)
  with assms show ?thesis by (auto intro: once_invoke_inv simp del: once_exec.simps)
next
  case (Step t)
  with assms have "once_exec B nd (Step t) s = Some s'" by simp
  then show ?thesis
    by (cases rule: once_exec_StepE) (auto intro: once_pop_inv once_step_inv assms(1))
qed

lemma once_run_inv: "once_inv s \<Longrightarrow> once_run B nd mvs s = Some s' \<Longrightarrow> once_inv s'"
  by (induction mvs arbitrary: s) (auto split: option.splits intro: once_exec_inv)

text \<open>A step in the middle of a function, seen through the protocol.\<close>

lemma once_step_trans:
  assumes inv: "once_inv s" and st: "os_stk s t = fr # rest"
    and pc: "fr_pc fr \<noteq> P_ret" and ex: "once_exec B nd (Step t) s = Some s'"
  obtains fr' where "os_stk s' t = fr' # rest" and "same_call fr fr'"
    and "once_trans (blocking (fr_fn fr)) (fr_pc fr) (fr_actual fr) (flag_of s (fr_obj fr))
      (fr_pc fr') (fr_actual fr') (flag_of s' (fr_obj fr))"
    and "\<forall>ob. ob \<noteq> fr_obj fr \<longrightarrow> flag_of s' ob = flag_of s ob"
proof -
  have ok: "frame_ok (flag_of s (fr_obj fr)) fr"
    using inv st by (auto simp: once_inv_def stack_ok_def dest: spec [of _ t])
  from ex show ?thesis
  proof (cases rule: once_exec_StepE)
    case (2 g rest' fr' m')
    with st have eq: "g = fr" "rest' = rest" by auto
    note ref = once_fn_step_refines [OF 2(4) _ 2(2)]
    show ?thesis
      using that [of fr'] ref ok 2(5) eq
      by (simp add: flag_of_def once_addr_def after_step_def)
  qed (use st pc in auto)
qed

lemma frame_ok_top:
  "once_inv s \<Longrightarrow> os_stk s t = fr # rest \<Longrightarrow> frame_ok (flag_of s (fr_obj fr)) fr"
  by (auto simp: once_inv_def stack_ok_def dest: spec [of _ t])

lemma step_enabled:
  assumes "once_inv s" and "os_stk s t = fr # rest"
  shows "\<exists>s'. once_exec B nd (Step t) s = Some s'"
proof -
  have "fr_pc fr \<noteq> P_abort" using frame_ok_top [OF assms] by (auto simp: frame_ok_def)
  then show ?thesis
    by (cases "once_fn_step B nd t fr (os_mem s)") (simp add: assms(2))
qed

lemma owner_top:
  assumes inv: "once_inv s" and st: "os_stk s t = fr # rest" and own: "owner_frame ob fr"
  shows "flag_of s ob = MULLE_THREAD_ONCE_BUSY"
  using flag_inv_owner(1) [of s ob fr t] inv st own by (simp add: once_inv_def)

lemma once_exec_phase:
  assumes inv: "once_inv s" and ex: "once_exec B nd mv s = Some s'"
  shows "the (phase (flag_of s ob)) \<le> the (phase (flag_of s' ob))"
proof (cases mv)
  case (Invoke t f ob' ui)
  with ex show ?thesis by (auto split: if_splits)
next
  case (Step t)
  with ex have ex: "once_exec B nd (Step t) s = Some s'" by simp
  show ?thesis
  proof (cases "\<exists>fr rest. os_stk s t = fr # rest \<and> fr_pc fr \<noteq> P_ret")
    case True
    then obtain fr rest where st: "os_stk s t = fr # rest" and pc: "fr_pc fr \<noteq> P_ret" by auto
    obtain fr' where "os_stk s' t = fr' # rest" and "same_call fr fr'"
      and tr: "once_trans (blocking (fr_fn fr)) (fr_pc fr) (fr_actual fr)
        (flag_of s (fr_obj fr)) (fr_pc fr') (fr_actual fr') (flag_of s' (fr_obj fr))"
      and other: "\<forall>ob. ob \<noteq> fr_obj fr \<longrightarrow> flag_of s' ob = flag_of s ob"
      using once_step_trans [OF inv st pc ex] by blast
    show ?thesis
    proof (cases "ob = fr_obj fr")
      case True
      from once_trans_moves [OF tr] show ?thesis
        unfolding True by (elim disjE conjE) (simp_all add: less_eq_once_phase_def)
    qed (simp add: other)
  next
    case False
    with ex show ?thesis
      by (cases rule: once_exec_StepE) auto
  qed
qed

lemma once_run_phase:
  "once_inv s \<Longrightarrow> once_run B nd mvs s = Some s' \<Longrightarrow>
     the (phase (flag_of s ob)) \<le> the (phase (flag_of s' ob))"
proof (induction mvs arbitrary: s)
  case (Cons mv mvs)
  then obtain s1 where s1: "once_exec B nd mv s = Some s1" "once_run B nd mvs s1 = Some s'"
    by (auto split: option.splits)
  with Cons once_exec_inv once_exec_phase show ?case by (meson order_trans)
qed simp

lemma done_stays:
  assumes "once_inv s" and "once_exec B nd mv s = Some s'"
    and "flag_of s ob = MULLE_THREAD_ONCE_DONE"
  shows "flag_of s' ob = MULLE_THREAD_ONCE_DONE"
proof -
  have "phase (flag_of s' ob) \<noteq> None"
    using once_exec_inv [OF assms(1,2)] by (simp add: once_inv_def flag_inv_phase)
  moreover have "Done \<le> the (phase (flag_of s' ob))"
    using once_exec_phase [OF assms(1,2), of ob] assms(3) by simp
  ultimately show ?thesis
    by (auto simp: phase_def less_eq_once_phase_def split: if_splits)
qed

lemma once_inv_histories:
  "once_inv s \<Longrightarrow> length (os_rets s ob) \<le> length (os_calls s ob) \<and> length (os_calls s ob) \<le> 1"
proof -
  assume "once_inv s"
  then have inv: "flag_inv s ob" by (simp add: once_inv_def)
  show ?thesis
  proof (cases "\<exists>t. owned ob (os_stk s t) \<noteq> 0")
    case True
    then obtain t fr where "fr \<in> set (os_stk s t)" "owner_frame ob fr"
      by (auto simp: owned_zero_iff)
    from flag_inv_owner(4,5) [OF inv this] show ?thesis
      by (simp add: calls_at_def rets_at_def)
  next
    case False
    with inv show ?thesis by (auto simp: flag_inv_def)
  qed
qed

lemma once_ret_done:
  assumes inv: "once_inv s" and st: "os_stk s t = fr # rest" and pc: "fr_pc fr = P_ret"
    and b: "blocking (fr_fn fr)"
  shows "flag_of s (fr_obj fr) = MULLE_THREAD_ONCE_DONE \<and>
    length (os_calls s (fr_obj fr)) = 1 \<and> length (os_rets s (fr_obj fr)) = 1"
proof -
  have "flag_of s (fr_obj fr) = MULLE_THREAD_ONCE_DONE"
    using frame_ok_top [OF inv st] pc b by (simp add: frame_ok_def)
  then show ?thesis using inv by (auto simp: once_inv_def flag_inv_def dest!: spec [of _ "fr_obj fr"])
qed

text \<open>Waiters: a step of the waiter stays in the wait or reaches the return, and once the
  flag is DONE every step of it counts; other threads don't matter.\<close>

lemma waiting_step:
  assumes inv: "once_inv s" and st: "os_stk s t = fr # rest" and w: "waiting ob fr"
    and ex: "once_exec B nd (Step t) s = Some s'"
  obtains fr' where "os_stk s' t = fr' # rest" and "waiting ob fr' \<or> fr_pc fr' = P_ret"
    and "flag_of s ob = MULLE_THREAD_ONCE_DONE \<Longrightarrow> Suc (wait_dist (fr_pc fr')) \<le> wait_dist (fr_pc fr)"
proof -
  have pc: "fr_pc fr \<noteq> P_ret" using w by (auto simp: waiting_def)
  obtain fr' where fr': "os_stk s' t = fr' # rest" "same_call fr fr'"
    "once_trans (blocking (fr_fn fr)) (fr_pc fr) (fr_actual fr) (flag_of s (fr_obj fr))
      (fr_pc fr') (fr_actual fr') (flag_of s' (fr_obj fr))"
    using once_step_trans [OF inv st pc ex] by blast
  show ?thesis
    by (rule that [OF fr'(1)])
      (use fr'(2,3) w in \<open>auto simp: waiting_def same_call_def once_trans_simps wait_dist_def\<close>)
qed

text \<open>The owner: each of its steps brings it nearer to the store of DONE.\<close>

lemma owner_step:
  assumes inv: "once_inv s" and st: "os_stk s t = fr # rest" and own: "owner_frame ob fr"
    and ex: "once_exec B nd (Step t) s = Some s'"
  shows "flag_of s' ob = MULLE_THREAD_ONCE_DONE \<or>
    (\<exists>fr'. os_stk s' t = fr' # rest \<and> owner_frame ob fr' \<and>
      Suc (owner_dist (fr_pc fr')) = owner_dist (fr_pc fr))"
proof -
  have pc: "fr_pc fr \<noteq> P_ret" and ob: "fr_obj fr = ob" using own by (auto simp: owner_frame_def)
  obtain fr' where fr': "os_stk s' t = fr' # rest" "same_call fr fr'"
    "once_trans (blocking (fr_fn fr)) (fr_pc fr) (fr_actual fr) (flag_of s ob)
      (fr_pc fr') (fr_actual fr') (flag_of s' ob)"
    using once_step_trans [OF inv st pc ex] ob by blast
  from once_trans_owner [OF fr'(3) [unfolded owner_top [OF inv st own]] fr'(2) own] fr'(1)
  show ?thesis by (auto simp: owner_dist_def)
qed

lemma self_wait_busy:
  assumes "once_inv s" and "self_wait ob t rest s"
  shows "flag_of s ob = MULLE_THREAD_ONCE_BUSY"
proof -
  obtain fr g where "os_stk s t = fr # rest" "g \<in> set rest" "owner_frame ob g"
    using assms(2) by (auto simp: self_wait_def)
  then show ?thesis
    using assms(1) flag_inv_owner(1) [of s ob g t] by (simp add: once_inv_def)
qed

lemma self_wait_step:
  assumes inv: "once_inv s" and sw: "self_wait ob t rest s" and ex: "once_exec B nd mv s = Some s'"
  shows "self_wait ob t rest s'"
proof (cases "mover mv = t")
  case False
  with once_exec_other [OF ex False] sw show ?thesis by (simp add: self_wait_def)
next
  case True
  obtain fr g where fr: "os_stk s t = fr # rest" "waiting ob fr" "fr_pc fr \<in> {P_yield, P_read}"
    and g: "g \<in> set rest" "owner_frame ob g"
    using sw by (auto simp: self_wait_def)
  have pc: "fr_pc fr \<noteq> P_in_init" "fr_pc fr \<noteq> P_ret" and ob: "fr_obj fr = ob"
    using fr by (auto simp: waiting_def)
  with True invoke_needs_init [OF _ fr(1)] ex have mv: "mv = Step t"
    by (cases mv) (auto simp del: once_exec.simps)
  obtain fr' where fr': "os_stk s' t = fr' # rest" "same_call fr fr'"
    "once_trans (blocking (fr_fn fr)) (fr_pc fr) (fr_actual fr) MULLE_THREAD_ONCE_BUSY
      (fr_pc fr') (fr_actual fr') (flag_of s' ob)"
    using once_step_trans [OF inv fr(1) pc(2) ex [unfolded mv]] ob
      self_wait_busy [OF inv sw] by metis
  then have "waiting ob fr' \<and> fr_pc fr' \<in> {P_yield, P_read}"
    using fr(2,3) by (auto simp: waiting_def same_call_def once_trans_simps)
  with fr'(1) g show ?thesis by (auto simp: self_wait_def)
qed

lemma self_wait_run:
  "once_inv s \<Longrightarrow> self_wait ob t rest s \<Longrightarrow> once_run B nd mvs s = Some s' \<Longrightarrow>
     self_wait ob t rest s' \<and> flag_of s' ob = MULLE_THREAD_ONCE_BUSY"
proof (induction mvs arbitrary: s)
  case (Cons mv mvs)
  then show ?case
    by (auto split: option.splits simp del: once_exec.simps
      intro: once_exec_inv self_wait_step)
qed (auto simp: self_wait_busy)

lemma self_wait_start:
  assumes inv: "once_inv s" and st: "os_stk s t = g # rest" and own: "owner_frame ob g"
    and "fr_pc g = P_in_init" and "blocking f"
    and ex: "once_run B nd [Invoke t f ob ui, Step t] s = Some s'"
  shows "self_wait ob t (g # rest) s' \<and> once_inv s'"
proof -
  obtain s1 where s1: "once_exec B nd (Invoke t f ob ui) s = Some s1"
    and s': "once_exec B nd (Step t) s1 = Some s'"
    using ex by (auto simp del: once_exec.simps split: option.splits)
  note inv1 = once_invoke_inv [OF inv s1]
  have st1: "os_stk s1 t = new_frame f ob ui # g # rest"
    and busy: "flag_of s1 ob = MULLE_THREAD_ONCE_BUSY"
    using s1 st owner_top [OF inv st own] by (auto split: if_splits)
  obtain fr' where fr': "os_stk s' t = fr' # g # rest" "same_call (new_frame f ob ui) fr'"
    "once_trans True P_cas (fr_actual (new_frame f ob ui)) MULLE_THREAD_ONCE_BUSY
      (fr_pc fr') (fr_actual fr') (flag_of s' ob)"
    using once_step_trans [OF inv1 st1 _ s'] assms(5) busy by auto
  then have "waiting ob fr'" "fr_pc fr' \<in> {P_yield, P_read}"
    using assms(5) by (auto simp: waiting_def same_call_def once_trans_simps)
  with fr'(1) own once_exec_inv [OF inv1 s'] show ?thesis
    by (auto simp: self_wait_def)
qed

end


lemma frame_ok_abort: "frame_ok w fr \<Longrightarrow> fr_pc fr \<noteq> P_abort"
  by (auto simp: frame_ok_def)

subsection \<open>Properties of one-time initialization\<close>

text \<open>Concrete runs on flag 0: thread 1 initializes while thread 2 waits.\<close>

definition example_run :: "once_move list" where
  "example_run = [Invoke 1 Once 0 0, Step 1, Invoke 2 Once_call 0 7, Step 2, Step 1]"

definition example_finish :: "once_move list" where
  "example_finish = [Step 2, Step 1, Step 2, Step 1, Step 2, Step 1]"

definition example_view :: "once_sys \<Rightarrow> once_pc list \<times> once_pc list \<times> ptr \<times> nat \<times> nat" where
  "example_view s = (map fr_pc (os_stk s 1), map fr_pc (os_stk s 2), flag_of s 0,
     length (os_calls s 0), length (os_rets s 0))"

lemma example_run_view:
  "map_option example_view (once_run c11_backend False example_run once_init_sys) =
     Some ([P_in_init], [P_yield], 1848, 1, 0)"
  by code_simp

lemma example_finish_view:
  "map_option example_view (once_run c11_backend False (example_run @ example_finish) once_init_sys) =
     Some ([P_ret], [P_read], 1, 1, 1)"
  by code_simp


definition example_final :: "once_move list" where
  "example_final = example_run @ example_finish @ [Step 2, Step 2]"

lemma example_final_view:
  "map_option example_view (once_run c11_backend False example_final once_init_sys) =
     Some ([P_ret], [P_ret], 1, 1, 1)"
  by code_simp

lemma example_run_reach:
  obtains s where "once_reach c11_backend False s" and "example_view s = ([P_in_init], [P_yield], 1848, 1, 0)"
    and "once_run c11_backend False example_run once_init_sys = Some s"
  using example_run_view once_run_reach [OF once_init_reach] by blast

lemma example_final_reach:
  obtains s where "once_reach c11_backend False s" and "example_view s = ([P_ret], [P_ret], 1, 1, 1)"
    and "once_run c11_backend False example_final once_init_sys = Some s"
  using example_final_view once_run_reach [OF once_init_reach] by blast

text \<open>Every function of the family (\<open>mulle_thread_once\<close>, \<open>mulle_thread_once_call\<close>,
  their non-blocking variants and the two macros), compiled over the C11 backend, refines the
  abstract protocol \<open>once_trans\<close>: each of its steps is a step of the protocol, keeps the
  arguments of the call and touches no other memory.\<close>

theorem once_functions_refine_protocol:
  assumes "once_fn_step c11_backend nd t fr m = (fr', m')"
    and "frame_ok (cells m (once_addr fr)) fr" and "fr_pc fr \<noteq> P_ret"
  shows "same_call fr fr' \<and>
    once_trans (blocking (fr_fn fr)) (fr_pc fr) (fr_actual fr) (cells m (once_addr fr))
      (fr_pc fr') (fr_actual fr') (cells m' (once_addr fr)) \<and>
    (\<forall>a. a \<noteq> once_addr fr \<longrightarrow> cells m' a = cells m a)"
  by (rule c11.once_fn_step_refines [OF assms])

theorem once_functions_refine_protocol_witness:
  "\<exists>fr'. once_trans True P_cas 0 0 P_call_init fr' 1848"
proof -
  obtain fr' m' where st: "once_fn_step c11_backend False 1 (new_frame Once 0 0)
      \<lparr>cells = (\<lambda>_. 0), log = []\<rparr> = (fr', m')"
    by (cases "once_fn_step c11_backend False 1 (new_frame Once 0 0) \<lparr>cells = (\<lambda>_. 0), log = []\<rparr>")
  have v: "(fr_pc (fst r), cells (snd r) (0, 0)) = (P_call_init, 1848)"
    if "r = once_fn_step c11_backend False 1 (new_frame Once 0 0) \<lparr>cells = (\<lambda>_. 0), log = []\<rparr>" for r
    unfolding that by code_simp
  have "fr_pc fr' = P_call_init" "cells m' (0, 0) = 1848"
    using v [OF st [symmetric]] by simp_all
  moreover have "blocking Once" "fr_actual (new_frame Once 0 0) = 0"
    by (simp_all add: blocking_def new_frame_def)
  ultimately show ?thesis
    using once_functions_refine_protocol [OF st new_frame_ok] by (auto simp: once_addr_def)
qed

text \<open>C1: whatever the threads do, \<open>init\<close> of a flag is called at most once in the life of the
  program, and returns at most as often as it was called.\<close>

theorem once_init_at_most_once:
  assumes "once_reach c11_backend nd s"
  shows "length (os_rets s ob) \<le> length (os_calls s ob) \<and> length (os_calls s ob) \<le> 1"
  using c11.once_inv_histories [OF c11.once_reach_inv [OF assms]] .

theorem once_init_at_most_once_witness:
  "\<exists>s. once_run c11_backend False example_final once_init_sys = Some s \<and> os_calls s 0 \<noteq> [] \<and>
     length (os_rets s 0) \<le> length (os_calls s 0) \<and> length (os_calls s 0) \<le> 1"
proof -
  obtain s where s: "once_reach c11_backend False s" "example_view s = ([P_ret], [P_ret], 1, 1, 1)"
    "once_run c11_backend False example_final once_init_sys = Some s"
    by (rule example_final_reach)
  have "os_calls s 0 \<noteq> []" using s(2) by (auto simp: example_view_def)
  then show ?thesis using once_init_at_most_once [OF s(1), of 0] s(3) by blast
qed

text \<open>C2: a blocking call (\<open>mulle_thread_once\<close>, \<open>mulle_thread_once_call\<close>,
  \<open>mulle_thread_once_do\<close>) that returns finds the flag DONE, and \<open>init\<close> has been called
  exactly once and has returned.\<close>

theorem once_return_means_initialized:
  assumes "once_reach c11_backend nd s" and "os_stk s t = fr # rest"
    and "fr_pc fr = P_ret" and "fr_fn fr \<in> {Once, Once_call, Once_do}"
  shows "flag_of s (fr_obj fr) = MULLE_THREAD_ONCE_DONE \<and>
    length (os_calls s (fr_obj fr)) = 1 \<and> length (os_rets s (fr_obj fr)) = 1"
  using c11.once_ret_done [OF c11.once_reach_inv [OF assms(1)] assms(2,3)] assms(4)
  by (simp add: blocking_def)

theorem once_return_means_initialized_witness:
  "\<exists>s fr. once_run c11_backend False example_final once_init_sys = Some s \<and>
     os_stk s 2 = [fr] \<and> length (os_rets s (fr_obj fr)) = 1"
proof -
  have fn: "map_option (\<lambda>s. map fr_fn (os_stk s 2)) (once_run c11_backend False example_final
      once_init_sys) = Some [Once_call]"
    by code_simp
  obtain s where s: "once_reach c11_backend False s" "example_view s = ([P_ret], [P_ret], 1, 1, 1)"
    "once_run c11_backend False example_final once_init_sys = Some s"
    by (rule example_final_reach)
  obtain fr where fr: "os_stk s 2 = [fr]" "fr_pc fr = P_ret" "fr_fn fr = Once_call"
    using s(2,3) fn by (auto simp: example_view_def)
  show ?thesis
    using once_return_means_initialized [OF s(1) fr(1,2)] fr s(3) by auto
qed

definition in_init :: "once_sys \<Rightarrow> nat \<Rightarrow> tid \<Rightarrow> nat" where
  "in_init s ob t = length (filter (\<lambda>fr. fr_obj fr = ob \<and> fr_pc fr = P_in_init) (os_stk s t))"

lemma filter_length_mono:
  "\<forall>x \<in> set xs. P x \<longrightarrow> Q x \<Longrightarrow> length (filter P xs) \<le> length (filter Q xs)"
  by (induction xs) auto

lemma in_init_owned: "stack_ok s (os_stk s t) \<Longrightarrow> in_init s ob t \<le> owned ob (os_stk s t)"
  unfolding in_init_def owned_def
  by (rule filter_length_mono) (auto simp: stack_ok_def owner_frame_def frame_ok_def)

text \<open>Initializations of the same flag exclude each other, in one thread and between
  threads: all stacks together hold at most one activation that is inside \<open>init\<close> of the
  flag, and while there is one the flag is BUSY.\<close>

theorem once_init_exclusive:
  assumes "once_reach c11_backend nd s" and "0 < in_init s ob t"
  shows "in_init s ob t = 1 \<and> flag_of s ob = MULLE_THREAD_ONCE_BUSY \<and>
    (\<forall>t'. t' \<noteq> t \<longrightarrow> in_init s ob t' = 0)"
proof -
  have inv: "flag_inv s ob" "\<And>t. in_init s ob t \<le> owned ob (os_stk s t)"
    using c11.once_reach_inv [OF assms(1)] by (auto simp: once_inv_def in_init_owned)
  obtain fr where "fr \<in> set (os_stk s t)" "owner_frame ob fr"
    using assms(2) inv(2) [of t] owned_zero_iff [of ob "os_stk s t"] by auto
  from flag_inv_owner [OF inv(1) this] inv(2) assms(2) show ?thesis
    by (metis One_nat_def Suc_leI le_antisym le_zero_eq)
qed

theorem once_init_exclusive_witness:
  "\<exists>s. once_run c11_backend False example_run once_init_sys = Some s \<and>
     in_init s 0 1 = 1 \<and> in_init s 0 2 = 0"
proof -
  have "map_option (\<lambda>s. in_init s 0 1) (once_run c11_backend False example_run once_init_sys) =
      Some 1"
    by code_simp
  then obtain s where s: "once_run c11_backend False example_run once_init_sys = Some s"
    "in_init s 0 1 = 1" by auto
  from once_init_exclusive [OF once_run_reach [OF once_init_reach s(1)], of 0 1] s show ?thesis
    by auto
qed

text \<open>The flag is a state machine without way back: in every run it holds one of its
  three constants and only moves forward from DATA over BUSY to DONE.\<close>

theorem once_flag_lifecycle:
  assumes "once_reach c11_backend nd s" and "once_run c11_backend nd mvs s = Some s'"
  shows "\<exists>p q. phase (flag_of s ob) = Some p \<and> phase (flag_of s' ob) = Some q \<and> p \<le> q"
proof -
  note inv = c11.once_reach_inv [OF assms(1)]
  show ?thesis
    using flag_inv_phase [of s ob] flag_inv_phase [of s' ob] inv c11.once_run_inv [OF inv assms(2)]
      c11.once_run_phase [OF inv assms(2), of ob]
    by (auto simp: once_inv_def)
qed

theorem once_flag_lifecycle_witness:
  "\<exists>s p q. once_run c11_backend False example_final once_init_sys = Some s \<and>
     phase (flag_of once_init_sys 0) = Some p \<and> phase (flag_of s 0) = Some q \<and> p \<le> q"
  by (rule example_final_reach) (blast dest: once_flag_lifecycle [OF once_init_reach])

text \<open>No interleaving makes a once function stop: the assertion of the exchange never
  fails, in a debug build neither, and a thread in a function can always take its next
  step.\<close>

theorem once_never_stuck:
  assumes "once_reach c11_backend nd s" and "os_stk s t \<noteq> []"
  shows "(\<exists>s'. once_exec c11_backend nd (Step t) s = Some s') \<and>
    (\<forall>fr \<in> set (os_stk s t). fr_pc fr \<noteq> P_abort)"
proof -
  note inv = c11.once_reach_inv [OF assms(1)]
  have "\<forall>fr \<in> set (os_stk s t). fr_pc fr \<noteq> P_abort"
    using inv frame_ok_abort unfolding once_inv_def stack_ok_def by blast
  with c11.step_enabled [OF inv] assms(2) show ?thesis
    by (cases "os_stk s t") (auto simp del: once_exec.simps)
qed

theorem once_never_stuck_witness:
  "\<exists>s s'. once_run c11_backend False example_run once_init_sys = Some s \<and>
     once_exec c11_backend False (Step 2) s = Some s'"
proof -
  obtain s where s: "once_reach c11_backend False s" "example_view s = ([P_in_init], [P_yield], 1848, 1, 0)"
    "once_run c11_backend False example_run once_init_sys = Some s"
    by (rule example_run_reach)
  have "os_stk s 2 \<noteq> []" using s(2) by (auto simp: example_view_def)
  from once_never_stuck [OF s(1) this] s(3) show ?thesis by blast
qed


text \<open>The plain once functions are not recursive: a thread that calls a blocking one on
  flag \<open>ob\<close> from inside the \<open>init\<close> of \<open>ob\<close> never returns. After the call every run of the
  system finds that thread waiting in the nested activation, above the unfinished
  initialization, and the flag BUSY.\<close>

theorem once_nested_call_deadlocks:
  assumes "once_reach c11_backend nd s" and "os_stk s t = g # rest" and "fr_pc g = P_in_init"
    and "f \<in> {Once, Once_call, Once_do}"
    and "once_run c11_backend nd ([Invoke t f (fr_obj g) ui, Step t] @ mvs) s = Some s'"
  shows "(\<exists>fr. os_stk s' t = fr # g # rest \<and> fr_pc fr \<in> {P_yield, P_read}) \<and>
    flag_of s' (fr_obj g) = MULLE_THREAD_ONCE_BUSY"
proof -
  note inv = c11.once_reach_inv [OF assms(1)]
  have own: "owner_frame (fr_obj g) g"
    using c11.frame_ok_top [OF inv assms(2)] assms(3) by (simp add: frame_ok_def owner_frame_def)
  have b: "blocking f" using assms(4) by (simp add: blocking_def)
  obtain s1 where s1: "once_run c11_backend nd [Invoke t f (fr_obj g) ui, Step t] s = Some s1"
    "once_run c11_backend nd mvs s1 = Some s'"
    using assms(5) by (simp only: once_run_append) (auto split: option.splits simp del: once_run.simps)
  have "self_wait (fr_obj g) t (g # rest) s1 \<and> once_inv s1"
    by (rule c11.self_wait_start [OF inv assms(2) own assms(3) b s1(1)])
  then have "self_wait (fr_obj g) t (g # rest) s' \<and> flag_of s' (fr_obj g) = MULLE_THREAD_ONCE_BUSY"
    using c11.self_wait_run [OF _ _ s1(2)] by blast
  then show ?thesis by (auto simp: self_wait_def)
qed

theorem once_nested_call_deadlocks_witness:
  "\<exists>s s' g fr. once_run c11_backend False example_run once_init_sys = Some s \<and>
     once_run c11_backend False ([Invoke 1 Once_do 0 0, Step 1] @ [Step 1, Step 1, Step 2]) s = Some s' \<and>
     os_stk s' 1 = [fr, g] \<and> flag_of s' 0 = MULLE_THREAD_ONCE_BUSY"
proof -
  have run: "map_option (\<lambda>s. (map fr_obj (os_stk s 1),
        once_run c11_backend False ([Invoke 1 Once_do 0 0, Step 1] @ [Step 1, Step 1, Step 2]) s = None))
      (once_run c11_backend False example_run once_init_sys) = Some ([0], False)"
    by code_simp
  obtain s where s: "once_reach c11_backend False s"
    "example_view s = ([P_in_init], [P_yield], 1848, 1, 0)"
    "once_run c11_backend False example_run once_init_sys = Some s"
    by (rule example_run_reach)
  obtain g s' where g: "os_stk s 1 = [g]" "fr_pc g = P_in_init" "fr_obj g = 0"
    and s': "once_run c11_backend False ([Invoke 1 Once_do (fr_obj g) 0, Step 1] @ [Step 1, Step 1, Step 2]) s = Some s'"
    using run s(2,3) by (auto simp: example_view_def simp del: once_run.simps)
  have "Once_do \<in> {Once, Once_call, Once_do}" by simp
  from once_nested_call_deadlocks [OF s(1) g(1,2) this s'] s(3) g(3) s' show ?thesis
    by (metis append_Cons)
qed

text \<open>The non-blocking variants never wait: the first step of a call decides. It enters
  \<open>init\<close> exactly if the flag is still DATA, and otherwise returns at once, also while another
  thread is initializing; and no activation of them is ever in the waiting loop.\<close>

theorem once_noblock_decides:
  assumes "once_reach c11_backend nd s" and "os_stk s t = fr # rest"
    and "fr_fn fr \<in> {Once_noblock, Once_call_noblock, Once_do_noblock}"
    and "fr_pc fr = P_cas" and "once_exec c11_backend nd (Step t) s = Some s'"
  shows "\<exists>fr'. os_stk s' t = fr' # rest \<and>
    fr_pc fr' = (if flag_of s (fr_obj fr) = MULLE_THREAD_ONCE_DATA then P_call_init else P_ret)"
proof -
  have b: "blocking (fr_fn fr) = False" using assms(3) by (auto simp: blocking_def)
  obtain fr' where "os_stk s' t = fr' # rest"
    "once_trans False P_cas (fr_actual fr) (flag_of s (fr_obj fr))
      (fr_pc fr') (fr_actual fr') (flag_of s' (fr_obj fr))"
    using c11.once_step_trans [OF c11.once_reach_inv [OF assms(1)] assms(2) _ assms(5)] assms(4) b
    by auto
  then show ?thesis by (auto simp: once_trans_simps)
qed

theorem once_noblock_decides_witness:
  "\<exists>s s' fr fr'. once_run c11_backend False (example_run @ [Invoke 3 Once_noblock 0 0]) once_init_sys = Some s \<and>
     os_stk s 3 = [fr] \<and> once_exec c11_backend False (Step 3) s = Some s' \<and>
     os_stk s' 3 = [fr'] \<and> fr_pc fr' = P_ret"
proof -
  have run: "map_option (\<lambda>s. (map fr_pc (os_stk s 3), map fr_fn (os_stk s 3), map fr_obj (os_stk s 3),
        flag_of s 0, once_exec c11_backend False (Step 3) s = None))
      (once_run c11_backend False (example_run @ [Invoke 3 Once_noblock 0 0]) once_init_sys) =
      Some ([P_cas], [Once_noblock], [0], 1848, False)"
    by code_simp
  then obtain s where s: "once_run c11_backend False (example_run @ [Invoke 3 Once_noblock 0 0]) once_init_sys = Some s"
    and view: "map fr_pc (os_stk s 3) = [P_cas]" "map fr_fn (os_stk s 3) = [Once_noblock]"
    "map fr_obj (os_stk s 3) = [0]" "flag_of s 0 = 1848"
    "once_exec c11_backend False (Step 3) s \<noteq> None"
    by (auto simp del: once_exec.simps once_run.simps)
  then obtain fr s' where fr: "os_stk s 3 = [fr]" "fr_fn fr = Once_noblock" "fr_pc fr = P_cas"
    "fr_obj fr = 0" and s': "once_exec c11_backend False (Step 3) s = Some s'"
    by (auto simp del: once_exec.simps)
  from once_noblock_decides [OF once_run_reach [OF once_init_reach s] fr(1) _ fr(3) s'] fr(2,4)
    view(4) s s' fr(1)
  show ?thesis by (auto simp: MULLE_THREAD_ONCE_DATA_def simp del: once_exec.simps)
qed

end
