(* ===== verification/Once_Leave.thy ===== *)
theory Once_Leave
  imports Once_Properties
begin

text \<open>
  Leaving the block of \<open>mulle_thread_once_do\<close> or \<open>mulle_thread_once_do_noblock\<close>
  (\<open>src/mulle-thread.h\<close>) by \<open>return\<close> or \<open>goto\<close>. The macros protect against \<open>break\<close> and
  \<open>continue\<close>; a block that is left otherwise never reaches the increment that publishes.
\<close>

subsection \<open>The additional move\<close>

datatype leave_move = Ordinary once_move | Leave tid

fun leave_exec :: "backend \<Rightarrow> bool \<Rightarrow> leave_move \<Rightarrow> once_sys \<Rightarrow> once_sys option" where
  "leave_exec B ndebug (Ordinary mv) s = once_exec B ndebug mv s"
| "leave_exec B ndebug (Leave t) s =
     (case os_stk s t of
        [] \<Rightarrow> None
      | fr # rest \<Rightarrow>
          if fr_fn fr \<in> {Once_do, Once_do_noblock} \<and> fr_pc fr = P_in_init
          then Some (s\<lparr>os_stk := (os_stk s)(t := rest)\<rparr>) else None)"

fun leave_run :: "backend \<Rightarrow> bool \<Rightarrow> leave_move list \<Rightarrow> once_sys \<Rightarrow> once_sys option" where
  "leave_run B ndebug [] s = Some s"
| "leave_run B ndebug (mv # mvs) s =
     (case leave_exec B ndebug mv s of None \<Rightarrow> None | Some s' \<Rightarrow> leave_run B ndebug mvs s')"

subsection \<open>An abandoned flag\<close>

text \<open>The flag is BUSY and every activation on it is before or in its wait, or is a non-blocking
  one that gave up.\<close>

definition stuck_frame :: "frame \<Rightarrow> bool" where
  "stuck_frame fr \<longleftrightarrow> frame_ok MULLE_THREAD_ONCE_BUSY fr \<and>
     fr_pc fr \<in> {P_cas, P_yield, P_read, P_ret}"

definition abandoned :: "nat \<Rightarrow> once_sys \<Rightarrow> bool" where
  "abandoned ob s \<longleftrightarrow> flag_of s ob = MULLE_THREAD_ONCE_BUSY \<and>
     (\<forall>t. \<forall>fr \<in> set (os_stk s t). fr_obj fr = ob \<longrightarrow> stuck_frame fr)"

lemma stuck_frame_simps:
  "stuck_frame fr \<longleftrightarrow> (case fr_pc fr of
     P_cas \<Rightarrow> fr_actual fr = MULLE_THREAD_ONCE_DATA
   | P_yield \<Rightarrow> blocking (fr_fn fr) \<and> fr_actual fr \<noteq> MULLE_THREAD_ONCE_DATA
   | P_read \<Rightarrow> blocking (fr_fn fr) \<and> fr_actual fr \<noteq> MULLE_THREAD_ONCE_DATA
   | P_ret \<Rightarrow> \<not> blocking (fr_fn fr)
   | _ \<Rightarrow> False)"
  by (auto simp: stuck_frame_def frame_ok_def split: once_pc.splits)

lemma stuck_frame_pc:
  "stuck_frame fr \<Longrightarrow>
     fr_pc fr \<in> (if blocking (fr_fn fr) then {P_cas, P_yield, P_read} else {P_cas, P_ret})"
  by (auto simp: stuck_frame_simps split: once_pc.splits)

lemma leave_abandons:
  assumes inv: "once_inv s" and st: "os_stk s t = fr # rest" and pc: "fr_pc fr = P_in_init"
  shows "abandoned (fr_obj fr) (s\<lparr>os_stk := (os_stk s)(t := rest)\<rparr>)"
proof -
  let ?ob = "fr_obj fr"
  have ok: "frame_ok (flag_of s (fr_obj g)) g" if "g \<in> set (os_stk s u)" for g u
    using inv that by (auto simp: once_inv_def stack_ok_def)
  have own: "owner_frame ?ob fr"
    using ok [of fr t] st pc by (auto simp: owner_frame_def frame_ok_def)
  have fi: "flag_inv s ?ob" using inv by (simp add: once_inv_def)
  have mem: "fr \<in> set (os_stk s t)" by (simp add: st)
  note o = flag_inv_owner [OF fi mem own]
  have busy: "flag_of s ?ob = MULLE_THREAD_ONCE_BUSY" by (rule o(1))
  have t: "owned ?ob rest = 0" "\<forall>u. u \<noteq> t \<longrightarrow> owned ?ob (os_stk s u) = 0"
    using o(2,3) own by (simp_all add: st)
  have "stuck_frame g" if g: "g \<in> set (((os_stk s)(t := rest)) u)" "fr_obj g = ?ob" for g u
  proof -
    have "\<not> owner_frame ?ob g" using t g(1) by (auto simp: owned_zero_iff split: if_splits)
    moreover have "frame_ok MULLE_THREAD_ONCE_BUSY g"
      using ok [of g u] g st busy by (auto split: if_splits)
    ultimately show ?thesis
      using g(2) by (auto simp: stuck_frame_def frame_ok_def owner_frame_def split: once_pc.splits)
  qed
  with busy show ?thesis by (auto simp: abandoned_def)
qed

context atomic_backend
begin

text \<open>A function writes its own flag only, in whatever state it is.\<close>

lemma once_fn_step_other:
  assumes "once_fn_step B nd t fr m = (fr', m')" and "a \<noteq> once_addr fr"
  shows "cells m' a = cells m a"
proof -
  have cas: "cells m1 a = cells m a"
    if "mulle_atomic_pointer_compare_and_swap B nd t (once_addr fr) v e m = Inr (r, m1)" for v e r m1
    using that cas_flag assms(2) by (auto simp: atomic_api_defs cas_result_def)
  show ?thesis
    using assms cas
    by (cases "fr_fn fr"; cases "fr_pc fr")
      (auto simp: once_fn_defs Let_def case_prod_beta mulle_atomic_pointer_compare_and_swap_actual_def
        cas_result_def split: sum.splits if_splits)
qed

lemma once_fn_step_same: "once_fn_step B nd t fr m = (fr', m') \<Longrightarrow> fr_obj fr' = fr_obj fr"
  by (cases "fr_fn fr"; cases "fr_pc fr")
    (auto simp: once_fn_defs Let_def case_prod_beta split: sum.splits if_splits)

lemma stuck_step:
  assumes "once_fn_step B nd t fr m = (fr', m')" and "stuck_frame fr" and "fr_pc fr \<noteq> P_ret"
    and "cells m (once_addr fr) = MULLE_THREAD_ONCE_BUSY"
  shows "stuck_frame fr' \<and> cells m' (once_addr fr) = MULLE_THREAD_ONCE_BUSY"
proof -
  have "frame_ok (cells m (once_addr fr)) fr" using assms(2,4) by (simp add: stuck_frame_def)
  from once_fn_step_refines [OF assms(1) this assms(3)] show ?thesis
    using assms(2-4)
    by (cases "fr_pc fr") (auto simp: stuck_frame_simps once_trans_simps same_call_def)
qed

lemma abandoned_exec:
  assumes ab: "abandoned ob s" and ex: "leave_exec B nd mv s = Some s'"
  shows "abandoned ob s' \<and> os_calls s' ob = os_calls s ob \<and> os_rets s' ob = os_rets s ob"
proof -
  have flag: "flag_of s ob = MULLE_THREAD_ONCE_BUSY"
    and stuck: "\<And>t fr. fr \<in> set (os_stk s t) \<Longrightarrow> fr_obj fr = ob \<Longrightarrow> stuck_frame fr"
    using ab by (auto simp: abandoned_def)
  have pop: ?thesis
    if "s' = s\<lparr>os_stk := (os_stk s)(t := rest)\<rparr>" "os_stk s t = fr # rest" for t fr rest
    using that flag stuck [of _ t] stuck by (auto simp: abandoned_def split: if_splits)
  show ?thesis
  proof (cases mv)
    case (Leave t)
    with ex pop show ?thesis by (auto split: list.splits if_splits)
  next
    case (Ordinary m)
    with ex have ex: "once_exec B nd m s = Some s'" by simp
    show ?thesis
    proof (cases m)
      case (Invoke t f ob' ui)
      have "stuck_frame (new_frame f ob ui)"
        using new_frame_ok [of _ f ob ui] by (simp add: stuck_frame_def)
      with ex Invoke flag stuck show ?thesis by (auto simp: abandoned_def split: if_splits)
    next
      case (Step t)
      from ex [unfolded Step] show ?thesis
      proof (cases rule: once_exec_StepE)
        case (1 fr rest)
        then show ?thesis using pop by blast
      next
        case (2 fr rest fr' m')
        have obj: "fr_obj fr' = fr_obj fr" by (rule once_fn_step_same [OF 2(4)])
        show ?thesis
        proof (cases "fr_obj fr = ob")
          case True
          then have fr: "stuck_frame fr" using stuck [of fr t] 2(1) by simp
          have "cells (os_mem s) (once_addr fr) = MULLE_THREAD_ONCE_BUSY"
            using flag True by (simp add: flag_of_def once_addr_def)
          from stuck_step [OF 2(4) fr 2(2) this]
          have fr': "stuck_frame fr'" and busy: "cells m' (ob, 0) = MULLE_THREAD_ONCE_BUSY"
            using True by (simp_all add: once_addr_def)
          have "fr_pc fr \<noteq> P_call_init" "fr_pc fr \<noteq> P_in_init"
            using stuck_frame_pc [OF fr] by (auto split: if_splits)
          moreover have "stuck_frame g" if "g \<in> set rest" "fr_obj g = ob" for g
            using stuck [of g t] that 2(1) by simp
          ultimately show ?thesis
            using 2(5) busy fr' stuck by (auto simp: abandoned_def after_step_def flag_of_def)
        next
          case False
          then have "cells m' (ob, 0) = cells (os_mem s) (ob, 0)"
            by (intro once_fn_step_other [OF 2(4)]) (simp add: once_addr_def)
          moreover have "stuck_frame g" if "g \<in> set rest" "fr_obj g = ob" for g
            using stuck [of g t] that 2(1) by simp
          ultimately show ?thesis
            using 2(5) False obj flag stuck by (auto simp: abandoned_def after_step_def flag_of_def)
        qed
      qed
    qed
  qed
qed

lemma abandoned_run:
  "abandoned ob s \<Longrightarrow> leave_run B nd mvs s = Some s' \<Longrightarrow>
     abandoned ob s' \<and> os_calls s' ob = os_calls s ob \<and> os_rets s' ob = os_rets s ob"
proof (induction mvs arbitrary: s)
  case (Cons mv mvs)
  then obtain s1 where "leave_exec B nd mv s = Some s1" "leave_run B nd mvs s1 = Some s'"
    by (auto split: option.splits)
  with Cons.IH [of s1] abandoned_exec [OF Cons.prems(1), of nd mv s1] show ?case by simp
qed simp

end

subsection \<open>The block that is left never counts as run\<close>

text \<open>C26: leaving the block of \<open>mulle_thread_once_do\<close> or \<open>mulle_thread_once_do_noblock\<close> by
  \<open>return\<close> or \<open>goto\<close> abandons its flag for ever. Whatever the threads do afterwards, the flag
  stays BUSY, the block has been entered once and never again, and no activation of a blocking
  once function on that flag returns: each is before its first exchange or in the waiting
  loop.\<close>

theorem once_block_left_is_lost:
  assumes "once_reach c11_backend nd s" and "os_stk s t = fr # rest" and "fr_pc fr = P_in_init"
    and "leave_run c11_backend nd (Leave t # mvs) s = Some s'"
  shows "flag_of s' (fr_obj fr) = MULLE_THREAD_ONCE_BUSY \<and>
    length (os_calls s' (fr_obj fr)) = 1 \<and> os_rets s' (fr_obj fr) = [] \<and>
    (\<forall>u. \<forall>g \<in> set (os_stk s' u). fr_obj g = fr_obj fr \<longrightarrow>
       fr_pc g \<in> (if blocking (fr_fn g) then {P_cas, P_yield, P_read} else {P_cas, P_ret}))"
proof -
  let ?ob = "fr_obj fr" and ?s = "s\<lparr>os_stk := (os_stk s)(t := rest)\<rparr>"
  note inv = c11.once_reach_inv [OF assms(1)]
  have own: "owner_frame ?ob fr"
    using c11.frame_ok_top [OF inv assms(2)] assms(3) by (simp add: owner_frame_def frame_ok_def)
  have fi: "flag_inv s ?ob" using inv by (simp add: once_inv_def)
  have mem: "fr \<in> set (os_stk s t)" by (simp add: assms(2))
  have h: "length (os_calls s ?ob) = 1" "os_rets s ?ob = []"
    using flag_inv_owner(4,5) [OF fi mem own] assms(3) by (simp_all add: calls_at_def rets_at_def)
  have "leave_run c11_backend nd mvs ?s = Some s'"
    using assms(2,4) by (auto split: option.splits if_splits)
  from c11.abandoned_run [OF leave_abandons [OF inv assms(2,3)] this] h
  have s': "flag_of s' ?ob = MULLE_THREAD_ONCE_BUSY" "length (os_calls s' ?ob) = 1"
    "os_rets s' ?ob = []" "\<And>u g. g \<in> set (os_stk s' u) \<Longrightarrow> fr_obj g = ?ob \<Longrightarrow> stuck_frame g"
    by (simp_all add: abandoned_def)
  show ?thesis by (intro conjI allI ballI impI s'(1-3) stuck_frame_pc s'(4))
qed

theorem once_block_left_is_lost_witness:
  "\<exists>s s' fr. once_run c11_backend False [Invoke 1 Once_do 0 0, Step 1, Step 1] once_init_sys = Some s \<and>
     os_stk s 1 = [fr] \<and> leave_run c11_backend False (Leave 1 # map Ordinary
       [Invoke 1 Once 0 0, Step 1, Invoke 2 Once_do_noblock 0 0, Step 2, Step 1, Step 1]) s = Some s' \<and>
     flag_of s' 0 = MULLE_THREAD_ONCE_BUSY \<and> map fr_pc (os_stk s' 1) = [P_yield] \<and>
     map fr_pc (os_stk s' 2) = [P_ret]"
proof -
  let ?mvs = "map Ordinary
    [Invoke 1 Once 0 0, Step 1, Invoke 2 Once_do_noblock 0 0, Step 2, Step 1, Step 1]"
  have run: "map_option (\<lambda>s. (map fr_pc (os_stk s 1), map fr_obj (os_stk s 1),
        map_option (\<lambda>s'. (map fr_pc (os_stk s' 1), map fr_pc (os_stk s' 2)))
          (leave_run c11_backend False (Leave 1 # ?mvs) s)))
      (once_run c11_backend False [Invoke 1 Once_do 0 0, Step 1, Step 1] once_init_sys) =
      Some ([P_in_init], [0], Some ([P_yield], [P_ret]))"
    by code_simp
  then obtain s fr s' g h where
    s: "once_run c11_backend False [Invoke 1 Once_do 0 0, Step 1, Step 1] once_init_sys = Some s"
    and fr: "os_stk s 1 = [fr]" "fr_pc fr = P_in_init" "fr_obj fr = 0"
    and s': "leave_run c11_backend False (Leave 1 # ?mvs) s = Some s'"
    and pcs: "os_stk s' 1 = [g]" "fr_pc g = P_yield" "os_stk s' 2 = [h]" "fr_pc h = P_ret"
    by (auto simp del: once_exec.simps once_run.simps leave_run.simps list.map)
  from once_block_left_is_lost [OF once_run_reach [OF once_init_reach s] fr(1,2) s'] show ?thesis
    using s fr(1,3) s' pcs by auto
qed

end
