(* ===== verification/Once_Fairness.thy ===== *)
theory Once_Fairness
  imports Once_Properties
begin

text \<open>
  Liveness of the plain once functions: a call that waits for another thread's initialization
  returns. Executions are infinite here, functions of time; at a time without a move nothing
  happens, so that the finite runs are among them. What the scheduler and \<open>init\<close> have to do for
  it is a hypothesis about the execution.
\<close>

subsection \<open>Executions\<close>

definition once_path ::
  "backend \<Rightarrow> bool \<Rightarrow> (nat \<Rightarrow> once_move option) \<Rightarrow> (nat \<Rightarrow> once_sys) \<Rightarrow> bool"
where
  "once_path B nd sched st \<longleftrightarrow>
     (\<forall>n. case sched n of
        None \<Rightarrow> st (Suc n) = st n
      | Some mv \<Rightarrow> once_exec B nd mv (st n) = Some (st (Suc n)))"

text \<open>Thread \<open>t\<close> is in an activation above \<open>rest\<close> that waits for flag \<open>ob\<close>, or that has come to its
  return.\<close>

definition waits_above :: "nat \<Rightarrow> tid \<Rightarrow> frame list \<Rightarrow> once_sys \<Rightarrow> bool" where
  "waits_above ob t rest s \<longleftrightarrow> (\<exists>fr. os_stk s t = fr # rest \<and> waiting ob fr)"

definition returns_above :: "tid \<Rightarrow> frame list \<Rightarrow> once_sys \<Rightarrow> bool" where
  "returns_above t rest s \<longleftrightarrow> (\<exists>fr. os_stk s t = fr # rest \<and> fr_pc fr = P_ret)"

text \<open>Thread \<open>u\<close> owns the initialization of \<open>ob\<close>, in an activation above \<open>rest\<close>; above it are the
  activations of the calls made in \<open>init\<close>.\<close>

definition owns_above :: "nat \<Rightarrow> tid \<Rightarrow> frame list \<Rightarrow> once_sys \<Rightarrow> bool" where
  "owns_above ob u rest s \<longleftrightarrow> (\<exists>xs g. os_stk s u = xs @ g # rest \<and> owner_frame ob g)"

text \<open>What has to happen: as long as \<open>t\<close> waits, it is scheduled again; and as long as a thread
  owns the initialization, its activation is on top again, since the calls made in \<open>init\<close>
  return, and is scheduled then; that includes the return of \<open>init\<close>.\<close>

definition waiter_scheduled ::
  "nat \<Rightarrow> tid \<Rightarrow> frame list \<Rightarrow> (nat \<Rightarrow> once_move option) \<Rightarrow> (nat \<Rightarrow> once_sys) \<Rightarrow> bool"
where
  "waiter_scheduled ob t rest sched st \<longleftrightarrow>
     (\<forall>n. waits_above ob t rest (st n) \<longrightarrow> (\<exists>m \<ge> n. sched m = Some (Step t)))"

definition owner_proceeds ::
  "nat \<Rightarrow> (nat \<Rightarrow> once_move option) \<Rightarrow> (nat \<Rightarrow> once_sys) \<Rightarrow> bool"
where
  "owner_proceeds ob sched st \<longleftrightarrow>
     (\<forall>n u rest. owns_above ob u rest (st n) \<longrightarrow>
       (\<exists>m \<ge> n. sched m = Some (Step u) \<and> length (os_stk (st m) u) = Suc (length rest)))"

subsection \<open>Who waits waits for somebody\<close>

context atomic_backend
begin

text \<open>A waiting activation found the flag taken.\<close>

definition waiters_ok :: "once_sys \<Rightarrow> bool" where
  "waiters_ok s \<longleftrightarrow> (\<forall>t. \<forall>fr \<in> set (os_stk s t). waiting (fr_obj fr) fr \<longrightarrow>
     flag_of s (fr_obj fr) \<noteq> MULLE_THREAD_ONCE_DATA)"

lemma data_before:
  assumes "once_inv s" and "once_exec B nd mv s = Some s'"
    and "flag_of s' ob = MULLE_THREAD_ONCE_DATA"
  shows "flag_of s ob = MULLE_THREAD_ONCE_DATA"
proof -
  have "phase (flag_of s ob) \<noteq> None" using assms(1) by (simp add: once_inv_def flag_inv_phase)
  moreover have "the (phase (flag_of s ob)) \<le> the (phase (flag_of s' ob))"
    by (rule once_exec_phase [OF assms(1,2)])
  ultimately show ?thesis
    using assms(3) by (auto simp: phase_def less_eq_once_phase_def split: if_splits)
qed

lemma waiters_ok_exec:
  assumes inv: "once_inv s" and ok: "waiters_ok s" and ex: "once_exec B nd mv s = Some s'"
  shows "waiters_ok s'"
proof -
  have old: "flag_of s' (fr_obj fr) \<noteq> MULLE_THREAD_ONCE_DATA"
    if "fr \<in> set (os_stk s t)" "waiting (fr_obj fr) fr" for t fr
    using ok that data_before [OF inv ex] unfolding waiters_ok_def by blast
  show ?thesis
  proof (cases mv)
    case (Invoke t f ob ui)
    with ex have "os_stk s' = (os_stk s)(t := new_frame f ob ui # os_stk s t)"
      by (auto split: if_splits)
    with old show ?thesis
      by (auto simp: waiters_ok_def waiting_def split: if_splits)
  next
    case (Step t)
    with ex have ex: "once_exec B nd (Step t) s = Some s'" by simp
    then obtain fr rest where st: "os_stk s t = fr # rest" by (cases "os_stk s t") auto
    show ?thesis
    proof (cases "fr_pc fr = P_ret")
      case True
      with ex st have "os_stk s' = (os_stk s)(t := rest)" by auto
      with st have "set (os_stk s' u) \<subseteq> set (os_stk s u)" for u by auto
      with old show ?thesis unfolding waiters_ok_def by blast
    next
      case False
      obtain fr' where fr': "os_stk s' t = fr' # rest" "same_call fr fr'"
        "once_trans (blocking (fr_fn fr)) (fr_pc fr) (fr_actual fr) (flag_of s (fr_obj fr))
          (fr_pc fr') (fr_actual fr') (flag_of s' (fr_obj fr))"
        using once_step_trans [OF inv st False ex] by blast
      have other: "os_stk s' u = os_stk s u" if "u \<noteq> t" for u
        using once_exec_other [OF ex, of u] that by simp
      have obj: "fr_obj fr' = fr_obj fr" "blocking (fr_fn fr') = blocking (fr_fn fr)"
        using fr'(2) by (simp_all add: same_call_def)
      have "flag_of s' (fr_obj fr') \<noteq> MULLE_THREAD_ONCE_DATA" if w: "waiting (fr_obj fr') fr'"
      proof (cases "waiting (fr_obj fr) fr")
        case True
        with old [of fr t] st obj show ?thesis by simp
      next
        case no: False
        have "frame_ok (flag_of s (fr_obj fr)) fr" by (rule frame_ok_top [OF inv st])
        then have "fr_pc fr = P_cas"
          using no w fr'(3) obj
          by (cases "fr_pc fr") (auto simp: waiting_def frame_ok_def once_trans_simps)
        with w fr'(3) obj show ?thesis
          by (auto simp: waiting_def once_trans_simps)
      qed
      with old st fr'(1) other show ?thesis
        unfolding waiters_ok_def by (metis list.set_intros(2) set_ConsD)
    qed
  qed
qed

lemma waiters_ok_reach:
  assumes "once_reach B nd s"
  shows "waiters_ok s"
  using assms
proof (induction rule: once_reach.induct)
  case (reach_start s)
  then show ?case by (simp add: waiters_ok_def once_start_def)
next
  case (reach_step s mv s')
  show ?case by (rule waiters_ok_exec [OF once_reach_inv [OF reach_step(1)] reach_step.IH reach_step(2)])
qed

subsection \<open>Steps of an execution\<close>

lemma path_reach:
  assumes path: "once_path B nd sched st" and "once_reach B nd (st 0)"
  shows "once_reach B nd (st n)"
proof (induction n)
  case (Suc n)
  show ?case
  proof (cases "sched n")
    case None
    with path Suc show ?thesis by (auto simp: once_path_def dest: spec [of _ n])
  next
    case (Some mv)
    with path have "once_exec B nd mv (st n) = Some (st (Suc n))"
      by (auto simp: once_path_def dest: spec [of _ n] simp del: once_exec.simps)
    with Suc show ?thesis by (rule reach_step)
  qed
qed (use assms(2) in simp)

lemma path_move:
  assumes "once_path B nd sched st" and "sched n = Some mv"
  shows "once_exec B nd mv (st n) = Some (st (Suc n))"
  using assms by (auto simp: once_path_def dest: spec [of _ n] simp del: once_exec.simps)

lemma path_idle: "once_path B nd sched st \<Longrightarrow> sched n = None \<Longrightarrow> st (Suc n) = st n"
  by (auto simp: once_path_def dest: spec [of _ n])

lemma path_done:
  assumes path: "once_path B nd sched st" and reach: "once_reach B nd (st 0)"
    and "flag_of (st n) ob = MULLE_THREAD_ONCE_DONE"
  shows "flag_of (st (n + k)) ob = MULLE_THREAD_ONCE_DONE"
proof (induction k)
  case (Suc k)
  show ?case
  proof (cases "sched (n + k)")
    case None
    with path_idle [OF path this] Suc show ?thesis by simp
  next
    case (Some mv)
    from done_stays [OF once_reach_inv [OF path_reach [OF path reach]] path_move [OF path Some] Suc]
    show ?thesis by simp
  qed
qed (use assms(3) in simp)

subsection \<open>The owner gets done\<close>

definition owns_at :: "nat \<Rightarrow> tid \<Rightarrow> frame list \<Rightarrow> nat \<Rightarrow> once_sys \<Rightarrow> bool" where
  "owns_at ob u rest d s \<longleftrightarrow>
     (\<exists>xs g. os_stk s u = xs @ g # rest \<and> owner_frame ob g \<and> owner_dist (fr_pc g) = d)"

lemma owner_advances:
  assumes inv: "once_inv s" and ex: "once_exec B nd mv s = Some s'" and own: "owns_at ob u rest d s"
  shows "flag_of s' ob = MULLE_THREAD_ONCE_DONE \<or> owns_at ob u rest d s' \<or>
    (\<exists>d' < d. owns_at ob u rest d' s')"
    and "mv = Step u \<Longrightarrow> length (os_stk s u) = Suc (length rest) \<Longrightarrow>
      flag_of s' ob = MULLE_THREAD_ONCE_DONE \<or> (\<exists>d' < d. owns_at ob u rest d' s')"
proof -
  obtain xs g where g: "os_stk s u = xs @ g # rest" "owner_frame ob g" "owner_dist (fr_pc g) = d"
    using own by (auto simp: owns_at_def)
  have top: "flag_of s' ob = MULLE_THREAD_ONCE_DONE \<or> (\<exists>d' < d. owns_at ob u rest d' s')"
    if "mv = Step u" "xs = []"
  proof -
    have "os_stk s u = g # rest" using g(1) that(2) by simp
    from owner_step [OF inv this g(2) ex [unfolded that(1)]] g(3) show ?thesis
      by (fastforce simp: owns_at_def)
  qed
  show "mv = Step u \<Longrightarrow> length (os_stk s u) = Suc (length rest) \<Longrightarrow>
      flag_of s' ob = MULLE_THREAD_ONCE_DONE \<or> (\<exists>d' < d. owns_at ob u rest d' s')"
    using top g(1) by auto
  show "flag_of s' ob = MULLE_THREAD_ONCE_DONE \<or> owns_at ob u rest d s' \<or>
    (\<exists>d' < d. owns_at ob u rest d' s')"
  proof (cases "mover mv = u")
    case False
    with once_exec_other [OF ex False] own show ?thesis by (simp add: owns_at_def)
  next
    case True
    show ?thesis
    proof (cases mv)
      case (Invoke t f ob' ui)
      with True ex have "os_stk s' u = (new_frame f ob' ui # xs) @ g # rest"
        using g(1) by (auto split: if_splits)
      with g(2,3) show ?thesis unfolding owns_at_def by blast
    next
      case (Step t)
      with True have mv: "mv = Step u" by simp
      show ?thesis
      proof (cases xs)
        case Nil
        with top mv show ?thesis by blast
      next
        case (Cons x xs')
        with g(1) have st: "os_stk s u = x # xs' @ g # rest" by simp
        have "\<exists>ys. os_stk s' u = ys @ g # rest"
        proof (cases "fr_pc x = P_ret")
          case True
          with ex st mv show ?thesis by auto
        next
          case False
          from once_step_trans [OF inv st False ex [unfolded mv]] obtain fr' where
            "os_stk s' u = fr' # xs' @ g # rest" by blast
          then have "os_stk s' u = (fr' # xs') @ g # rest" by simp
          then show ?thesis by blast
        qed
        with g(2,3) show ?thesis unfolding owns_at_def by blast
      qed
    qed
  qed
qed

lemma owner_until:
  assumes path: "once_path B nd sched st" and reach: "once_reach B nd (st 0)"
    and own: "owns_at ob u rest d (st n)"
  shows "(\<exists>m. flag_of (st m) ob = MULLE_THREAD_ONCE_DONE) \<or> (\<exists>m. \<exists>d' < d. owns_at ob u rest d' (st m)) \<or>
    owns_at ob u rest d (st (n + k))"
proof (induction k)
  case (Suc k)
  note inv = once_reach_inv [OF path_reach [OF path reach]]
  show ?case
  proof (cases "owns_at ob u rest d (st (n + k))")
    case True
    show ?thesis
    proof (cases "sched (n + k)")
      case None
      with path_idle [OF path this] True show ?thesis by simp
    next
      case (Some mv)
      from owner_advances(1) [OF inv path_move [OF path Some] True] show ?thesis by auto
    qed
  qed (use Suc in blast)
qed (use own in simp)

lemma owner_finishes:
  assumes path: "once_path B nd sched st" and reach: "once_reach B nd (st 0)"
    and go: "owner_proceeds ob sched st"
  shows "owns_at ob u rest d (st n) \<Longrightarrow> \<exists>m. flag_of (st m) ob = MULLE_THREAD_ONCE_DONE"
proof (induction d arbitrary: n rule: less_induct)
  case (less d)
  have "owns_above ob u rest (st n)" using less.prems by (auto simp: owns_at_def owns_above_def)
  then obtain m where m: "n \<le> m" "sched m = Some (Step u)"
    "length (os_stk (st m) u) = Suc (length rest)"
    using go unfolding owner_proceeds_def by blast
  then obtain k where k: "m = n + k" using le_Suc_ex by blast
  from owner_until [OF path reach less.prems, of k] show ?case
  proof (elim disjE)
    assume "owns_at ob u rest d (st (n + k))"
    then have "owns_at ob u rest d (st m)" using k by simp
    from owner_advances(2) [OF once_reach_inv [OF path_reach [OF path reach]] path_move [OF path m(2)] this refl m(3)]
    show ?thesis using less.IH by blast
  qed (use less.IH in blast)+
qed

subsection \<open>The waiter gets done\<close>

definition waits_at :: "nat \<Rightarrow> tid \<Rightarrow> frame list \<Rightarrow> nat \<Rightarrow> once_sys \<Rightarrow> bool" where
  "waits_at ob t rest d s \<longleftrightarrow>
     (\<exists>fr. os_stk s t = fr # rest \<and> waiting ob fr \<and> wait_dist (fr_pc fr) = d)"

lemma waiter_advances:
  assumes inv: "once_inv s" and ex: "once_exec B nd mv s = Some s'" and w: "waits_at ob t rest d s"
  shows "returns_above t rest s' \<or> (\<exists>d'. waits_at ob t rest d' s' \<and>
    (flag_of s ob = MULLE_THREAD_ONCE_DONE \<longrightarrow> d' \<le> d \<and> (mv = Step t \<longrightarrow> d' < d)))"
proof -
  obtain fr where fr: "os_stk s t = fr # rest" "waiting ob fr" "wait_dist (fr_pc fr) = d"
    using w by (auto simp: waits_at_def)
  show ?thesis
  proof (cases "mover mv = t")
    case False
    then have "mv \<noteq> Step t" by auto
    with once_exec_other [OF ex False] w show ?thesis by (auto simp: waits_at_def)
  next
    case True
    have "fr_pc fr \<noteq> P_in_init" using fr(2) by (auto simp: waiting_def)
    with True invoke_needs_init [OF _ fr(1)] ex have mv: "mv = Step t"
      by (cases mv) (auto simp del: once_exec.simps)
    obtain fr1 where "os_stk s' t = fr1 # rest" "waiting ob fr1 \<or> fr_pc fr1 = P_ret"
      "flag_of s ob = MULLE_THREAD_ONCE_DONE \<Longrightarrow> Suc (wait_dist (fr_pc fr1)) \<le> wait_dist (fr_pc fr)"
      using waiting_step [OF inv fr(1,2) ex [unfolded mv]] by blast
    with fr(3) show ?thesis by (auto simp: waits_at_def returns_above_def)
  qed
qed

lemma waiter_until:
  assumes path: "once_path B nd sched st" and reach: "once_reach B nd (st 0)"
    and w: "waits_at ob t rest d (st n)"
  shows "(\<exists>m. returns_above t rest (st m)) \<or> (\<exists>d'. waits_at ob t rest d' (st (n + k)) \<and>
    (flag_of (st n) ob = MULLE_THREAD_ONCE_DONE \<longrightarrow> d' \<le> d))"
proof (induction k)
  case (Suc k)
  note inv = once_reach_inv [OF path_reach [OF path reach]]
  show ?case
  proof (cases "\<exists>m. returns_above t rest (st m)")
    case False
    with Suc obtain d1 where d1: "waits_at ob t rest d1 (st (n + k))"
      "flag_of (st n) ob = MULLE_THREAD_ONCE_DONE \<longrightarrow> d1 \<le> d" by blast
    show ?thesis
    proof (cases "sched (n + k)")
      case None
      with path_idle [OF path this] d1 show ?thesis by auto
    next
      case (Some mv)
      from waiter_advances [OF inv path_move [OF path Some] d1(1)] False path_done [OF path reach] d1(2)
      show ?thesis by (metis add_Suc_right order_trans)
    qed
  qed blast
qed (use w in auto)

lemma waiter_finishes:
  assumes path: "once_path B nd sched st" and reach: "once_reach B nd (st 0)"
    and go: "waiter_scheduled ob t rest sched st"
  shows "waits_at ob t rest d (st n) \<Longrightarrow> flag_of (st n) ob = MULLE_THREAD_ONCE_DONE \<Longrightarrow>
    \<exists>m. returns_above t rest (st m)"
proof (induction d arbitrary: n rule: less_induct)
  case (less d)
  have "waits_above ob t rest (st n)" using less.prems(1) by (auto simp: waits_at_def waits_above_def)
  then obtain m where m: "n \<le> m" "sched m = Some (Step t)"
    using go by (auto simp: waiter_scheduled_def)
  then obtain k where k: "m = n + k" using le_Suc_ex by blast
  have fin: "flag_of (st m) ob = MULLE_THREAD_ONCE_DONE" "flag_of (st (Suc m)) ob = MULLE_THREAD_ONCE_DONE"
    using path_done [OF path reach less.prems(2), of k] path_done [OF path reach less.prems(2), of "Suc k"]
    by (simp_all add: k)
  show ?case
  proof (cases "\<exists>m. returns_above t rest (st m)")
    case False
    with waiter_until [OF path reach less.prems(1), of k] less.prems(2) k obtain d1 where
      d1: "waits_at ob t rest d1 (st m)" "d1 \<le> d" by auto
    from waiter_advances [OF once_reach_inv [OF path_reach [OF path reach]] path_move [OF path m(2)] d1(1)] False fin(1)
    obtain d2 where "waits_at ob t rest d2 (st (Suc m))" "d2 < d" using d1(2) by fastforce
    from less.IH [OF this(2,1) fin(2)] show ?thesis .
  qed
qed

lemma waiting_call_returns:
  assumes path: "once_path B nd sched st" and reach: "once_reach B nd (st 0)"
    and w: "waits_above ob t rest (st n)"
    and go: "waiter_scheduled ob t rest sched st" "owner_proceeds ob sched st"
  shows "\<exists>m. returns_above t rest (st m)"
proof (cases "\<exists>m. returns_above t rest (st m)")
  case False
  note inv = once_reach_inv [OF path_reach [OF path reach]]
  obtain d where d: "waits_at ob t rest d (st n)" using w by (auto simp: waits_above_def waits_at_def)
  obtain fr where fr: "os_stk (st n) t = fr # rest" "waiting ob fr" using w by (auto simp: waits_above_def)
  have "flag_of (st n) ob \<noteq> MULLE_THREAD_ONCE_DATA"
    using bspec [OF spec [OF waiters_ok_reach [OF path_reach [OF path reach, of n], unfolded waiters_ok_def], of t], of fr] fr
    by (simp add: waiting_def)
  then have "flag_of (st n) ob = MULLE_THREAD_ONCE_DONE \<or> (\<exists>u. owned ob (os_stk (st n) u) = 1)"
    using inv [of n] by (auto simp: once_inv_def flag_inv_def dest!: spec [of _ ob])
  then have "\<exists>m. flag_of (st m) ob = MULLE_THREAD_ONCE_DONE"
  proof (elim disjE exE)
    fix u assume "owned ob (os_stk (st n) u) = 1"
    then obtain g where "g \<in> set (os_stk (st n) u)" "owner_frame ob g"
      using owned_zero_iff [of ob "os_stk (st n) u"] by auto
    then obtain xs rest' where "os_stk (st n) u = xs @ g # rest'" by (meson split_list)
    then have "owns_at ob u rest' (owner_dist (fr_pc g)) (st n)"
      using \<open>owner_frame ob g\<close> by (auto simp: owns_at_def)
    from owner_finishes [OF path reach go(2) this] show ?thesis .
  qed blast
  then obtain m where m: "flag_of (st m) ob = MULLE_THREAD_ONCE_DONE" by blast
  obtain d' where "waits_at ob t rest d' (st (n + m))"
    using waiter_until [OF path reach d, of m] False by blast
  moreover have "flag_of (st (n + m)) ob = MULLE_THREAD_ONCE_DONE"
    using path_done [OF path reach m, of n] by (simp add: add.commute)
  ultimately show ?thesis using waiter_finishes [OF path reach go(1)] by blast
qed

text \<open>Until the return the thread is in its wait.\<close>

lemma waits_until:
  assumes path: "once_path B nd sched st" and reach: "once_reach B nd (st 0)"
    and w: "waits_above ob t rest (st 0)"
  shows "(\<forall>k \<le> m. \<not> returns_above t rest (st k)) \<Longrightarrow> waits_above ob t rest (st m)"
proof (induction m)
  case (Suc m)
  then have "waits_above ob t rest (st m)" by simp
  then obtain d where d: "waits_at ob t rest d (st m)" by (auto simp: waits_above_def waits_at_def)
  show ?case
  proof (cases "sched m")
    case None
    with path_idle [OF path this] \<open>waits_above ob t rest (st m)\<close> show ?thesis by simp
  next
    case (Some mv)
    from waiter_advances [OF once_reach_inv [OF path_reach [OF path reach]] path_move [OF path Some] d]
    show ?thesis using Suc.prems by (auto simp: waits_above_def waits_at_def)
  qed
qed (use w in simp)

lemma waiting_ends_in_return:
  assumes path: "once_path B nd sched st" and reach: "once_reach B nd (st 0)"
    and w: "waits_above ob t rest (st 0)"
    and go: "waiter_scheduled ob t rest sched st" "owner_proceeds ob sched st"
  shows "\<exists>m. returns_above t rest (st m) \<and> (\<forall>k < m. waits_above ob t rest (st k))"
proof -
  obtain m where "returns_above t rest (st m)" "\<forall>k < m. \<not> returns_above t rest (st k)"
    using exists_least_iff [of "\<lambda>m. returns_above t rest (st m)"]
      waiting_call_returns [OF path reach w go] by blast
  then show ?thesis using waits_until [OF path reach w] by (meson le_less_trans)
qed

end

text \<open>A finite run is an execution: after its last move nothing happens.\<close>

definition run_schedule :: "once_move list \<Rightarrow> nat \<Rightarrow> once_move option" where
  "run_schedule mvs n = (if n < length mvs then Some (mvs ! n) else None)"

definition run_state :: "backend \<Rightarrow> bool \<Rightarrow> once_move list \<Rightarrow> once_sys \<Rightarrow> nat \<Rightarrow> once_sys" where
  "run_state B nd mvs s n = the (once_run B nd (take n mvs) s)"

lemma run_is_path:
  assumes "once_run B nd mvs s \<noteq> None"
  shows "once_path B nd (run_schedule mvs) (run_state B nd mvs s)"
proof -
  have some: "once_run B nd (take n mvs) s \<noteq> None" for n
    using assms once_run_append [of B nd "take n mvs" "drop n mvs" s] by (auto split: option.splits)
  have "once_exec B nd (mvs ! n) (run_state B nd mvs s n) = Some (run_state B nd mvs s (Suc n))"
    if "n < length mvs" for n
    using some [of "Suc n"] some [of n]
    by (auto simp: run_state_def take_Suc_conv_app_nth [OF that] once_run_append
      simp del: once_exec.simps split: option.splits)
  then show ?thesis
    by (simp add: once_path_def run_schedule_def run_state_def del: once_exec.simps)
qed

lemma once_run_other:
  "once_run B nd mvs s = Some s' \<Longrightarrow> \<forall>mv \<in> set mvs. mover mv \<noteq> t \<Longrightarrow> os_stk s' t = os_stk s t"
  by (induction mvs arbitrary: s)
    (auto split: option.splits dest: once_exec_other simp del: once_exec.simps)

subsection \<open>Waiters return\<close>

text \<open>C20: a blocking call that waits for another initialization returns. Take any execution from a
  reachable state in which thread \<open>t\<close> waits for flag \<open>ob\<close>, in an activation above \<open>rest\<close>, with
  any moves of any threads in it. If, in this execution, \<open>t\<close> is scheduled again as long as it
  waits, and the activation that owns the initialization, at whatever point of its function it
  is, gets on top of its thread's stack again (the calls made in \<open>init\<close> return) and is scheduled
  then, as long as there is one, then at some time the activation of \<open>t\<close> is at its return, and up
  to that time it was waiting for the flag.\<close>

theorem once_waiter_returns:
  assumes "once_reach c11_backend nd (st 0)" and "once_path c11_backend nd sched st"
    and "waits_above ob t rest (st 0)"
    and "waiter_scheduled ob t rest sched st" and "owner_proceeds ob sched st"
  shows "\<exists>m. returns_above t rest (st m) \<and> (\<forall>k < m. waits_above ob t rest (st k))"
  by (rule c11.waiting_ends_in_return [OF assms(2,1,3-5)])

text \<open>Thread 2 waits while thread 1 completes the initialization.\<close>

definition example_rest :: "once_move list" where
  "example_rest = example_finish @ [Step 2, Step 2]"

definition example_check :: "once_sys \<Rightarrow> nat \<Rightarrow> bool" where
  "example_check s n \<longleftrightarrow> length (os_stk s 1) = 1 \<and> length (os_stk s 2) = 1 \<and>
     \<not> list_ex (owner_frame 0) (os_stk s 2) \<and> (list_ex (owner_frame 0) (os_stk s 1) \<longrightarrow> n \<le> 5) \<and>
     (list_ex (waiting 0) (os_stk s 2) \<longrightarrow> n \<le> 7)"

lemma example_checks:
  "map_option (\<lambda>s. list_all (\<lambda>n. example_check (run_state c11_backend False example_rest s n) n) [0..<9] \<and>
      once_run c11_backend False example_rest s \<noteq> None \<and> list_all (waiting 0) (os_stk s 2))
     (once_run c11_backend False example_run once_init_sys) = Some True"
  by code_simp

theorem once_waiter_returns_witness:
  "\<exists>s m. once_run c11_backend False example_run once_init_sys = Some s \<and> waits_above 0 2 [] s \<and>
     returns_above 2 [] (run_state c11_backend False example_rest s m)"
proof -
  obtain s where run: "once_run c11_backend False example_run once_init_sys = Some s"
    and ok: "list_all (\<lambda>n. example_check (run_state c11_backend False example_rest s n) n) [0..<9]"
    "once_run c11_backend False example_rest s \<noteq> None" "list_all (waiting 0) (os_stk s 2)"
    using example_checks by auto
  let ?st = "run_state c11_backend False example_rest s" and ?sched = "run_schedule example_rest"
  have len: "length example_rest = 8" by (simp add: example_rest_def example_finish_def)
  have end8: "?st n = ?st 8" if "8 \<le> n" for n using that len by (simp add: run_state_def)
  have upto: "example_check (?st n) n" if "n \<in> {0..<9}" for n
    using ok(1) that by (simp only: list_all_iff set_upt)
  have check: "example_check (?st n) (min n 8)" for n
  proof (cases "n < 8")
    case True
    then show ?thesis using upto [of n] by (simp add: min_def)
  next
    case False
    then have "min n 8 = 8" "?st n = ?st 8" using end8 [of n] by simp_all
    then show ?thesis using upto [of 8] by (simp only:) simp
  qed
  have none: "os_stk (?st n) u = []" if "u \<noteq> 1" "u \<noteq> 2" for n u
  proof -
    have "once_run c11_backend False (take n example_rest) s \<noteq> None"
      using ok(2) once_run_append [of c11_backend False "take n example_rest" "drop n example_rest" s]
      by (auto split: option.splits)
    then have "once_run c11_backend False (example_run @ take n example_rest) once_init_sys = Some (?st n)"
      using run by (auto simp: once_run_append run_state_def)
    moreover have "\<forall>mv \<in> set (example_run @ take n example_rest). mover mv \<noteq> u"
      using that by (auto simp: example_run_def example_rest_def example_finish_def dest!: in_set_takeD)
    ultimately show ?thesis
      using once_run_other by (fastforce simp: once_init_sys_def once_start_def)
  qed
  have w: "waits_above 0 2 [] (?st 0)" "?st 0 = s"
    using check [of 0] ok(3) by (auto simp: waits_above_def example_check_def run_state_def length_Suc_conv)
  have wait: "waiter_scheduled 0 2 [] ?sched ?st"
    unfolding waiter_scheduled_def
  proof (intro allI impI)
    fix n assume "waits_above 0 2 [] (?st n)"
    then have "min n 8 \<le> 7" using check [of n] by (auto simp: waits_above_def example_check_def)
    then show "\<exists>m \<ge> n. ?sched m = Some (Step 2)"
      by (intro exI [of _ 7]) (auto simp: run_schedule_def example_rest_def example_finish_def)
  qed
  have "owner_proceeds 0 ?sched ?st"
    unfolding owner_proceeds_def
  proof (intro allI impI)
    fix n u rest assume "owns_above 0 u rest (?st n)"
    then obtain xs g where g: "os_stk (?st n) u = xs @ g # rest" "owner_frame 0 g"
      by (auto simp: owns_above_def)
    have "u \<noteq> 2" using g check [of n] by (auto simp: example_check_def)
    then have "u = 1" using none [of u n] g(1) by auto
    moreover have "rest = []" "min n 8 \<le> 5" using g check [of n] \<open>u = 1\<close>
      by (auto simp: example_check_def)
    moreover have "length (os_stk (?st 5) 1) = 1" using check [of 5] by (simp add: example_check_def)
    ultimately show "\<exists>m \<ge> n. ?sched m = Some (Step u) \<and> length (os_stk (?st m) u) = Suc (length rest)"
      by (intro exI [of _ 5]) (auto simp: run_schedule_def example_rest_def example_finish_def)
  qed
  with once_waiter_returns [OF _ run_is_path [OF ok(2)] w(1) wait]
    once_run_reach [OF once_init_reach run] w(2) obtain m where "returns_above 2 [] (?st m)" by auto
  with run w show ?thesis by auto
qed

end
