(* ===== verification/Win_Tss_Table.thy ===== *)
theory Win_Tss_Table
  imports Prelude
begin

text \<open>
  The destructor table of the Windows backend (\<open>src/mulle-thread-windows.c\<close>), which emulates
  the destructors of thread specific storage: a growing array of pairs of a key and a
  function. \<open>realloc\<close> and the thread's storage (\<open>TlsGetValue\<close>, \<open>TlsSetValue\<close>) are what the C
  library and Windows document; whether an allocation succeeds is a parameter, and so is what
  a destructor does to the storage. A function pointer is a \<open>ptr\<close>, 0 is the null pointer.
\<close>

record destructor_table_entry =
  e_key :: dword
  e_f :: ptr

text \<open>\<open>entries\<close> is the array; what lies at \<open>n\<close> and beyond is not initialized.\<close>

record destructor_table =
  dt_n :: nat
  dt_size :: nat
  dt_entries :: "nat \<Rightarrow> destructor_table_entry"

text \<open>\<open>sizeof( struct destructor_table)\<close> and \<open>sizeof( struct destructor_table_entry)\<close> on a
  64-bit platform.\<close>

definition sizeof_table :: nat where
  "sizeof_table = 32"

definition sizeof_entry :: nat where
  "sizeof_entry = 16"

definition empty_entries :: "nat \<Rightarrow> destructor_table_entry" where
  "empty_entries i = \<lparr>e_key = 0, e_f = NULL\<rparr>"

text \<open>\<open>may_alloc needed\<close> says whether \<open>realloc\<close> finds that many bytes; it copies the old
  contents.\<close>

definition destructor_table_grow ::
  "(nat \<Rightarrow> bool) \<Rightarrow> destructor_table option \<Rightarrow> destructor_table option"
where
  "destructor_table_grow may_alloc table =
     (let n = (case table of None \<Rightarrow> 0 | Some t \<Rightarrow> dt_n t);
          size = (case table of None \<Rightarrow> 4 | Some t \<Rightarrow> dt_size t * 2);
          needed = sizeof_table + sizeof_entry * (size - 1)
      in if may_alloc needed
         then Some \<lparr>dt_n = n, dt_size = size,
           dt_entries = (case table of None \<Rightarrow> empty_entries | Some t \<Rightarrow> dt_entries t)\<rparr>
         else None)"

definition add_entry :: "ptr \<Rightarrow> dword \<Rightarrow> destructor_table \<Rightarrow> destructor_table" where
  "add_entry f key table = table\<lparr>
     dt_entries := (dt_entries table)(dt_n table := \<lparr>e_key = key, e_f = f\<rparr>),
     dt_n := dt_n table + 1\<rparr>"

text \<open>The result code and the new \<open>*p_table\<close>.\<close>

definition destructor_table_add_destructor_for_key ::
  "bool \<Rightarrow> (nat \<Rightarrow> bool) \<Rightarrow> destructor_table option \<Rightarrow> ptr \<Rightarrow> dword \<Rightarrow>
     fault + (int \<times> destructor_table option)"
where
  "destructor_table_add_destructor_for_key ndebug may_alloc p_table f key =
     c_assert ndebug (key \<noteq> 0)
       (if f = NULL then Inr (0, p_table)
        else if p_table = None \<or> dt_n (the p_table) = dt_size (the p_table)
        then (case destructor_table_grow may_alloc p_table of
            None \<Rightarrow> Inr (- 1, None)
          | Some table \<Rightarrow> Inr (0, Some (add_entry f key table)))
        else Inr (0, Some (add_entry f key (the p_table))))"

text \<open>The loop of \<open>destructor_table_remove_destructor_for_key\<close> from entry \<open>p\<close> on.\<close>

function remove_from :: "nat \<Rightarrow> dword \<Rightarrow> destructor_table \<Rightarrow> destructor_table" where
  "remove_from p key table =
     (if p < dt_n table
      then if key = e_key (dt_entries table p)
           then table\<lparr>dt_entries := (dt_entries table)(p := \<lparr>e_key = 0, e_f = NULL\<rparr>)\<rparr>
           else remove_from (p + 1) key table
      else table)"
  by pat_completeness auto
termination by (relation "measure (\<lambda>(p, key, table). dt_n table - p)") auto

definition destructor_table_remove_destructor_for_key ::
  "destructor_table option \<Rightarrow> dword \<Rightarrow> destructor_table option"
where
  "destructor_table_remove_destructor_for_key table key = map_option (remove_from 0 key) table"

text \<open>The thread's storage, and the calls of destructors made so far.\<close>

record tls =
  tls_values :: "dword \<Rightarrow> ptr"
  tls_calls :: "(ptr \<times> ptr) list"

definition TlsGetValue :: "dword \<Rightarrow> tls \<Rightarrow> ptr" where
  "TlsGetValue key s = tls_values s key"

definition TlsSetValue :: "dword \<Rightarrow> ptr \<Rightarrow> tls \<Rightarrow> tls" where
  "TlsSetValue key v s = s\<lparr>tls_values := (tls_values s)(key := v)\<rparr>"

text \<open>A call of destructor \<open>f\<close>: it is recorded, then runs and may change the storage.\<close>

type_synonym destructor = "ptr \<Rightarrow> ptr \<Rightarrow> (dword \<Rightarrow> ptr) \<Rightarrow> (dword \<Rightarrow> ptr)"

definition call_destructor :: "destructor \<Rightarrow> ptr \<Rightarrow> ptr \<Rightarrow> tls \<Rightarrow> tls" where
  "call_destructor run f v s =
     s\<lparr>tls_calls := tls_calls s @ [(f, v)], tls_values := run f v (tls_values s)\<rparr>"

function execute_from :: "destructor \<Rightarrow> nat \<Rightarrow> destructor_table \<Rightarrow> tls \<Rightarrow> tls" where
  "execute_from run p table s =
     (if p < dt_n table
      then (let e = dt_entries table p in
        if e_f e \<noteq> NULL
        then (let v = TlsGetValue (e_key e) s in
          if v \<noteq> NULL
          then execute_from run (p + 1) table
            (call_destructor run (e_f e) v (TlsSetValue (e_key e) NULL s))
          else execute_from run (p + 1) table s)
        else execute_from run (p + 1) table s)
      else s)"
  by pat_completeness auto
termination by (relation "measure (\<lambda>(run, p, table, s). dt_n table - p)") auto

definition destructor_table_execute_destructors ::
  "destructor \<Rightarrow> destructor_table option \<Rightarrow> tls \<Rightarrow> tls"
where
  "destructor_table_execute_destructors run table s =
     (case table of None \<Rightarrow> s | Some t \<Rightarrow> execute_from run 0 t s)"

declare remove_from.simps [simp del] execute_from.simps [simp del]

subsection \<open>The table as a map\<close>

text \<open>The entries in use, in order of registration; the live ones; and the invariant: the
  array is large enough, and the live keys are distinct and not 0. \<open>destructors\<close> is what the
  table stands for.\<close>

definition entry_list :: "destructor_table \<Rightarrow> destructor_table_entry list" where
  "entry_list t = map (dt_entries t) [0..<dt_n t]"

definition pairs :: "destructor_table_entry list \<Rightarrow> (dword \<times> ptr) list" where
  "pairs es = map (\<lambda>e. (e_key e, e_f e)) (filter (\<lambda>e. e_f e \<noteq> NULL) es)"

lemma pairs_simps [simp]:
  "pairs [] = []"
  "pairs (e # es) = (if e_f e \<noteq> NULL then (e_key e, e_f e) # pairs es else pairs es)"
  "pairs (es @ es') = pairs es @ pairs es'"
  by (simp_all add: pairs_def)

definition live :: "destructor_table \<Rightarrow> (dword \<times> ptr) list" where
  "live t = pairs (entry_list t)"

definition table_ok :: "destructor_table \<Rightarrow> bool" where
  "table_ok t \<longleftrightarrow> dt_n t \<le> dt_size t \<and> 0 < dt_size t \<and> distinct (map fst (live t)) \<and>
     (\<forall>e \<in> set (entry_list t). e_f e = NULL \<longleftrightarrow> e_key e = 0)"

definition table_opt_ok :: "destructor_table option \<Rightarrow> bool" where
  "table_opt_ok t \<longleftrightarrow> (case t of None \<Rightarrow> True | Some t \<Rightarrow> table_ok t)"

definition registered :: "destructor_table option \<Rightarrow> (dword \<times> ptr) list" where
  "registered t = (case t of None \<Rightarrow> [] | Some t \<Rightarrow> live t)"

definition destructors :: "destructor_table option \<Rightarrow> dword \<rightharpoonup> ptr" where
  "destructors t = map_of (registered t)"

lemma entry_list_length [simp]: "length (entry_list t) = dt_n t"
  by (simp add: entry_list_def)

lemma entry_list_nth [simp]: "i < dt_n t \<Longrightarrow> entry_list t ! i = dt_entries t i"
  by (simp add: entry_list_def)

lemma entry_list_add: "entry_list (add_entry f key t) = entry_list t @ [\<lparr>e_key = key, e_f = f\<rparr>]"
  by (simp add: entry_list_def add_entry_def)

lemma grow_entries:
  assumes "table_opt_ok p" and "destructor_table_grow may_alloc p = Some t"
  shows "live t = registered p \<and> dt_n t < dt_size t \<and> table_ok t"
proof (cases p)
  case None
  with assms show ?thesis
    by (auto simp: destructor_table_grow_def Let_def live_def entry_list_def table_ok_def
      registered_def split: if_splits)
next
  case (Some q)
  then have t: "dt_n t = dt_n q" "dt_size t = dt_size q * 2" "dt_entries t = dt_entries q"
    using assms(2) by (auto simp: destructor_table_grow_def Let_def split: if_splits)
  then have "entry_list t = entry_list q" by (simp add: entry_list_def)
  then show ?thesis
    using assms(1) t by (auto simp: Some table_opt_ok_def table_ok_def registered_def live_def)
qed

lemma live_add: "f \<noteq> NULL \<Longrightarrow> live (add_entry f key t) = live t @ [(key, f)]"
  by (simp add: live_def entry_list_add)

lemma add_entry_ok:
  assumes "table_ok t" and "dt_n t < dt_size t" and "f \<noteq> NULL" and "key \<noteq> 0"
    and "key \<notin> fst ` set (live t)"
  shows "table_ok (add_entry f key t)"
proof -
  have "dt_n (add_entry f key t) = dt_n t + 1" "dt_size (add_entry f key t) = dt_size t"
    by (simp_all add: add_entry_def)
  then show ?thesis
    using assms by (auto simp: table_ok_def live_add entry_list_add)
qed

lemma in_fst: "(a, b) \<in> S \<Longrightarrow> a \<in> fst ` S"
  by force

text \<open>Removal: the first entry with the key, as a function of the list of entries.\<close>

fun clear_first :: "dword \<Rightarrow> destructor_table_entry list \<Rightarrow> destructor_table_entry list" where
  "clear_first key [] = []"
| "clear_first key (e # es) =
     (if key = e_key e then \<lparr>e_key = 0, e_f = NULL\<rparr> # es else e # clear_first key es)"

lemma entry_list_from: "p < dt_n t \<Longrightarrow> drop p (entry_list t) = dt_entries t p # drop (p + 1) (entry_list t)"
  by (metis entry_list_length entry_list_nth Cons_nth_drop_Suc Suc_eq_plus1)

lemma remove_from_list:
  "p \<le> dt_n t \<Longrightarrow> entry_list (remove_from p key t) =
     take p (entry_list t) @ clear_first key (drop p (entry_list t)) \<and>
     dt_n (remove_from p key t) = dt_n t \<and> dt_size (remove_from p key t) = dt_size t"
proof (induction p key t rule: remove_from.induct)
  case (1 p key t)
  show ?case
  proof (cases "p < dt_n t")
    case False
    with 1 show ?thesis by (subst (1 2 3) remove_from.simps) simp
  next
    case True
    note d = entry_list_from [OF True]
    show ?thesis
    proof (cases "key = e_key (dt_entries t p)")
      case True
      let ?e = "\<lparr>e_key = 0, e_f = NULL\<rparr>"
      have "entry_list (t\<lparr>dt_entries := (dt_entries t)(p := ?e)\<rparr>) = (entry_list t)[p := ?e]"
        by (rule nth_equalityI) (auto simp: entry_list_def nth_list_update)
      also have "\<dots> = take p (entry_list t) @ ?e # drop (p + 1) (entry_list t)"
        using \<open>p < dt_n t\<close> by (simp add: upd_conv_take_nth_drop)
      finally show ?thesis
        using True \<open>p < dt_n t\<close> by (simp add: remove_from.simps [of p] d)
    next
      case False
      have "take (p + 1) (entry_list t) = take p (entry_list t) @ [dt_entries t p]"
        using \<open>p < dt_n t\<close> by (simp add: take_Suc_conv_app_nth)
      with 1 False \<open>p < dt_n t\<close> show ?thesis by (simp add: remove_from.simps [of p] d)
    qed
  qed
qed

lemma live_clear_first:
  assumes "key \<noteq> 0" and "distinct (map fst (pairs es))"
    and "\<forall>e \<in> set es. e_f e = NULL \<longleftrightarrow> e_key e = 0"
  shows "pairs (clear_first key es) =
    filter (\<lambda>(k, f). k \<noteq> key) (pairs es)"
  using assms
proof (induction es)
  case Nil
  then show ?case by simp
next
  case (Cons e es)
  show ?case
  proof (cases "key = e_key e")
    case True
    with Cons.prems have "key \<notin> fst ` set (pairs es)"
      by (auto split: if_splits)
    then have "filter (\<lambda>(k, f). k \<noteq> key) (pairs es) = pairs es"
      by (intro filter_True) (auto dest: in_fst)
    with True show ?thesis by auto
  next
    case False
    with Cons show ?thesis by auto
  qed
qed

lemma clear_first_entries:
  "e \<in> set (clear_first key es) \<Longrightarrow> e \<in> set es \<or> e = \<lparr>e_key = 0, e_f = NULL\<rparr>"
  by (induction es) (auto split: if_splits)

lemma remove_live:
  assumes "table_ok t" and "key \<noteq> 0"
  shows "live (remove_from 0 key t) = filter (\<lambda>(k, f). k \<noteq> key) (live t) \<and>
    table_ok (remove_from 0 key t)"
proof -
  note r = remove_from_list [of 0 t key, simplified]
  have l: "live (remove_from 0 key t) = filter (\<lambda>(k, f). k \<noteq> key) (live t)"
    using live_clear_first [OF assms(2), of "entry_list t"] assms(1) r
    by (simp add: live_def table_ok_def)
  have "\<forall>e \<in> set (entry_list (remove_from 0 key t)). e_f e = NULL \<longleftrightarrow> e_key e = 0"
    using r assms(1) by (auto simp: table_ok_def dest!: clear_first_entries)
  then show ?thesis
    using l r assms(1) by (simp add: table_ok_def distinct_map_filter)
qed

text \<open>Execution over the list of entries.\<close>

fun execute_list :: "destructor \<Rightarrow> destructor_table_entry list \<Rightarrow> tls \<Rightarrow> tls" where
  "execute_list run [] s = s"
| "execute_list run (e # es) s =
     (if e_f e \<noteq> NULL \<and> tls_values s (e_key e) \<noteq> NULL
      then execute_list run es
        (call_destructor run (e_f e) (tls_values s (e_key e)) (TlsSetValue (e_key e) NULL s))
      else execute_list run es s)"

lemma execute_from_list:
  "p \<le> dt_n t \<Longrightarrow> execute_from run p t s = execute_list run (drop p (entry_list t)) s"
proof (induction run p t s rule: execute_from.induct)
  case (1 run p t s)
  show ?case
  proof (cases "p < dt_n t")
    case False
    with 1 show ?thesis by (subst execute_from.simps) simp
  next
    case True
    note d = entry_list_from [OF True]
    show ?thesis
      using 1 True by (simp add: execute_from.simps [of run p] d Let_def TlsGetValue_def)
  qed
qed

text \<open>The calls that are due: in order of registration, for the keys that have a value.\<close>

definition calls_due :: "tls \<Rightarrow> (dword \<times> ptr) list \<Rightarrow> (ptr \<times> ptr) list" where
  "calls_due s l =
     map (\<lambda>(k, f). (f, tls_values s k)) (filter (\<lambda>(k, f). tls_values s k \<noteq> NULL) l)"

lemma calls_due_simps [simp]:
  "calls_due s [] = []"
  "calls_due s ((k, f) # l) =
     (if tls_values s k \<noteq> NULL then (f, tls_values s k) # calls_due s l else calls_due s l)"
  by (simp_all add: calls_due_def)

lemma calls_due_cong:
  "\<forall>k \<in> fst ` set l. tls_values s k = tls_values s' k \<Longrightarrow> calls_due s l = calls_due s' l"
  by (induction l) auto

text \<open>What a destructor may assume and has to keep: when it is called, the value of its key is
  gone; then it leaves the value of \<open>k'\<close> alone.\<close>

definition leaves_alone :: "destructor \<Rightarrow> (dword \<times> ptr) list \<Rightarrow> dword \<Rightarrow> bool" where
  "leaves_alone run l k' \<longleftrightarrow> (\<forall>(k, f) \<in> set l. \<forall>v m. m k = NULL \<longrightarrow> run f v m k' = m k')"

lemma leaves_aloneD: "leaves_alone run l k' \<Longrightarrow> (k, f) \<in> set l \<Longrightarrow> m k = NULL \<Longrightarrow> run f v m k' = m k'"
  by (auto simp: leaves_alone_def)

lemma execute_list_calls:
  assumes "\<forall>k \<in> fst ` set l. leaves_alone run l k"
    and "distinct (map fst (pairs es))" and "set (pairs es) \<subseteq> set l"
  shows "tls_calls (execute_list run es s) = tls_calls s @ calls_due s (pairs es) \<and>
    (\<forall>k \<in> fst ` set (pairs es). tls_values (execute_list run es s) k = NULL) \<and>
    (\<forall>k. k \<notin> fst ` set (pairs es) \<longrightarrow> leaves_alone run l k \<longrightarrow>
      tls_values (execute_list run es s) k = tls_values s k)"
  using assms(2,3)
proof (induction es arbitrary: s)
  case Nil
  then show ?case by simp
next
  case (Cons e es)
  show ?case
  proof (cases "e_f e \<noteq> NULL \<and> tls_values s (e_key e) \<noteq> NULL")
    case False
    have "fst ` set (pairs es) \<subseteq> fst ` set l" using Cons.prems(2) by (auto split: if_splits)
    have "tls_values (execute_list run es s) (e_key e) = NULL" if "e_f e \<noteq> NULL"
    proof -
      have "e_key e \<notin> fst ` set (pairs es)" "leaves_alone run l (e_key e)"
        using Cons.prems assms(1) that by force+
      with Cons.IH [of s] Cons.prems that False show ?thesis by simp
    qed
    with Cons False show ?thesis by (auto simp: case_prod_beta split: if_splits)
  next
    case True
    let ?s = "call_destructor run (e_f e) (tls_values s (e_key e)) (TlsSetValue (e_key e) NULL s)"
    have member: "(e_key e, e_f e) \<in> set l" using Cons.prems(2) True by simp
    then have own: "leaves_alone run l (e_key e)" using assms(1) by (force dest: in_fst)
    have vals: "tls_values ?s k = ((tls_values s)(e_key e := NULL)) k" if "leaves_alone run l k" for k
      using leaves_aloneD [OF that member, of "(tls_values s)(e_key e := NULL)"]
      by (simp add: call_destructor_def TlsSetValue_def)
    have calls: "tls_calls ?s = tls_calls s @ [(e_f e, tls_values s (e_key e))]"
      by (simp add: call_destructor_def TlsSetValue_def)
    have fresh: "e_key e \<notin> fst ` set (pairs es)" using Cons.prems True by auto
    have "tls_values ?s k = tls_values s k" if "k \<in> fst ` set (pairs es)" for k
    proof -
      have "leaves_alone run l k" using assms(1) Cons.prems(2) that by (auto split: if_splits)
      from vals [OF this] fresh that show ?thesis by (cases "k = e_key e") auto
    qed
    then have "calls_due ?s (pairs es) = calls_due s (pairs es)" by (intro calls_due_cong) auto
    moreover have "distinct (map fst (pairs es))" "set (pairs es) \<subseteq> set l" using Cons.prems True by auto
    note ih = Cons.IH [OF this, of ?s]
    moreover have "tls_values (execute_list run es ?s) (e_key e) = NULL"
      using ih fresh own vals [OF own] by simp
    ultimately show ?thesis using True calls vals by (auto simp: fun_upd_def)
  qed
qed

subsection \<open>Properties\<close>

lemma add_registers:
  assumes ok: "table_opt_ok p" and "key \<noteq> 0" and "f \<noteq> NULL" and fresh: "destructors p key = None"
    and add: "destructor_table_add_destructor_for_key nd may_alloc p f key = Inr (0, p')"
  shows "table_opt_ok p' \<and> registered p' = registered p @ [(key, f)]"
proof -
  have new: "key \<notin> fst ` set (registered p)"
    using fresh by (simp add: destructors_def map_of_eq_None_iff)
  show ?thesis
  proof (cases "p = None \<or> dt_n (the p) = dt_size (the p)")
    case True
    then obtain t where t: "destructor_table_grow may_alloc p = Some t" "p' = Some (add_entry f key t)"
      using add assms(2,3)
      by (auto simp: destructor_table_add_destructor_for_key_def c_assert_eq_Inr split: option.splits)
    with grow_entries [OF ok t(1)] add_entry_ok [of t f key] new assms(2,3) show ?thesis
      by (simp add: table_opt_ok_def registered_def live_add)
  next
    case False
    then obtain t where t: "p = Some t" "dt_n t \<noteq> dt_size t" by auto
    then have "p' = Some (add_entry f key t)"
      using add assms(2,3) by (auto simp: destructor_table_add_destructor_for_key_def)
    moreover have "table_ok t" "dt_n t < dt_size t"
      using ok t by (auto simp: table_opt_ok_def table_ok_def)
    ultimately show ?thesis
      using add_entry_ok [of t f key] new assms(2,3) t by (simp add: table_opt_ok_def registered_def live_add)
  qed
qed

lemma add_result:
  assumes "\<And>n. may_alloc n" and "key \<noteq> 0"
  shows "\<exists>p'. destructor_table_add_destructor_for_key nd may_alloc p f key = Inr (0, p')"
  using assms
  by (auto simp: destructor_table_add_destructor_for_key_def destructor_table_grow_def Let_def)

lemma remove_unregisters:
  assumes "table_opt_ok p" and "key \<noteq> 0"
  shows "table_opt_ok (destructor_table_remove_destructor_for_key p key) \<and>
    registered (destructor_table_remove_destructor_for_key p key) =
      filter (\<lambda>(k, f). k \<noteq> key) (registered p)"
  using assms remove_live
  by (cases p) (auto simp: table_opt_ok_def registered_def
    destructor_table_remove_destructor_for_key_def)

lemma destructors_append:
  "key \<notin> fst ` set l \<Longrightarrow> map_of (l @ [(key, f)]) = (map_of l)(key \<mapsto> f)"
  by (induction l) auto

lemma destructors_filter: "map_of (filter (\<lambda>(k, f). k \<noteq> key) l) = (map_of l)(key := None)"
  by (induction l) auto

text \<open>C16: the destructor table is a finite map from keys to destructors. On a well-formed table
  and with memory to be had, adding a destructor for a fresh key is a map update, removing a
  key deletes it from the map and nothing else, and the table stays well-formed, across
  growing; so a removal undoes an addition.\<close>

theorem destructor_table_refines_map:
  assumes "table_opt_ok p" and "key \<noteq> 0" and "f \<noteq> NULL" and "destructors p key = None"
    and "\<And>n. may_alloc n"
  shows "\<exists>p'. destructor_table_add_destructor_for_key nd may_alloc p f key = Inr (0, p') \<and>
    table_opt_ok p' \<and> destructors p' = (destructors p)(key \<mapsto> f) \<and>
    (\<forall>k. k \<noteq> 0 \<longrightarrow> table_opt_ok (destructor_table_remove_destructor_for_key p' k) \<and>
      destructors (destructor_table_remove_destructor_for_key p' k) = (destructors p')(k := None)) \<and>
    destructors (destructor_table_remove_destructor_for_key p' key) = destructors p"
proof -
  obtain p' where p': "destructor_table_add_destructor_for_key nd may_alloc p f key = Inr (0, p')"
    using add_result assms(2,5) by blast
  note a = add_registers [OF assms(1-4) p']
  have new: "key \<notin> fst ` set (registered p)"
    using assms(4) by (simp add: destructors_def map_of_eq_None_iff)
  have up: "destructors p' = (destructors p)(key \<mapsto> f)"
    using a destructors_append [OF new] by (simp add: destructors_def)
  have rem: "table_opt_ok (destructor_table_remove_destructor_for_key p' k) \<and>
      destructors (destructor_table_remove_destructor_for_key p' k) = (destructors p')(k := None)"
    if "k \<noteq> 0" for k
  proof -
    have "table_opt_ok p'" using a by simp
    from remove_unregisters [OF this that] show ?thesis
      by (simp only: destructors_def destructors_filter)
  qed
  have "(destructors p)(key := None) = destructors p"
    using assms(4) by (simp add: fun_upd_idem)
  with rem [OF assms(2)] up p' a rem show ?thesis by auto
qed

theorem destructor_table_refines_map_witness:
  "\<exists>p'. destructor_table_add_destructor_for_key False (\<lambda>n. True) None 7 3 = Inr (0, p') \<and>
     destructors p' 3 = Some 7"
proof -
  have "table_opt_ok None" "destructors None 3 = None"
    by (simp_all add: table_opt_ok_def destructors_def registered_def)
  from destructor_table_refines_map [OF this(1) _ _ this(2), of 7 "\<lambda>n. True" False] show ?thesis
    by auto
qed

text \<open>C17: at the end of a thread exactly the destructors of the keys with a value are called,
  once each, in the order of registration and with that value, and afterwards all registered
  keys are empty, as long as destructors don't store into the registered keys. Each of them
  may rely on the value of its own key being gone when it is called: what a destructor would do
  with the value still there doesn't matter. Keys without a destructor keep their values if
  the destructors leave them alone.\<close>

theorem destructors_executed:
  assumes "table_opt_ok p"
    and "\<And>k f v m k'. destructors p k = Some f \<Longrightarrow> m k = NULL \<Longrightarrow> destructors p k' \<noteq> None \<Longrightarrow>
      run f v m k' = m k'"
  shows "tls_calls (destructor_table_execute_destructors run p s) =
      tls_calls s @ map (\<lambda>(k, f). (f, tls_values s k))
        (filter (\<lambda>(k, f). tls_values s k \<noteq> NULL) (registered p)) \<and>
    (\<forall>k. destructors p k \<noteq> None \<longrightarrow>
      tls_values (destructor_table_execute_destructors run p s) k = NULL) \<and>
    (\<forall>k'. destructors p k' = None \<longrightarrow>
      (\<forall>k f v m. destructors p k = Some f \<longrightarrow> m k = NULL \<longrightarrow> run f v m k' = m k') \<longrightarrow>
      tls_values (destructor_table_execute_destructors run p s) k' = tls_values s k')"
proof (cases p)
  case None
  then show ?thesis
    by (simp add: destructor_table_execute_destructors_def registered_def destructors_def)
next
  case (Some t)
  let ?l = "pairs (entry_list t)"
  have d: "distinct (map fst ?l)"
    using assms(1) by (simp add: Some table_opt_ok_def table_ok_def live_def)
  have reg: "destructors p k = Some f \<longleftrightarrow> (k, f) \<in> set ?l" for k f
    using d by (simp add: destructors_def registered_def Some live_def map_of_eq_Some_iff)
  have none: "destructors p k = None \<longleftrightarrow> k \<notin> fst ` set ?l" for k
    by (simp add: destructors_def registered_def Some live_def map_of_eq_None_iff)
  have alone: "leaves_alone run ?l k' \<longleftrightarrow>
      (\<forall>k f v m. destructors p k = Some f \<longrightarrow> m k = NULL \<longrightarrow> run f v m k' = m k')" for k'
    unfolding leaves_alone_def reg by auto
  have "\<forall>k \<in> fst ` set ?l. leaves_alone run ?l k"
    using assms(2) none unfolding alone by blast
  from execute_list_calls [OF this d subset_refl, of s] show ?thesis
    unfolding alone [symmetric] none
    by (auto simp: Some destructor_table_execute_destructors_def execute_from_list registered_def
      live_def calls_due_def)
qed

definition example_table :: destructor_table where
  "example_table = add_entry 8 4 (add_entry 7 3 \<lparr>dt_n = 0, dt_size = 4, dt_entries = empty_entries\<rparr>)"

lemma example_table_ok: "table_opt_ok (Some example_table)" "registered (Some example_table) = [(3, 7), (4, 8)]"
  by (auto simp: example_table_def table_opt_ok_def table_ok_def live_def entry_list_def
    add_entry_def registered_def upt_rec pairs_def)

theorem destructors_executed_witness:
  "tls_calls (destructor_table_execute_destructors (\<lambda>f v m. m(9 := v)) (Some example_table)
     \<lparr>tls_values = (\<lambda>k. if k = 4 then 9 else 0), tls_calls = []\<rparr>) = [(8, 9)]"
proof -
  have "(m(9 := v)) k' = m k'" if "destructors (Some example_table) k' \<noteq> None"
    for m :: "dword \<Rightarrow> ptr" and v k'
    using that by (auto simp: destructors_def example_table_ok(2) split: if_splits)
  from destructors_executed [OF example_table_ok(1), of "\<lambda>f v m. m(9 := v)"
      "\<lparr>tls_values = (\<lambda>k. if k = 4 then 9 else 0), tls_calls = []\<rparr>", OF this]
  show ?thesis by (simp add: example_table_ok(2))
qed

text \<open>A failing \<open>realloc\<close> loses the table: if a full table can't grow, the addition of a
  destructor reports -1 and the pointer to the table is overwritten with NULL, so the
  destructors of all other keys are forgotten too.\<close>

theorem failed_growth_loses_table:
  assumes "dt_n t = dt_size t" and "key \<noteq> 0" and "f \<noteq> NULL" and "\<And>n. \<not> may_alloc n"
  shows "destructor_table_add_destructor_for_key nd may_alloc (Some t) f key = Inr (- 1, None) \<and>
    registered None = []"
  using assms by (simp add: destructor_table_add_destructor_for_key_def destructor_table_grow_def
    registered_def Let_def)

theorem failed_growth_loses_table_witness:
  "destructor_table_add_destructor_for_key False (\<lambda>n. False)
     (Some \<lparr>dt_n = 4, dt_size = 4, dt_entries = dt_entries example_table\<rparr>) 9 5 = Inr (- 1, None)"
  using failed_growth_loses_table [of "\<lparr>dt_n = 4, dt_size = 4, dt_entries = dt_entries example_table\<rparr>"
      5 9 "\<lambda>n. False" False]
  by simp

end
