(* ===== verification/Win_Tss.thy ===== *)
theory Win_Tss
  imports Win_Tss_Table
begin

text \<open>
  Thread specific storage on Windows (\<open>src/mulle-thread-windows.c\<close>): the counter
  \<open>global.inited\<close> that creates the critical section \<open>global.lock\<close> with the first key and
  deletes it with the last, and the functions over it. \<open>mulle_thread_tss_init\<close> and
  \<open>mulle_thread_tss_done\<close>, which exist to be called concurrently, are an interleaving of
  threads, one interlocked operation or API call per step. The other functions run under the
  lock and are sequential functions; they use the uninterrupted runs of the two.
\<close>

subsection \<open>The counter\<close>

datatype tg_pc =
  I_inc | I_create | I_publish | I_undo | I_yield | I_ret
| D_dec | D_delete | D_free | D_publish | D_ret | D_abort

text \<open>\<open>inited\<close> is a \<open>LONG\<close>; \<open>lock_live\<close> says that the critical section exists.\<close>

record tss_global =
  inited :: dword
  lock_live :: bool
  g_table :: "destructor_table option"

definition mulle_thread_tss_init :: "tg_pc \<Rightarrow> tss_global \<Rightarrow> tg_pc \<times> tss_global" where
  "mulle_thread_tss_init pc g =
     (case pc of
        I_inc \<Rightarrow>
          (let v = inited g + 1; g' = g\<lparr>inited := v\<rparr> in
           if v = 1 then (I_create, g') else if v = 2 then (I_undo, g') else (I_ret, g'))
      | I_create \<Rightarrow> (I_publish, g\<lparr>lock_live := True\<rparr>)
      | I_publish \<Rightarrow> (I_ret, g\<lparr>inited := inited g + 1\<rparr>)
      | I_undo \<Rightarrow> (I_yield, g\<lparr>inited := inited g - 1\<rparr>)
      | I_yield \<Rightarrow> (I_inc, g)
      | _ \<Rightarrow> (pc, g))"

definition mulle_thread_tss_done :: "bool \<Rightarrow> tg_pc \<Rightarrow> tss_global \<Rightarrow> tg_pc \<times> tss_global" where
  "mulle_thread_tss_done ndebug pc g =
     (case pc of
        D_dec \<Rightarrow>
          (let v = inited g - 1; g' = g\<lparr>inited := v\<rparr> in
           if v = 0 then (if ndebug then D_ret else D_abort, g')
           else if v = 1 then (D_delete, g') else (D_ret, g'))
      | D_delete \<Rightarrow> (D_free, g\<lparr>lock_live := False\<rparr>)
      | D_free \<Rightarrow> (D_publish, g\<lparr>g_table := None\<rparr>)
      | D_publish \<Rightarrow> (D_ret, g\<lparr>inited := inited g - 1\<rparr>)
      | _ \<Rightarrow> (pc, g))"

text \<open>The threads that are inside one of the two, by their points.\<close>

record tss_sys =
  ts_global :: tss_global
  ts_pc :: "tid \<Rightarrow> tg_pc option"

datatype tss_move = Begin_init tid | Begin_done tid | Go tid

definition is_init_pc :: "tg_pc \<Rightarrow> bool" where
  "is_init_pc pc \<longleftrightarrow> pc \<in> {I_inc, I_create, I_publish, I_undo, I_yield, I_ret}"

fun tss_exec :: "bool \<Rightarrow> tss_move \<Rightarrow> tss_sys \<Rightarrow> tss_sys option" where
  "tss_exec ndebug (Begin_init t) s =
     (if ts_pc s t = None then Some (s\<lparr>ts_pc := (ts_pc s)(t := Some I_inc)\<rparr>) else None)"
| "tss_exec ndebug (Begin_done t) s =
     (if ts_pc s t = None then Some (s\<lparr>ts_pc := (ts_pc s)(t := Some D_dec)\<rparr>) else None)"
| "tss_exec ndebug (Go t) s =
     (case ts_pc s t of
        None \<Rightarrow> None
      | Some pc \<Rightarrow>
          if pc = I_ret \<or> pc = D_ret then Some (s\<lparr>ts_pc := (ts_pc s)(t := None)\<rparr>)
          else if pc = D_abort then None
          else (case (if is_init_pc pc then mulle_thread_tss_init pc (ts_global s)
                      else mulle_thread_tss_done ndebug pc (ts_global s)) of
              (pc', g') \<Rightarrow> Some (s\<lparr>ts_global := g', ts_pc := (ts_pc s)(t := Some pc')\<rparr>)))"

fun tss_run :: "bool \<Rightarrow> tss_move list \<Rightarrow> tss_sys \<Rightarrow> tss_sys option" where
  "tss_run ndebug [] s = Some s"
| "tss_run ndebug (mv # mvs) s =
     (case tss_exec ndebug mv s of None \<Rightarrow> None | Some s' \<Rightarrow> tss_run ndebug mvs s')"

definition tss_global_start :: tss_global where
  "tss_global_start = \<lparr>inited = 0, lock_live = False, g_table = None\<rparr>"

definition tss_start :: tss_sys where
  "tss_start = \<lparr>ts_global = tss_global_start, ts_pc = (\<lambda>t. None)\<rparr>"

lemmas tss_step_defs = mulle_thread_tss_init_def mulle_thread_tss_done_def Let_def is_init_pc_def

subsection \<open>Uninterrupted runs\<close>

text \<open>\<open>None\<close>: the call never returns by itself (it waits for another thread that isn't there).\<close>

definition tss_init_alone :: "tss_global \<Rightarrow> tss_global option" where
  "tss_init_alone g =
     (if inited g + 1 = 1 then Some (g\<lparr>inited := 2, lock_live := True\<rparr>)
      else if inited g + 1 = 2 then None
      else Some (g\<lparr>inited := inited g + 1\<rparr>))"

definition tss_done_alone :: "bool \<Rightarrow> tss_global \<Rightarrow> tss_global option" where
  "tss_done_alone ndebug g =
     (if inited g - 1 = 0 then if ndebug then Some (g\<lparr>inited := 0\<rparr>) else None
      else if inited g - 1 = 1 then Some (g\<lparr>inited := 0, lock_live := False, g_table := None\<rparr>)
      else Some (g\<lparr>inited := inited g - 1\<rparr>))"

lemma init_alone_run:
  assumes "ts_pc s t = None" and "tss_init_alone (ts_global s) = Some g"
  shows "\<exists>n. tss_run nd (Begin_init t # replicate n (Go t)) s = Some (s\<lparr>ts_global := g\<rparr>)"
proof (cases "inited (ts_global s) + 1 = 1")
  case True
  then have "tss_run nd (Begin_init t # replicate 4 (Go t)) s = Some (s\<lparr>ts_global := g\<rparr>)"
    using assms by (auto simp: tss_init_alone_def tss_step_defs eval_nat_numeral fun_upd_idem)
  then show ?thesis by blast
next
  case False
  then have "tss_run nd (Begin_init t # replicate 2 (Go t)) s = Some (s\<lparr>ts_global := g\<rparr>)"
    using assms
    by (auto simp: tss_init_alone_def tss_step_defs eval_nat_numeral fun_upd_idem split: if_splits)
  then show ?thesis by blast
qed

lemma done_alone_run:
  assumes "ts_pc s t = None" and "tss_done_alone nd (ts_global s) = Some g"
  shows "\<exists>n. tss_run nd (Begin_done t # replicate n (Go t)) s = Some (s\<lparr>ts_global := g\<rparr>)"
proof (cases "inited (ts_global s) - 1 = 1")
  case True
  then have "tss_run nd (Begin_done t # replicate 5 (Go t)) s = Some (s\<lparr>ts_global := g\<rparr>)"
    using assms by (auto simp: tss_done_alone_def tss_step_defs eval_nat_numeral fun_upd_idem)
  then show ?thesis by blast
next
  case False
  then have "tss_run nd (Begin_done t # replicate 2 (Go t)) s = Some (s\<lparr>ts_global := g\<rparr>)"
    using assms
    by (auto simp: tss_done_alone_def tss_step_defs eval_nat_numeral fun_upd_idem split: if_splits)
  then show ?thesis by blast
qed

subsection \<open>The functions under the lock\<close>

text \<open>What can go wrong besides a failed assertion: entering a critical section that doesn't
  exist (undefined on Windows), and waiting forever.\<close>

datatype tss_fault = Tss_assertion | Dead_section | Hangs

definition tss_assert :: "bool \<Rightarrow> bool \<Rightarrow> tss_fault + 'a \<Rightarrow> tss_fault + 'a" where
  "tss_assert ndebug c k = (if ndebug \<or> c then k else Inl Tss_assertion)"

definition enter_lock :: "tss_global \<Rightarrow> tss_fault + 'a \<Rightarrow> tss_fault + 'a" where
  "enter_lock g k = (if lock_live g then k else Inl Dead_section)"

definition mulle_thread_windows_add_tss ::
  "bool \<Rightarrow> (nat \<Rightarrow> bool) \<Rightarrow> dword \<Rightarrow> ptr \<Rightarrow> tss_global \<Rightarrow> tss_fault + (int \<times> tss_global)"
where
  "mulle_thread_windows_add_tss ndebug may_alloc key f g =
     (case tss_init_alone g of
        None \<Rightarrow> Inl Hangs
      | Some g1 \<Rightarrow> enter_lock g1
          (case destructor_table_add_destructor_for_key ndebug may_alloc (g_table g1) f key of
             Inl e \<Rightarrow> Inl Tss_assertion
           | Inr (rval, table) \<Rightarrow>
               tss_assert ndebug (rval = 0) (Inr (rval, g1\<lparr>g_table := table\<rparr>))))"

definition mulle_thread_windows_remove_tss ::
  "bool \<Rightarrow> dword \<Rightarrow> tss_global \<Rightarrow> tss_fault + tss_global"
where
  "mulle_thread_windows_remove_tss ndebug key g =
     tss_assert ndebug (inited g \<noteq> 0)
       (enter_lock g
         (case tss_done_alone ndebug
             (g\<lparr>g_table := destructor_table_remove_destructor_for_key (g_table g) key\<rparr>) of
            None \<Rightarrow> Inl Tss_assertion
          | Some g' \<Rightarrow> Inr g'))"

definition mulle_thread_windows_destroy_tss ::
  "bool \<Rightarrow> destructor \<Rightarrow> tss_global \<Rightarrow> tls \<Rightarrow> tss_fault + tls"
where
  "mulle_thread_windows_destroy_tss ndebug run g s =
     tss_assert ndebug (inited g \<noteq> 0)
       (enter_lock g (Inr (destructor_table_execute_destructors run (g_table g) s)))"

text \<open>\<open>global.inited >= 2\<close> is a signed comparison.\<close>

definition mulle_thread_windows_destroy_tss_if_needed ::
  "bool \<Rightarrow> destructor \<Rightarrow> tss_global \<Rightarrow> tls \<Rightarrow> tss_fault + tls"
where
  "mulle_thread_windows_destroy_tss_if_needed ndebug run g s =
     (if 2 \<le> sint (inited g) then mulle_thread_windows_destroy_tss ndebug run g s else Inr s)"

text \<open>\<open>mulle_thread_exit\<close> runs the destructors and ends the thread with \<open>rval\<close>
  (\<open>_endthreadex\<close>); \<open>mulle_thread_return\<close>, at the end of a thread function, runs them only if
  needed and returns 0.\<close>

definition win_mulle_thread_exit ::
  "bool \<Rightarrow> destructor \<Rightarrow> int \<Rightarrow> tss_global \<Rightarrow> tls \<Rightarrow> tss_fault + (dword \<times> tls)"
where
  "win_mulle_thread_exit ndebug run rval g s =
     (case mulle_thread_windows_destroy_tss ndebug run g s of
        Inl e \<Rightarrow> Inl e | Inr s' \<Rightarrow> Inr (word_of_int rval, s'))"

definition win_mulle_thread_return ::
  "bool \<Rightarrow> destructor \<Rightarrow> tss_global \<Rightarrow> tls \<Rightarrow> tss_fault + (dword \<times> tls)"
where
  "win_mulle_thread_return ndebug run g s =
     (case mulle_thread_windows_destroy_tss_if_needed ndebug run g s of
        Inl e \<Rightarrow> Inl e | Inr s' \<Rightarrow> Inr (0, s'))"

definition TLS_OUT_OF_INDEXES :: dword where
  "TLS_OUT_OF_INDEXES = 0xFFFFFFFF"

text \<open>\<open>index\<close> is what \<open>TlsAlloc\<close> returns; the results are the code, \<open>*key\<close> and the state.\<close>

definition win_mulle_thread_tss_create ::
  "bool \<Rightarrow> (nat \<Rightarrow> bool) \<Rightarrow> dword \<Rightarrow> ptr \<Rightarrow> tss_global \<Rightarrow> tss_fault + (int \<times> dword \<times> tss_global)"
where
  "win_mulle_thread_tss_create ndebug may_alloc index f g =
     (if index = TLS_OUT_OF_INDEXES then Inr (- 1, 0, g)
      else (case mulle_thread_windows_add_tss ndebug may_alloc index f g of
          Inl e \<Rightarrow> Inl e | Inr (rval, g') \<Rightarrow> Inr (rval, index, g')))"

text \<open>\<open>TlsFree\<close> gives the index back to Windows; it is the last step of \<open>tss_free\<close>.\<close>

definition win_mulle_thread_tss_free :: "bool \<Rightarrow> dword \<Rightarrow> tss_global \<Rightarrow> tss_fault + tss_global" where
  "win_mulle_thread_tss_free ndebug key g = mulle_thread_windows_remove_tss ndebug key g"

text \<open>\<open>mulle_thread_tss_get\<close> and \<open>mulle_thread_tss_set\<close>; \<open>set_ok\<close> is the success of
  \<open>TlsSetValue\<close>.\<close>

definition win_mulle_thread_tss_get :: "dword \<Rightarrow> tls \<Rightarrow> ptr" where
  "win_mulle_thread_tss_get key s = TlsGetValue key s"

definition win_mulle_thread_tss_set :: "bool \<Rightarrow> dword \<Rightarrow> ptr \<Rightarrow> tls \<Rightarrow> int \<times> tls" where
  "win_mulle_thread_tss_set set_ok key value s =
     (if set_ok then (0, TlsSetValue key value s) else (- 1, s))"

subsection \<open>The life of the storage\<close>

text \<open>
  Clients create keys and free keys they have. Windows hands out indexes that are not in use
  and at most 1088 of them; index 0 is left out, because the library asserts that it never
  gets it.
\<close>

datatype tss_op = Create dword ptr | Free dword

record tss_life =
  tl_global :: tss_global
  tl_keys :: "(dword \<times> ptr) list"

definition tss_op :: "bool \<Rightarrow> (nat \<Rightarrow> bool) \<Rightarrow> tss_op \<Rightarrow> tss_life \<Rightarrow> tss_fault + tss_life" where
  "tss_op ndebug may_alloc op l =
     (case op of
        Create key f \<Rightarrow>
          (case win_mulle_thread_tss_create ndebug may_alloc key f (tl_global l) of
             Inl e \<Rightarrow> Inl e
           | Inr (rval, k, g) \<Rightarrow> Inr \<lparr>tl_global = g, tl_keys = tl_keys l @ [(k, f)]\<rparr>)
      | Free key \<Rightarrow>
          (case win_mulle_thread_tss_free ndebug key (tl_global l) of
             Inl e \<Rightarrow> Inl e
           | Inr g \<Rightarrow> Inr \<lparr>tl_global = g, tl_keys = filter (\<lambda>(k, f). k \<noteq> key) (tl_keys l)\<rparr>))"

fun tss_ops :: "bool \<Rightarrow> (nat \<Rightarrow> bool) \<Rightarrow> tss_op list \<Rightarrow> tss_life \<Rightarrow> tss_fault + tss_life" where
  "tss_ops ndebug may_alloc [] l = Inr l"
| "tss_ops ndebug may_alloc (op # ops) l =
     (case tss_op ndebug may_alloc op l of
        Inl e \<Rightarrow> Inl e | Inr l' \<Rightarrow> tss_ops ndebug may_alloc ops l')"

fun tss_ops_allowed :: "tss_op list \<Rightarrow> (dword \<times> ptr) list \<Rightarrow> bool" where
  "tss_ops_allowed [] ks = True"
| "tss_ops_allowed (Create key f # ops) ks =
     (key \<noteq> 0 \<and> key \<noteq> TLS_OUT_OF_INDEXES \<and> key \<notin> fst ` set ks \<and> length ks < 1088 \<and>
      tss_ops_allowed ops (ks @ [(key, f)]))"
| "tss_ops_allowed (Free key # ops) ks =
     (key \<in> fst ` set ks \<and> tss_ops_allowed ops (filter (\<lambda>(k, f). k \<noteq> key) ks))"

definition tss_life_start :: tss_life where
  "tss_life_start = \<lparr>tl_global = tss_global_start, tl_keys = []\<rparr>"

text \<open>The invariant: the counter is 0 without keys and else one more than their number; the
  lock exists exactly while there are keys; the table holds their destructors.\<close>

definition tss_inv :: "tss_life \<Rightarrow> bool" where
  "tss_inv l \<longleftrightarrow>
     (let g = tl_global l; ks = tl_keys l in
      distinct (map fst ks) \<and> (\<forall>(k, f) \<in> set ks. k \<noteq> 0) \<and> length ks \<le> 1088 \<and>
      inited g = (if ks = [] then 0 else word_of_nat (length ks + 1)) \<and>
      (lock_live g \<longleftrightarrow> ks \<noteq> []) \<and> table_opt_ok (g_table g) \<and>
      registered (g_table g) = filter (\<lambda>(k, f). f \<noteq> NULL) ks)"

lemma tss_start_inv: "tss_inv tss_life_start"
  by (simp add: tss_inv_def tss_life_start_def tss_global_start_def table_opt_ok_def registered_def)

lemma small_word:
  "n \<le> 2000 \<Longrightarrow> m \<le> 2000 \<Longrightarrow> (word_of_nat n = (word_of_nat m :: dword)) = (n = m)"
proof -
  assume "n \<le> 2000" "m \<le> 2000"
  then have "unat (word_of_nat n :: dword) = n" "unat (word_of_nat m :: dword) = m"
    by (simp_all add: unat_of_nat take_bit_nat_eq_self)
  then show ?thesis by metis
qed

lemma tss_init_counts:
  assumes "inited g = (if n = 0 then 0 else word_of_nat (n + 1))" and "n < 1088"
  shows "tss_init_alone g =
    Some (g\<lparr>inited := word_of_nat (n + 2), lock_live := (n = 0 \<or> lock_live g)\<rparr>)"
proof (cases "n = 0")
  case True
  then show ?thesis using assms(1) by (simp add: tss_init_alone_def)
next
  case False
  have "inited g + 1 = word_of_nat (n + 2)" using assms(1) False by simp
  moreover have "word_of_nat (n + 2) \<noteq> (1 :: dword)" "word_of_nat (n + 2) \<noteq> (2 :: dword)"
    using small_word [of "n + 2" 1] small_word [of "n + 2" 2] assms(2) False by auto
  ultimately show ?thesis using False by (simp only: tss_init_alone_def) simp
qed

lemma tss_done_counts:
  assumes "inited g = word_of_nat (n + 2)" and "n < 1088"
  shows "tss_done_alone nd g =
    Some (if n = 0 then g\<lparr>inited := 0, lock_live := False, g_table := None\<rparr>
      else g\<lparr>inited := word_of_nat (n + 1)\<rparr>)"
proof -
  have "inited g - 1 = word_of_nat (n + 1)" using assms(1) by simp
  moreover have "word_of_nat (n + 1) \<noteq> (0 :: dword)" "word_of_nat (n + 1) = (1 :: dword) \<longleftrightarrow> n = 0"
    using small_word [of "n + 1" 0] small_word [of "n + 1" 1] assms(2) by auto
  ultimately show ?thesis by (simp only: tss_done_alone_def) simp
qed

lemma tss_create_inv:
  assumes inv: "tss_inv l" and key: "key \<noteq> 0" "key \<noteq> TLS_OUT_OF_INDEXES"
      "key \<notin> fst ` set (tl_keys l)" "length (tl_keys l) < 1088" and alloc: "\<And>n. may_alloc n"
  shows "\<exists>l'. tss_op nd may_alloc (Create key f) l = Inr l' \<and> tss_inv l' \<and>
    tl_keys l' = tl_keys l @ [(key, f)]"
proof -
  let ?g = "tl_global l" and ?ks = "tl_keys l"
  let ?g1 = "?g\<lparr>inited := word_of_nat (length ?ks + 2), lock_live := True\<rparr>"
  have i: "inited ?g = (if length ?ks = 0 then 0 else word_of_nat (length ?ks + 1))"
    and live: "(length ?ks = 0 \<or> lock_live ?g) = True"
    and tab: "table_opt_ok (g_table ?g)" "registered (g_table ?g) = filter (\<lambda>(k, f). f \<noteq> NULL) ?ks"
    using inv by (auto simp: tss_inv_def Let_def)
  have init: "tss_init_alone ?g = Some ?g1"
    using tss_init_counts [OF i key(4)] unfolding live .
  obtain p' where add: "destructor_table_add_destructor_for_key nd may_alloc (g_table ?g) f key = Inr (0, p')"
    using add_result [of may_alloc key nd "g_table ?g" f] alloc key(1) by blast
  have fresh: "destructors (g_table ?g) key = None"
    using key(3) tab(2) by (auto simp: destructors_def map_of_eq_None_iff)
  have p': "table_opt_ok p' \<and> registered p' = filter (\<lambda>(k, f). f \<noteq> NULL) (?ks @ [(key, f)])"
  proof (cases "f = NULL")
    case True
    with add key(1) tab show ?thesis by (auto simp: destructor_table_add_destructor_for_key_def)
  next
    case False
    with add_registers [OF tab(1) key(1) False fresh add] tab(2) show ?thesis by simp
  qed
  have "tss_op nd may_alloc (Create key f) l = Inr \<lparr>tl_global = ?g1\<lparr>g_table := p'\<rparr>, tl_keys = ?ks @ [(key, f)]\<rparr>"
    using key(2) add
    by (simp add: tss_op_def win_mulle_thread_tss_create_def mulle_thread_windows_add_tss_def init
      enter_lock_def tss_assert_def)
  moreover have "tss_inv \<lparr>tl_global = ?g1\<lparr>g_table := p'\<rparr>, tl_keys = ?ks @ [(key, f)]\<rparr>"
    using inv key p' by (auto simp: tss_inv_def Let_def)
  ultimately show ?thesis by auto
qed

lemma filter_key_length:
  assumes "distinct (map fst ks)" and "key \<in> fst ` set ks"
  shows "length ks = length (filter (\<lambda>(k, f). k \<noteq> key) ks) + 1"
  using assms
proof (induction ks)
  case (Cons x ks)
  obtain k f where x: "x = (k, f)" by (cases x)
  show ?case
  proof (cases "k = key")
    case True
    with Cons.prems x have "filter (\<lambda>(k, f). k \<noteq> key) ks = ks"
      by (intro filter_True) (auto dest: in_fst)
    with True x show ?thesis by simp
  next
    case False
    with Cons x show ?thesis by auto
  qed
qed simp

lemma tss_free_inv:
  assumes inv: "tss_inv l" and key: "key \<in> fst ` set (tl_keys l)"
  shows "\<exists>l'. tss_op nd may_alloc (Free key) l = Inr l' \<and> tss_inv l' \<and>
    tl_keys l' = filter (\<lambda>(k, f). k \<noteq> key) (tl_keys l)"
proof -
  let ?g = "tl_global l" and ?ks = "tl_keys l" and ?ks' = "filter (\<lambda>(k, f). k \<noteq> key) (tl_keys l)"
  let ?n = "length ?ks'"
  have len: "length ?ks = ?n + 1"
    using inv key by (intro filter_key_length) (auto simp: tss_inv_def Let_def)
  have ne: "?ks \<noteq> []" using key by auto
  have k0: "key \<noteq> 0" using inv key by (auto simp: tss_inv_def Let_def)
  have i: "inited ?g = word_of_nat (?n + 2)" "lock_live ?g" "?n < 1088"
    using inv ne len by (auto simp: tss_inv_def Let_def)
  have nz: "inited ?g \<noteq> 0"
    unfolding i(1) using small_word [of "?n + 2" 0] i(3) by simp
  let ?t = "destructor_table_remove_destructor_for_key (g_table ?g) key"
  have t: "table_opt_ok ?t" "registered ?t = filter (\<lambda>(k, f). f \<noteq> NULL) ?ks'"
    using remove_unregisters [of "g_table ?g" key] inv k0
    by (auto simp: tss_inv_def Let_def conj_commute case_prod_beta cong: filter_cong)
  let ?g' = "if ?n = 0 then ?g\<lparr>g_table := ?t, inited := 0, lock_live := False, g_table := None\<rparr>
      else ?g\<lparr>g_table := ?t, inited := word_of_nat (?n + 1)\<rparr>"
  have "tss_done_alone nd (?g\<lparr>g_table := ?t\<rparr>) = Some ?g'"
    using tss_done_counts [of "?g\<lparr>g_table := ?t\<rparr>" ?n nd] i by (simp split: if_splits)
  then have "tss_op nd may_alloc (Free key) l = Inr \<lparr>tl_global = ?g', tl_keys = ?ks'\<rparr>"
    using nz i(2)
    by (simp add: tss_op_def win_mulle_thread_tss_free_def mulle_thread_windows_remove_tss_def
      enter_lock_def tss_assert_def)
  moreover have "tss_inv \<lparr>tl_global = ?g', tl_keys = ?ks'\<rparr>"
  proof (cases "?ks' = []")
    case True
    then show ?thesis by (simp add: tss_inv_def table_opt_ok_def registered_def)
  next
    case False
    have "distinct (map fst ?ks')" "\<forall>(k, f) \<in> set ?ks'. k \<noteq> 0"
      using inv by (auto simp: tss_inv_def Let_def distinct_map_filter)
    then show ?thesis using False t i(2,3) by (simp add: tss_inv_def Let_def)
  qed
  ultimately show ?thesis by auto
qed

lemma tss_ops_inv:
  assumes "tss_inv l" and "tss_ops_allowed ops (tl_keys l)" and "\<And>n. may_alloc n"
  shows "\<exists>l'. tss_ops nd may_alloc ops l = Inr l' \<and> tss_inv l'"
  using assms(1,2)
proof (induction ops arbitrary: l)
  case Nil
  then show ?case by simp
next
  case (Cons op ops)
  show ?case
  proof (cases op)
    case (Create key f)
    with Cons.prems tss_create_inv [of l key may_alloc nd f] assms(3) obtain l' where
      "tss_op nd may_alloc op l = Inr l'" "tss_inv l'" "tl_keys l' = tl_keys l @ [(key, f)]"
      by auto
    with Cons.IH [of l'] Cons.prems(2) Create show ?thesis by simp
  next
    case (Free key)
    with Cons.prems tss_free_inv [of l key nd may_alloc] obtain l' where
      "tss_op nd may_alloc op l = Inr l'" "tss_inv l'"
      "tl_keys l' = filter (\<lambda>(k, f). k \<noteq> key) (tl_keys l)"
      by auto
    with Cons.IH [of l'] Cons.prems(2) Free show ?thesis by simp
  qed
qed

lemma inv_counter:
  assumes "tss_inv l"
  shows "tl_keys l = [] \<and> inited (tl_global l) = 0 \<and> \<not> lock_live (tl_global l) \<or>
    tl_keys l \<noteq> [] \<and> 2 \<le> sint (inited (tl_global l)) \<and> inited (tl_global l) \<noteq> 0 \<and>
      lock_live (tl_global l)"
proof (cases "tl_keys l = []")
  case True
  then show ?thesis using assms by (simp add: tss_inv_def Let_def)
next
  case False
  let ?n = "length (tl_keys l)"
  have n: "inited (tl_global l) = word_of_nat (?n + 1)" "?n \<le> 1088" "?n \<noteq> 0"
    using assms False by (auto simp: tss_inv_def Let_def)
  have "inited (tl_global l) = word_of_int (int ?n + 1)"
    using n(1) by simp
  moreover have "sint (word_of_int (int ?n + 1) :: dword) = int ?n + 1"
    unfolding sint_sbintrunc' using n(2) by (simp add: signed_take_bit_int_eq_self)
  moreover have "2 \<le> int ?n + 1" using n(3) by linarith
  ultimately have "2 \<le> sint (inited (tl_global l))" by (simp only:)
  moreover have "word_of_nat (?n + 1) \<noteq> (0 :: dword)"
    using small_word [of "?n + 1" 0] n(2) by simp
  ultimately show ?thesis using assms False n(1) by (simp add: tss_inv_def Let_def)
qed

lemma thread_end:
  assumes "tss_inv l"
  shows "win_mulle_thread_return nd run (tl_global l) s =
    Inr (0, if tl_keys l = [] then s
      else destructor_table_execute_destructors run (g_table (tl_global l)) s)"
  using inv_counter [OF assms]
  by (auto simp: win_mulle_thread_return_def mulle_thread_windows_destroy_tss_if_needed_def
    mulle_thread_windows_destroy_tss_def tss_assert_def enter_lock_def)

lemma thread_exit:
  assumes "tss_inv l"
  shows "win_mulle_thread_exit nd run rval (tl_global l) s =
    (if tl_keys l \<noteq> []
     then Inr (word_of_int rval, destructor_table_execute_destructors run (g_table (tl_global l)) s)
     else Inl (if nd then Dead_section else Tss_assertion))"
  using inv_counter [OF assms]
  by (auto simp: win_mulle_thread_exit_def mulle_thread_windows_destroy_tss_def tss_assert_def
    enter_lock_def)

lemma created_and_freed:
  "\<exists>l. tss_ops False (\<lambda>n. True) [Create 3 7, Free 3] tss_life_start = Inr l \<and> tl_keys l = []"
proof -
  have "\<exists>l. tss_op False (\<lambda>n. True) (Create 3 7) tss_life_start = Inr l \<and> tss_inv l \<and>
      tl_keys l = [(3, 7)]"
    using tss_create_inv [of tss_life_start 3 "\<lambda>n. True" False 7] tss_start_inv
    by (auto simp: tss_life_start_def TLS_OUT_OF_INDEXES_def)
  then obtain l where l: "tss_op False (\<lambda>n. True) (Create 3 7) tss_life_start = Inr l"
    "tss_inv l" "tl_keys l = [(3, 7)]" by blast
  with tss_free_inv [of l 3 False "\<lambda>n. True"] show ?thesis by auto
qed

subsection \<open>Properties\<close>

text \<open>C12: used by one thread at a time, thread specific storage works over any sequence of
  creations and frees of keys: no assertion fails, no call hangs and none enters a critical
  section that doesn't exist; the lock exists exactly while there are keys, the counter is
  their number plus one, and the table holds exactly the destructors of the keys in use. With
  the last key all is back as it was at the start.\<close>

theorem tss_lifecycle:
  assumes "tss_ops_allowed ops []" and "\<And>n. may_alloc n"
  shows "\<exists>l. tss_ops nd may_alloc ops tss_life_start = Inr l \<and>
    (let g = tl_global l; ks = tl_keys l in
      (lock_live g \<longleftrightarrow> ks \<noteq> []) \<and>
      inited g = (if ks = [] then 0 else word_of_nat (length ks + 1)) \<and>
      registered (g_table g) = filter (\<lambda>(k, f). f \<noteq> NULL) ks)"
proof -
  have "tss_ops_allowed ops (tl_keys tss_life_start)"
    using assms(1) by (simp add: tss_life_start_def)
  with tss_ops_inv [of tss_life_start ops may_alloc nd] tss_start_inv assms(2)
  obtain l where "tss_ops nd may_alloc ops tss_life_start = Inr l" "tss_inv l" by blast
  then show ?thesis by (auto simp: tss_inv_def Let_def)
qed

theorem tss_lifecycle_witness:
  "\<exists>l. tss_ops False (\<lambda>n. True) [Create 3 7, Create 4 0, Free 3, Create 3 9] tss_life_start = Inr l \<and>
     (lock_live (tl_global l) \<longleftrightarrow> tl_keys l \<noteq> [])"
  using tss_lifecycle [of "[Create 3 7, Create 4 0, Free 3, Create 3 9]" "\<lambda>n. True" False]
  by (fastforce simp: TLS_OUT_OF_INDEXES_def Let_def)

text \<open>C34: the two ends of a thread. Returning from the thread function runs the destructors
  when there are keys and does nothing without. \<open>mulle_thread_exit\<close> runs them always: without
  any key its assertion fails, and where assertions are off it enters a critical section that
  doesn't exist.\<close>

theorem exit_needs_a_key:
  assumes "tss_ops_allowed ops []" and "\<And>n. may_alloc n"
    and "tss_ops nd may_alloc ops tss_life_start = Inr l"
  shows "(let g = tl_global l; ended = destructor_table_execute_destructors run (g_table g) s in
    win_mulle_thread_return nd run g s = Inr (0, if tl_keys l = [] then s else ended) \<and>
    win_mulle_thread_exit nd run rval g s =
      (if tl_keys l \<noteq> [] then Inr (word_of_int rval, ended)
       else Inl (if nd then Dead_section else Tss_assertion)))"
proof -
  have "tss_ops_allowed ops (tl_keys tss_life_start)"
    using assms(1) by (simp add: tss_life_start_def)
  with tss_ops_inv [of tss_life_start ops may_alloc nd] tss_start_inv assms(2,3)
  have inv: "tss_inv l" by fastforce
  show ?thesis
    using thread_end [OF inv, of nd run s] thread_exit [OF inv, of nd run rval s]
    by (simp add: Let_def)
qed

theorem exit_needs_a_key_witness:
  "\<exists>l. tss_ops False (\<lambda>n. True) [Create 3 7, Free 3] tss_life_start = Inr l \<and>
     win_mulle_thread_exit False (\<lambda>f v m. m) 5 (tl_global l)
       \<lparr>tls_values = (\<lambda>k. 0), tls_calls = []\<rparr> = Inl Tss_assertion"
proof -
  obtain l where l: "tss_ops False (\<lambda>n. True) [Create 3 7, Free 3] tss_life_start = Inr l"
    "tl_keys l = []"
    using created_and_freed by blast
  then show ?thesis
    using exit_needs_a_key [of "[Create 3 7, Free 3]" "\<lambda>n. True" False l
        "\<lambda>f v m. m" "\<lparr>tls_values = (\<lambda>k. 0), tls_calls = []\<rparr>" 5]
    by (auto simp: TLS_OUT_OF_INDEXES_def Let_def)
qed

text \<open>Threads that only initialize: the counter is at least the part of the thread that creates the
  section, or has created it, and the threads that have to undo their count.\<close>

definition init_creators :: "tss_sys \<Rightarrow> tid set" where
  "init_creators s = {t. ts_pc s t = Some I_create \<or> ts_pc s t = Some I_publish}"

definition init_undoing :: "tss_sys \<Rightarrow> tid set" where
  "init_undoing s = {t. ts_pc s t = Some I_undo}"

definition init_counted :: "nat \<Rightarrow> tss_sys \<Rightarrow> bool" where
  "init_counted b s \<longleftrightarrow> finite (init_undoing s) \<and>
     (\<forall>t \<in> init_creators s. init_creators s = {t}) \<and>
     (\<forall>t. ts_pc s t = Some I_create \<longrightarrow> \<not> lock_live (ts_global s)) \<and>
     (\<forall>t pc. ts_pc s t = Some pc \<longrightarrow> is_init_pc pc) \<and>
     (\<exists>c. inited (ts_global s) = word_of_nat c \<and> c \<le> b \<and>
        (if init_creators s = {} \<and> \<not> lock_live (ts_global s) then 0 else 1) + card (init_undoing s) \<le> c)"

lemma init_inc_counted:
  assumes inv: "init_counted b s" and b: "b < 2 ^ 31" and t: "ts_pc s t = Some I_inc"
    and step: "mulle_thread_tss_init I_inc (ts_global s) = (pc', g)"
  shows "init_counted (Suc b) (s\<lparr>ts_global := g, ts_pc := (ts_pc s)(t := Some pc')\<rparr>)"
proof -
  obtain c where c: "inited (ts_global s) = word_of_nat c" "c \<le> b"
    "(if init_creators s = {} \<and> \<not> lock_live (ts_global s) then 0 else 1) + card (init_undoing s) \<le> c"
    using inv by (auto simp: init_counted_def)
  have v: "inited (ts_global s) + 1 = word_of_nat (Suc c)" using c(1) by simp
  have eqs: "(word_of_nat (Suc c) :: dword) = 1 \<longleftrightarrow> c = 0" "(word_of_nat (Suc c) :: dword) = 2 \<longleftrightarrow> c = 1"
  proof -
    have "unat (word_of_nat (Suc c) :: dword) = Suc c"
      using c(2) b by (simp add: unat_of_nat take_bit_nat_eq_self del: of_nat_Suc)
    then show "(word_of_nat (Suc c) :: dword) = 1 \<longleftrightarrow> c = 0" "(word_of_nat (Suc c) :: dword) = 2 \<longleftrightarrow> c = 1"
      by (auto simp: word_unat_eq_iff simp del: of_nat_Suc)
  qed
  let ?s = "s\<lparr>ts_global := g, ts_pc := (ts_pc s)(t := Some pc')\<rparr>"
  have g: "inited g = word_of_nat (Suc c)" "lock_live g = lock_live (ts_global s)"
    and pc': "pc' = (if c = 0 then I_create else if c = 1 then I_undo else I_ret)"
    using step unfolding mulle_thread_tss_init_def Let_def tg_pc.case v eqs by (auto split: if_splits)
  have undo: "init_undoing ?s = (if c = 1 then insert t (init_undoing s) else init_undoing s)"
    and t': "t \<notin> init_undoing s" "t \<notin> init_creators s"
    using t pc' by (auto simp: init_undoing_def init_creators_def)
  have cre: "init_creators ?s = (if c = 0 then insert t (init_creators s) else init_creators s)"
    using t pc' by (auto simp: init_creators_def)
  have zero: "init_creators s = {} \<and> \<not> lock_live (ts_global s)" if "c = 0"
    using c(3) that by (auto split: if_splits)
  have fin: "finite (init_undoing s)" using inv by (simp add: init_counted_def)
  have base: "(if init_creators ?s = {} \<and> \<not> lock_live g then 0 else 1) + card (init_undoing ?s) \<le> Suc c"
    using c(3) fin t' by (auto simp: undo cre g(2) split: if_splits)
  have ex: "\<exists>c'. inited g = word_of_nat c' \<and> c' \<le> Suc b \<and>
      (if init_creators ?s = {} \<and> \<not> lock_live g then 0 else 1) + card (init_undoing ?s) \<le> c'"
    using base g(1) c(2) by (intro exI [of _ "Suc c"]) simp
  have dead: "\<not> lock_live g" if "ts_pc ?s u = Some I_create" for u
    using that inv zero pc' g(2) by (auto simp: init_counted_def split: if_splits)
  have pcs: "is_init_pc q" if "ts_pc ?s u = Some q" for u q
    using that inv pc' by (auto simp: init_counted_def is_init_pc_def split: if_splits)
  have one: "\<forall>u \<in> init_creators ?s. init_creators ?s = {u}"
    using inv zero cre by (auto simp: init_counted_def)
  have fin': "finite (init_undoing ?s)" using fin undo by simp
  show ?thesis
    unfolding init_counted_def using ex dead pcs one fin' by simp
qed

lemma init_other_counted:
  assumes inv: "init_counted b s" and t: "ts_pc s t = Some pc" and pc: "pc \<noteq> I_inc" "pc \<noteq> I_ret"
    and step: "mulle_thread_tss_init pc (ts_global s) = (pc', g)"
  shows "init_counted (Suc b) (s\<lparr>ts_global := g, ts_pc := (ts_pc s)(t := Some pc')\<rparr>)"
proof -
  obtain c where c: "inited (ts_global s) = word_of_nat c" "c \<le> b"
    "(if init_creators s = {} \<and> \<not> lock_live (ts_global s) then 0 else 1) + card (init_undoing s) \<le> c"
    using inv by (auto simp: init_counted_def)
  have fin: "finite (init_undoing s)" and one: "\<forall>u \<in> init_creators s. init_creators s = {u}"
    and dead: "\<forall>u. ts_pc s u = Some I_create \<longrightarrow> \<not> lock_live (ts_global s)"
    and pcs: "\<forall>u q. ts_pc s u = Some q \<longrightarrow> is_init_pc q"
    using inv by (simp_all add: init_counted_def)
  let ?s = "s\<lparr>ts_global := g, ts_pc := (ts_pc s)(t := Some pc')\<rparr>"
  have "is_init_pc pc" using pcs t by blast
  with pc consider "pc = I_create" | "pc = I_publish" | "pc = I_undo" | "pc = I_yield"
    by (auto simp: is_init_pc_def)
  then show ?thesis
  proof cases
    case 1
    with t have "t \<in> init_creators s" by (simp add: init_creators_def)
    then have cre: "init_creators s = {t}" using one by blast
    have "pc' = I_publish" "inited g = word_of_nat c" "lock_live g"
      using step 1 c(1) by (auto simp: mulle_thread_tss_init_def)
    moreover from this have "init_creators ?s = {t}" "init_undoing ?s = init_undoing s"
      using cre t 1 by (auto simp: init_creators_def init_undoing_def)
    moreover have "ts_pc ?s u \<noteq> Some I_create" for u
      using cre \<open>pc' = I_publish\<close> by (auto simp: init_creators_def)
    ultimately show ?thesis
      using fin pcs c cre
      by (auto simp: init_counted_def is_init_pc_def split: if_splits intro: exI [of _ c])
  next
    case 2
    with t have "t \<in> init_creators s" by (simp add: init_creators_def)
    then have cre: "init_creators s = {t}" using one by blast
    have g: "pc' = I_ret" "inited g = word_of_nat (Suc c)" "lock_live g = lock_live (ts_global s)"
      using step 2 c(1) by (auto simp: mulle_thread_tss_init_def)
    moreover from this have "init_creators ?s = {}" "init_undoing ?s = init_undoing s"
      using cre t 2 by (auto simp: init_creators_def init_undoing_def)
    moreover have "ts_pc ?s u \<noteq> Some I_create" for u
      using cre \<open>pc' = I_ret\<close> by (auto simp: init_creators_def)
    ultimately show ?thesis
      using fin pcs c cre
      by (auto simp: init_counted_def is_init_pc_def split: if_splits intro: exI [of _ "Suc c"])
  next
    case 3
    have t': "t \<in> init_undoing s" using t 3 by (simp add: init_undoing_def)
    then have pos: "0 < card (init_undoing s)" using fin by (auto simp: card_gt_0_iff)
    then obtain c' where c': "c = Suc c'" using c(3) by (cases c) auto
    have "pc' = I_yield" "inited g = word_of_nat c'" "lock_live g = lock_live (ts_global s)"
      using step 3 c(1) c' by (auto simp: mulle_thread_tss_init_def)
    moreover from this have "init_creators ?s = init_creators s" "init_undoing ?s = init_undoing s - {t}"
      using t 3 by (auto simp: init_creators_def init_undoing_def)
    moreover have "card (init_undoing s - {t}) + 1 = card (init_undoing s)"
      using fin t' pos by (simp add: card_Diff_singleton)
    ultimately show ?thesis
      using fin pcs c c' one dead
      by (auto simp: init_counted_def is_init_pc_def split: if_splits intro: exI [of _ c'])
  next
    case 4
    have "pc' = I_inc" "g = ts_global s" using step 4 by (auto simp: mulle_thread_tss_init_def)
    moreover from this have "init_creators ?s = init_creators s" "init_undoing ?s = init_undoing s"
      using t 4 by (auto simp: init_creators_def init_undoing_def)
    ultimately show ?thesis
      using fin pcs c one dead
      by (auto simp: init_counted_def is_init_pc_def split: if_splits intro: exI [of _ c])
  qed
qed

lemma init_pc_counted:
  assumes inv: "init_counted b s" and t: "ts_pc s t = None \<or> ts_pc s t = Some I_ret"
    and new: "new = None \<or> new = Some I_inc"
  shows "init_counted (Suc b) (s\<lparr>ts_pc := (ts_pc s)(t := new)\<rparr>)"
proof -
  let ?s = "s\<lparr>ts_pc := (ts_pc s)(t := new)\<rparr>"
  have "init_creators ?s = init_creators s" "init_undoing ?s = init_undoing s"
    using t new by (auto simp: init_creators_def init_undoing_def)
  with inv new show ?thesis
    by (auto simp: init_counted_def is_init_pc_def split: if_splits intro: le_SucI)
qed

lemma init_exec_counted:
  assumes inv: "init_counted b s" and b: "b < 2 ^ 31" and mv: "\<forall>t. mv \<noteq> Begin_done t"
    and exec: "tss_exec nd mv s = Some s'"
  shows "init_counted (Suc b) s'"
proof (cases mv)
  case (Begin_init t)
  with exec init_pc_counted [OF inv, of t "Some I_inc"] show ?thesis by (auto split: if_splits)
next
  case (Go t)
  with exec obtain pc where t: "ts_pc s t = Some pc" by (cases "ts_pc s t") auto
  then have pc: "is_init_pc pc" using inv by (auto simp: init_counted_def)
  obtain pc' g where step: "mulle_thread_tss_init pc (ts_global s) = (pc', g)" by fastforce
  show ?thesis
  proof (cases "pc = I_ret")
    case True
    with exec Go t init_pc_counted [OF inv, of t None] show ?thesis by auto
  next
    case False
    with exec Go t pc step have s': "s' = s\<lparr>ts_global := g, ts_pc := (ts_pc s)(t := Some pc')\<rparr>"
      by (auto simp: is_init_pc_def)
    show ?thesis
    proof (cases "pc = I_inc")
      case True
      with init_inc_counted [OF inv b, of t] t step s' show ?thesis by simp
    next
      case no: False
      from init_other_counted [OF inv t no False step] s' show ?thesis by simp
    qed
  qed
qed (use mv in blast)

lemma init_run_counted:
  "init_counted b s \<Longrightarrow> b + length mvs \<le> 2 ^ 31 \<Longrightarrow> \<forall>t. Begin_done t \<notin> set mvs \<Longrightarrow>
     tss_run nd mvs s = Some s' \<Longrightarrow> init_counted (b + length mvs) s'"
proof (induction mvs arbitrary: b s)
  case (Cons mv mvs)
  then obtain s1 where s1: "tss_exec nd mv s = Some s1" "tss_run nd mvs s1 = Some s'"
    by (auto split: option.splits)
  have "init_counted (Suc b) s1"
    by (rule init_exec_counted [OF Cons.prems(1) _ _ s1(1)]) (use Cons.prems(2,3) in auto)
  from Cons.IH [OF this _ _ s1(2)] Cons.prems(2,3) show ?case by simp
qed simp

lemma init_start_counted: "init_counted 0 tss_start"
  by (simp add: init_counted_def init_creators_def init_undoing_def tss_start_def tss_global_start_def)

text \<open>C38: \<open>mulle_thread_tss_init\<close> is not safe for three threads at once. Take any run of any number
  of threads that call it, from the start, at whose end one thread is about to create the critical
  section (counter 1) and another one has counted itself and not yet taken it back (counter 2).
  A thread that calls the function then counts to 3 or more, takes the initialization for finished
  and returns, although the section does not exist yet. (The bound on the length keeps the counter
  from wrapping.)\<close>

theorem tss_init_returns_early:
  assumes "tss_run nd mvs tss_start = Some s" and "\<forall>t. Begin_done t \<notin> set mvs" and "length mvs < 2 ^ 31"
    and "ts_pc s t1 = Some I_create" and "ts_pc s t2 = Some I_undo" and "ts_pc s t3 = None"
  shows "\<exists>s'. tss_run nd [Begin_init t3, Go t3] s = Some s' \<and> ts_pc s' t3 = Some I_ret \<and>
    \<not> lock_live (ts_global s') \<and> ts_pc s' t1 = Some I_create"
proof -
  have inv: "init_counted (length mvs) s"
    using init_run_counted [OF init_start_counted _ assms(2,1)] assms(3) by simp
  obtain c where c: "inited (ts_global s) = word_of_nat c" "c \<le> length mvs"
    "(if init_creators s = {} \<and> \<not> lock_live (ts_global s) then 0 else 1) + card (init_undoing s) \<le> c"
    using inv by (auto simp: init_counted_def)
  have "t1 \<in> init_creators s" "t2 \<in> init_undoing s" "finite (init_undoing s)" and dead: "\<not> lock_live (ts_global s)"
    using inv assms(4,5) by (auto simp: init_counted_def init_creators_def init_undoing_def)
  moreover from this have "0 < card (init_undoing s)" by (auto simp: card_gt_0_iff)
  ultimately have "2 \<le> c" using c(3) by (auto split: if_splits)
  then have u: "unat (word_of_nat (Suc c) :: dword) = Suc c"
    using c(2) assms(3) by (simp add: unat_of_nat take_bit_nat_eq_self del: of_nat_Suc)
  have v: "inited (ts_global s) + 1 = word_of_nat (Suc c)" using c(1) by simp
  have "(word_of_nat (Suc c) :: dword) \<noteq> 1" "(word_of_nat (Suc c) :: dword) \<noteq> 2"
    using u \<open>2 \<le> c\<close> by (auto simp: word_unat_eq_iff simp del: of_nat_Suc)
  then have "mulle_thread_tss_init I_inc (ts_global s) =
      (I_ret, ts_global s\<lparr>inited := inited (ts_global s) + 1\<rparr>)"
    unfolding mulle_thread_tss_init_def Let_def tg_pc.case v by simp
  moreover have "t1 \<noteq> t3" using assms(4,6) by auto
  ultimately show ?thesis
    using assms(4,6) dead by (simp add: is_init_pc_def)
qed

theorem tss_init_returns_early_witness:
  "\<exists>s s'. tss_run False [Begin_init 1, Go 1, Begin_init 2, Go 2] tss_start = Some s \<and>
     tss_run False [Begin_init 3, Go 3] s = Some s' \<and> ts_pc s' 3 = Some I_ret \<and> \<not> lock_live (ts_global s')"
proof -
  obtain s where s: "tss_run False [Begin_init 1, Go 1, Begin_init 2, Go 2] tss_start = Some s"
    "ts_pc s 1 = Some I_create" "ts_pc s 2 = Some I_undo" "ts_pc s 3 = None"
    by (simp add: tss_start_def tss_global_start_def tss_step_defs)
  from tss_init_returns_early [OF s(1) _ _ s(2-4)] s(1) show ?thesis
    by (auto simp del: tss_run.simps)
qed

definition hang_schedule :: "tss_move list" where
  "hang_schedule = [Begin_init 1, Go 1, Begin_init 2, Go 2, Go 1, Go 1, Go 1,
     Begin_done 1, Go 1, Go 1, Go 2]"

lemma hang_state:
  "\<exists>s. tss_run ndebug hang_schedule tss_start = Some s \<and> inited (ts_global s) = 1 \<and>
     ts_pc s = (\<lambda>t. if t = 2 then Some I_yield else None)"
  by (simp add: hang_schedule_def tss_start_def tss_global_start_def tss_step_defs fun_eq_iff)

lemma hang_cycle:
  assumes "ts_pc s t = Some pc" and
    "(pc, inited (ts_global s)) \<in> {(I_yield, 1), (I_inc, 1), (I_undo, 2)}"
  shows "\<exists>s' pc'. tss_exec nd (Go t) s = Some s' \<and> ts_pc s' t = Some pc' \<and>
    (pc', inited (ts_global s')) \<in> {(I_yield, 1), (I_inc, 1), (I_undo, 2)}"
  using assms by (auto simp: tss_step_defs)

lemma hang_forever:
  assumes "ts_pc s t = Some pc" and
    "(pc, inited (ts_global s)) \<in> {(I_yield, 1), (I_inc, 1), (I_undo, 2)}"
  shows "\<exists>s' pc'. tss_run nd (replicate n (Go t)) s = Some s' \<and> ts_pc s' t = Some pc' \<and>
    (pc', inited (ts_global s')) \<in> {(I_yield, 1), (I_inc, 1), (I_undo, 2)}"
  using assms
proof (induction n arbitrary: s pc)
  case 0
  then show ?case by auto
next
  case (Suc n)
  from hang_cycle [OF Suc.prems] obtain s1 pc1 where s1: "tss_exec nd (Go t) s = Some s1"
    "ts_pc s1 t = Some pc1"
    "(pc1, inited (ts_global s1)) \<in> {(I_yield, 1), (I_inc, 1), (I_undo, 2)}"
    by blast
  from Suc.IH [OF s1(2,3)] s1(1) show ?case by (simp del: tss_exec.simps)
qed

text \<open>And it can hang. If the first user is done while a second one has counted itself and
  not yet taken it back, the counter is 1 afterwards with nobody creating anything: the second
  user then waits for ever, and so does every later one.\<close>

theorem tss_init_hangs:
  "\<exists>s. tss_run ndebug hang_schedule tss_start = Some s \<and>
     (\<forall>n. \<exists>s'. tss_run ndebug (replicate n (Go 2)) s = Some s' \<and>
        ts_pc s' 2 \<noteq> None \<and> ts_pc s' 2 \<noteq> Some I_ret)"
proof -
  obtain s where s: "tss_run ndebug hang_schedule tss_start = Some s" "inited (ts_global s) = 1"
    "ts_pc s 2 = Some I_yield"
    using hang_state [of ndebug] by auto
  have "\<exists>s'. tss_run ndebug (replicate n (Go 2)) s = Some s' \<and>
      ts_pc s' 2 \<noteq> None \<and> ts_pc s' 2 \<noteq> Some I_ret" for n
    using hang_forever [OF s(3), of ndebug n] s(2) by force
  with s(1) show ?thesis by blast
qed

end
