(* ===== verification/Thread_Api.thy ===== *)
theory Thread_Api
  imports Plain_Mutex Win_Tss
begin

text \<open>
  Threads themselves: creation, identity, ending, joining and detaching, in the pthreads, the
  C11 and the Windows backend (\<open>src/mulle-thread-pthreads.h\<close>, \<open>src/mulle-thread-c11.h\<close>,
  \<open>src/mulle-thread-windows.h\<close>, \<open>src/mulle-thread-windows.c\<close>). The system's functions are
  parameters, a record for each system over a state \<open>'s\<close> of its own, with what is documented
  of them as a locale. \<open>thread_life\<close> is the contract of the library's own functions, which
  all three backends fulfil.

  A handle (\<open>mulle_thread_t\<close>) is a \<open>ptr\<close>. A call that has to wait has no result (\<open>None\<close>).
\<close>

subsection \<open>The contract\<close>

text \<open>What a handle stands for: a thread that runs, one that ended with a value and hasn't been
  joined, or nothing.\<close>

datatype 'v thread_status = Running | Ended 'v | No_handle

text \<open>\<open>own t\<close> is the handle the creator of thread \<open>t\<close> got; \<open>encode\<close> is how an exit code of type
  \<open>int\<close> arrives in the result type of the backend.\<close>

locale thread_life =
  fixes create :: "ptr \<Rightarrow> ptr \<Rightarrow> 's \<Rightarrow> fault + (int \<times> ptr \<times> 's)"
    and exit :: "tid \<Rightarrow> int \<Rightarrow> 's \<Rightarrow> 's"
    and join :: "ptr \<Rightarrow> 's \<Rightarrow> ('v \<times> 's) option"
    and status :: "'s \<Rightarrow> ptr \<Rightarrow> 'v thread_status"
    and own :: "tid \<Rightarrow> ptr"
    and encode :: "int \<Rightarrow> 'v"
  assumes create_runs: "create f arg s = Inr (0, h, s') \<Longrightarrow>
      status s h = No_handle \<and> status s' = (status s)(h := Running)"
    and exit_ends: "status s (own t) = Running \<Longrightarrow>
      status (exit t rval s) = (status s)(own t := Ended (encode rval))"
    and join_waits: "status s h = Running \<Longrightarrow> join h s = None"
    and join_ended: "status s h = Ended v \<Longrightarrow>
      \<exists>s'. join h s = Some (v, s') \<and> status s' = (status s)(h := No_handle)"
begin

lemma created_thread_is_joined:
  assumes "create f arg s = Inr (0, h, s1)" and "own t = h"
  shows "join h s1 = None \<and>
    (\<exists>s2. join h (exit t rval s1) = Some (encode rval, s2) \<and> status s2 = status s)"
proof -
  have h: "status s h = No_handle" and s1: "status s1 = (status s)(h := Running)"
    using create_runs [OF assms(1)] by simp_all
  have e: "status (exit t rval s1) = (status s1)(h := Ended (encode rval))"
    using exit_ends [of s1 t rval] assms(2) s1 by simp
  then have "\<exists>s2. join h (exit t rval s1) = Some (encode rval, s2) \<and>
      status s2 = (status (exit t rval s1))(h := No_handle)"
    by (intro join_ended) simp
  moreover have "((status s)(h := x))(h := No_handle) = status s" for x
    using h by (auto simp: fun_eq_iff)
  ultimately show ?thesis using s1 e join_waits [of s1 h] by simp
qed

end

subsection \<open>pthreads\<close>

record 's pthread_thread_api =
  pthread_self :: "tid \<Rightarrow> ptr"
  pthread_create :: "ptr \<Rightarrow> ptr \<Rightarrow> 's \<Rightarrow> int \<times> ptr \<times> 's"
  pthread_join :: "ptr \<Rightarrow> 's \<Rightarrow> (int \<times> ptr \<times> 's) option"
  pthread_detach :: "ptr \<Rightarrow> 's \<Rightarrow> int \<times> 's"
  pthread_exit :: "tid \<Rightarrow> ptr \<Rightarrow> 's \<Rightarrow> 's"
  sched_yield :: "tid \<Rightarrow> 's \<Rightarrow> 's"

definition pthreads_mulle_thread_self :: "'s pthread_thread_api \<Rightarrow> tid \<Rightarrow> ptr" where
  "pthreads_mulle_thread_self P t = pthread_self P t"

definition pthreads_mulle_thread_id :: "'s pthread_thread_api \<Rightarrow> tid \<Rightarrow> tid" where
  "pthreads_mulle_thread_id P t = pthread_self P t"

definition pthreads_mulle_thread_get_id :: "ptr \<Rightarrow> tid" where
  "pthreads_mulle_thread_get_id thread = thread"

definition pthreads_mulle_thread_equal :: "ptr \<Rightarrow> ptr \<Rightarrow> int" where
  "pthreads_mulle_thread_equal thread1 thread2 =
     c_bool (pthreads_mulle_thread_get_id thread1 = pthreads_mulle_thread_get_id thread2)"

definition pthreads_mulle_thread_create ::
  "bool \<Rightarrow> 's pthread_thread_api \<Rightarrow> ptr \<Rightarrow> ptr \<Rightarrow> 's \<Rightarrow> fault + (int \<times> ptr \<times> 's)"
where
  "pthreads_mulle_thread_create ndebug P f arg s =
     (case pthread_create P f arg s of (rval, thread, s') \<Rightarrow>
        if rval = 0
        then c_assert ndebug (pthreads_mulle_thread_get_id thread \<noteq> - 1)
          (c_assert ndebug (pthreads_mulle_thread_get_id thread \<noteq> 0) (Inr (0, thread, s')))
        else Inr (- 1, thread, s'))"

text \<open>\<open>pthread_join\<close> gives the result and, in \<open>storage\<close>, the thread's value.\<close>

definition pthreads_mulle_thread_join ::
  "'s pthread_thread_api \<Rightarrow> ptr \<Rightarrow> 's \<Rightarrow> (ptr \<times> 's) option"
where
  "pthreads_mulle_thread_join P thread s =
     (case pthread_join P thread s of
        None \<Rightarrow> None
      | Some (rval, storage, s') \<Rightarrow> Some (if rval = 0 then storage else - 1, s'))"

definition pthreads_mulle_thread_detach :: "'s pthread_thread_api \<Rightarrow> ptr \<Rightarrow> 's \<Rightarrow> int \<times> 's" where
  "pthreads_mulle_thread_detach P thread s =
     (case pthread_detach P thread s of (rval, s') \<Rightarrow> (zero_or_minus_one (rval = 0), s'))"

text \<open>\<open>(void *) (intptr_t) rval\<close> extends the sign.\<close>

definition pthreads_mulle_thread_exit :: "'s pthread_thread_api \<Rightarrow> tid \<Rightarrow> int \<Rightarrow> 's \<Rightarrow> 's" where
  "pthreads_mulle_thread_exit P t rval s = pthread_exit P t (word_of_int rval) s"

definition pthreads_mulle_thread_yield :: "'s pthread_thread_api \<Rightarrow> tid \<Rightarrow> 's \<Rightarrow> 's" where
  "pthreads_mulle_thread_yield P t s = sched_yield P t s"

text \<open>POSIX: what the wrappers rely on.\<close>

locale pthread_thread_laws =
  fixes P :: "'s pthread_thread_api" and status :: "'s \<Rightarrow> ptr \<Rightarrow> ptr thread_status"
  assumes posix_create: "pthread_create P f arg s = (0, h, s') \<Longrightarrow>
      status s h = No_handle \<and> status s' = (status s)(h := Running)"
    and posix_exit: "status s (pthread_self P t) = Running \<Longrightarrow>
      status (pthread_exit P t v s) = (status s)(pthread_self P t := Ended v)"
    and posix_join_running: "status s h = Running \<Longrightarrow> pthread_join P h s = None"
    and posix_join_ended: "status s h = Ended v \<Longrightarrow>
      \<exists>s'. pthread_join P h s = Some (0, v, s') \<and> status s' = (status s)(h := No_handle)"

sublocale pthread_thread_laws \<subseteq> pthreads: thread_life
  "pthreads_mulle_thread_create nd P" "pthreads_mulle_thread_exit P"
  "pthreads_mulle_thread_join P" status "pthreads_mulle_thread_self P" word_of_int
  for nd
proof unfold_locales
  fix f arg s h s'
  assume "pthreads_mulle_thread_create nd P f arg s = Inr (0, h, s')"
  then have "pthread_create P f arg s = (0, h, s')"
    by (auto simp: pthreads_mulle_thread_create_def c_assert_eq_Inr split: prod.splits if_splits)
  then show "status s h = No_handle \<and> status s' = (status s)(h := Running)"
    by (rule posix_create)
next
  fix s h v
  assume "status s h = Ended v"
  from posix_join_ended [OF this] show "\<exists>s'. pthreads_mulle_thread_join P h s = Some (v, s') \<and>
      status s' = (status s)(h := No_handle)"
    by (auto simp: pthreads_mulle_thread_join_def)
qed (simp_all add: posix_exit posix_join_running pthreads_mulle_thread_exit_def
  pthreads_mulle_thread_self_def pthreads_mulle_thread_join_def)

subsection \<open>C11 threads\<close>

record 's thrd_api =
  thrd_current :: "tid \<Rightarrow> ptr"
  thrd_create :: "ptr \<Rightarrow> ptr \<Rightarrow> 's \<Rightarrow> thrd_status \<times> ptr \<times> 's"
  thrd_join :: "ptr \<Rightarrow> 's \<Rightarrow> (thrd_status \<times> int \<times> 's) option"
  thrd_detach :: "ptr \<Rightarrow> 's \<Rightarrow> thrd_status \<times> 's"
  thrd_exit :: "tid \<Rightarrow> int \<Rightarrow> 's \<Rightarrow> 's"
  thrd_yield :: "tid \<Rightarrow> 's \<Rightarrow> 's"

definition c11_mulle_thread_self :: "'s thrd_api \<Rightarrow> tid \<Rightarrow> ptr" where
  "c11_mulle_thread_self T t = thrd_current T t"

definition c11_mulle_thread_id :: "'s thrd_api \<Rightarrow> tid \<Rightarrow> tid" where
  "c11_mulle_thread_id T t = thrd_current T t"

definition c11_mulle_thread_get_id :: "ptr \<Rightarrow> tid" where
  "c11_mulle_thread_get_id thread = thread"

definition c11_mulle_thread_equal :: "ptr \<Rightarrow> ptr \<Rightarrow> int" where
  "c11_mulle_thread_equal thread1 thread2 =
     c_bool (c11_mulle_thread_get_id thread1 = c11_mulle_thread_get_id thread2)"

definition c11_mulle_thread_create ::
  "bool \<Rightarrow> 's thrd_api \<Rightarrow> ptr \<Rightarrow> ptr \<Rightarrow> 's \<Rightarrow> fault + (int \<times> ptr \<times> 's)"
where
  "c11_mulle_thread_create ndebug T f arg s =
     (case thrd_create T f arg s of (st, thread, s') \<Rightarrow>
        if st = thrd_success
        then c_assert ndebug (c11_mulle_thread_get_id thread \<noteq> - 1)
          (c_assert ndebug (c11_mulle_thread_get_id thread \<noteq> 0) (Inr (0, thread, s')))
        else Inr (- 1, thread, s'))"

definition c11_mulle_thread_join :: "'s thrd_api \<Rightarrow> ptr \<Rightarrow> 's \<Rightarrow> (int \<times> 's) option" where
  "c11_mulle_thread_join T thread s =
     (case thrd_join T thread s of
        None \<Rightarrow> None
      | Some (st, storage, s') \<Rightarrow> Some (if st = thrd_success then storage else - 1, s'))"

definition c11_mulle_thread_detach :: "'s thrd_api \<Rightarrow> ptr \<Rightarrow> 's \<Rightarrow> int \<times> 's" where
  "c11_mulle_thread_detach T thread s =
     (case thrd_detach T thread s of (st, s') \<Rightarrow> (zero_or_minus_one (st = thrd_success), s'))"

definition c11_mulle_thread_exit :: "'s thrd_api \<Rightarrow> tid \<Rightarrow> int \<Rightarrow> 's \<Rightarrow> 's" where
  "c11_mulle_thread_exit T t rval s = thrd_exit T t rval s"

definition c11_mulle_thread_yield :: "'s thrd_api \<Rightarrow> tid \<Rightarrow> 's \<Rightarrow> 's" where
  "c11_mulle_thread_yield T t s = thrd_yield T t s"

text \<open>ISO C11 7.26.5.\<close>

locale thrd_laws =
  fixes T :: "'s thrd_api" and status :: "'s \<Rightarrow> ptr \<Rightarrow> int thread_status"
  assumes c_create: "thrd_create T f arg s = (thrd_success, h, s') \<Longrightarrow>
      status s h = No_handle \<and> status s' = (status s)(h := Running)"
    and c_exit: "status s (thrd_current T t) = Running \<Longrightarrow>
      status (thrd_exit T t v s) = (status s)(thrd_current T t := Ended v)"
    and c_join_running: "status s h = Running \<Longrightarrow> thrd_join T h s = None"
    and c_join_ended: "status s h = Ended v \<Longrightarrow>
      \<exists>s'. thrd_join T h s = Some (thrd_success, v, s') \<and> status s' = (status s)(h := No_handle)"

sublocale thrd_laws \<subseteq> c11_threads: thread_life
  "c11_mulle_thread_create nd T" "c11_mulle_thread_exit T"
  "c11_mulle_thread_join T" status "c11_mulle_thread_self T" "\<lambda>rval. rval"
  for nd
proof unfold_locales
  fix f arg s h s'
  assume "c11_mulle_thread_create nd T f arg s = Inr (0, h, s')"
  then have "thrd_create T f arg s = (thrd_success, h, s')"
    by (auto simp: c11_mulle_thread_create_def c_assert_eq_Inr split: prod.splits if_splits)
  then show "status s h = No_handle \<and> status s' = (status s)(h := Running)"
    by (rule c_create)
next
  fix s h v
  assume "status s h = Ended v"
  from c_join_ended [OF this] show "\<exists>s'. c11_mulle_thread_join T h s = Some (v, s') \<and>
      status s' = (status s)(h := No_handle)"
    by (auto simp: c11_mulle_thread_join_def)
qed (simp_all add: c_exit c_join_running c11_mulle_thread_exit_def
  c11_mulle_thread_self_def c11_mulle_thread_join_def)

subsection \<open>Windows\<close>

text \<open>\<open>GetThreadId\<close> depends on the caller \<open>t\<close>, because of the pseudo handle. A wait that is over
  has the status 0 (\<open>WAIT_OBJECT_0\<close>).\<close>

record 's windows_thread_api =
  GetCurrentThread :: ptr
  GetCurrentThreadId :: "tid \<Rightarrow> dword"
  GetThreadId :: "tid \<Rightarrow> ptr \<Rightarrow> 's \<Rightarrow> dword"
  beginthreadex :: "ptr \<Rightarrow> ptr \<Rightarrow> 's \<Rightarrow> ptr \<times> dword \<times> 's"
  endthreadex :: "tid \<Rightarrow> dword \<Rightarrow> 's \<Rightarrow> 's"
  WaitForSingleObject :: "ptr \<Rightarrow> 's \<Rightarrow> (dword \<times> 's) option"
  GetExitCodeThread :: "ptr \<Rightarrow> 's \<Rightarrow> dword option"
  CloseHandle :: "ptr \<Rightarrow> 's \<Rightarrow> bool \<times> 's"
  SwitchToThread :: "tid \<Rightarrow> 's \<Rightarrow> 's"

text \<open>The \<open>DWORD\<close> is read as a signed 32-bit number, extended to 64 bits and read as unsigned
  again.\<close>

definition mulle_thread_dword_as_uintptr_t :: "dword \<Rightarrow> tid" where
  "mulle_thread_dword_as_uintptr_t value = word_of_int (sint value)"

definition win_mulle_thread_self :: "'s windows_thread_api \<Rightarrow> ptr" where
  "win_mulle_thread_self W = GetCurrentThread W"

definition win_mulle_thread_id :: "'s windows_thread_api \<Rightarrow> tid \<Rightarrow> tid" where
  "win_mulle_thread_id W t = mulle_thread_dword_as_uintptr_t (GetCurrentThreadId W t)"

definition win_mulle_thread_get_id :: "'s windows_thread_api \<Rightarrow> tid \<Rightarrow> ptr \<Rightarrow> 's \<Rightarrow> tid" where
  "win_mulle_thread_get_id W t thread s = mulle_thread_dword_as_uintptr_t (GetThreadId W t thread s)"

definition win_mulle_thread_equal ::
  "'s windows_thread_api \<Rightarrow> tid \<Rightarrow> ptr \<Rightarrow> ptr \<Rightarrow> 's \<Rightarrow> int"
where
  "win_mulle_thread_equal W t thread1 thread2 s =
     c_bool (win_mulle_thread_get_id W t thread1 s = win_mulle_thread_get_id W t thread2 s)"

definition win_mulle_thread_create ::
  "bool \<Rightarrow> 's windows_thread_api \<Rightarrow> ptr \<Rightarrow> ptr \<Rightarrow> 's \<Rightarrow> fault + (int \<times> ptr \<times> 's)"
where
  "win_mulle_thread_create ndebug W f arg s =
     (case beginthreadex W f arg s of (handle, threadId, s') \<Rightarrow>
        if handle \<noteq> NULL
        then c_assert ndebug (threadId \<noteq> - 1)
          (c_assert ndebug (threadId \<noteq> 0) (Inr (0, handle, s')))
        else Inr (- 1, handle, s'))"

text \<open>\<open>GetExitCodeThread\<close> leaves \<open>rval\<close> at -1 when it fails. Its result and that of \<open>CloseHandle\<close>
  are not looked at.\<close>

definition win_mulle_thread_join ::
  "'s windows_thread_api \<Rightarrow> ptr \<Rightarrow> 's \<Rightarrow> (dword \<times> 's) option"
where
  "win_mulle_thread_join W thread s =
     (case WaitForSingleObject W thread s of
        None \<Rightarrow> None
      | Some (status, s1) \<Rightarrow>
          if status \<noteq> 0 then Some (- 1, snd (CloseHandle W thread s1))
          else (let rval = (case GetExitCodeThread W thread s1 of None \<Rightarrow> - 1 | Some v \<Rightarrow> v)
                in Some (rval, snd (CloseHandle W thread s1))))"

definition win_mulle_thread_detach :: "'s windows_thread_api \<Rightarrow> ptr \<Rightarrow> 's \<Rightarrow> int \<times> 's" where
  "win_mulle_thread_detach W thread s =
     (case CloseHandle W thread s of (ok, s') \<Rightarrow> (zero_or_minus_one ok, s'))"

definition win_mulle_thread_yield :: "'s windows_thread_api \<Rightarrow> tid \<Rightarrow> 's \<Rightarrow> 's" where
  "win_mulle_thread_yield W t s = SwitchToThread W t s"

text \<open>All of \<open>mulle_thread_exit\<close>: the destructors, then the system's part. The results are the
  thread's storage and the system's state.\<close>

definition win_exit_thread ::
  "bool \<Rightarrow> destructor \<Rightarrow> tss_global \<Rightarrow> tls \<Rightarrow> 's windows_thread_api \<Rightarrow> tid \<Rightarrow> int \<Rightarrow> 's \<Rightarrow>
     tss_fault + (tls \<times> 's)"
where
  "win_exit_thread ndebug run g store W t rval s =
     (case win_mulle_thread_exit ndebug run rval g store of
        Inl e \<Rightarrow> Inl e
      | Inr (code, store') \<Rightarrow> Inr (store', endthreadex W t code s))"

text \<open>What Microsoft documents of the functions. A handle can be waited for and closed only once;
  \<open>own t\<close> is the handle \<open>_beginthreadex\<close> gave for thread \<open>t\<close>.\<close>

locale windows_thread_laws =
  fixes W :: "'s windows_thread_api" and status :: "'s \<Rightarrow> ptr \<Rightarrow> dword thread_status"
    and own :: "tid \<Rightarrow> ptr"
  assumes ms_begin: "beginthreadex W f arg s = (h, i, s') \<Longrightarrow> h \<noteq> NULL \<Longrightarrow>
      status s h = No_handle \<and> status s' = (status s)(h := Running)"
    and ms_end: "status s (own t) = Running \<Longrightarrow>
      status (endthreadex W t v s) = (status s)(own t := Ended v)"
    and ms_wait_running: "status s h = Running \<Longrightarrow> WaitForSingleObject W h s = None"
    and ms_wait_ended: "status s h = Ended v \<Longrightarrow>
      \<exists>s'. WaitForSingleObject W h s = Some (0, s') \<and> status s' = status s"
    and ms_exit_code: "status s h = Ended v \<Longrightarrow> GetExitCodeThread W h s = Some v"
    and ms_close: "status (snd (CloseHandle W h s)) = (status s)(h := No_handle)"
begin

lemma join_closes:
  "win_mulle_thread_join W h s = Some (v, s') \<Longrightarrow> status s' h = No_handle"
  by (auto simp: win_mulle_thread_join_def Let_def ms_close split: option.splits if_splits)

lemma detach_closes: "status (snd (win_mulle_thread_detach W h s)) h = No_handle"
  by (simp add: win_mulle_thread_detach_def case_prod_beta ms_close)

end

text \<open>With a key in use, so that \<open>mulle_thread_exit\<close> works.\<close>

locale windows_with_key = windows_thread_laws W status own
  for W :: "'s windows_thread_api" and status and own +
  fixes g :: tss_global
  assumes counted: "inited g \<noteq> 0" and locked: "lock_live g"

lemma exit_thread_with_key:
  assumes "inited g \<noteq> 0" and "lock_live g"
  shows "win_exit_thread nd run g store W t rval s =
    Inr (destructor_table_execute_destructors run (g_table g) store,
      endthreadex W t (word_of_int rval) s)"
  using assms
  by (simp add: win_exit_thread_def win_mulle_thread_exit_def mulle_thread_windows_destroy_tss_def
    tss_assert_def enter_lock_def)

sublocale windows_with_key \<subseteq> windows: thread_life
  "win_mulle_thread_create nd' W"
  "\<lambda>t rval s. case win_exit_thread nd run g store W t rval s of Inl e \<Rightarrow> s | Inr (_, s') \<Rightarrow> s'"
  "win_mulle_thread_join W" status own word_of_int
  for nd nd' run store
proof unfold_locales
  fix f arg s h s'
  assume "win_mulle_thread_create nd' W f arg s = Inr (0, h, s')"
  then obtain i where "beginthreadex W f arg s = (h, i, s')" "h \<noteq> NULL"
    by (auto simp: win_mulle_thread_create_def c_assert_eq_Inr split: prod.splits if_splits)
  then show "status s h = No_handle \<and> status s' = (status s)(h := Running)"
    by (rule ms_begin)
next
  fix s h v
  assume v: "status s h = Ended v"
  from ms_wait_ended [OF v] obtain s1 where s1: "WaitForSingleObject W h s = Some (0, s1)"
    "status s1 = status s" by blast
  then have "GetExitCodeThread W h s1 = Some v" using v ms_exit_code [of s1 h v] by simp
  then show "\<exists>s'. win_mulle_thread_join W h s = Some (v, s') \<and> status s' = (status s)(h := No_handle)"
    using s1 by (simp add: win_mulle_thread_join_def ms_close)
qed (simp_all add: exit_thread_with_key [OF counted locked] ms_end ms_wait_running
  win_mulle_thread_join_def)

context pthread_thread_laws
begin

lemmas posix_joined = pthreads.created_thread_is_joined

end

context thrd_laws
begin

lemmas c_joined = c11_threads.created_thread_is_joined

end

context windows_with_key
begin

lemmas exit_works = exit_thread_with_key [OF counted locked]

lemma windows_joined:
  assumes "win_mulle_thread_create nd W f arg u = Inr (0, k, u1)" and "own t = k"
  shows "win_mulle_thread_join W k u1 = None \<and>
    (\<exists>u3. win_mulle_thread_join W k (endthreadex W t (word_of_int rval) u1) =
      Some (word_of_int rval, u3) \<and> status u3 = status u)"
  using windows.created_thread_is_joined [OF assms] by (simp add: exit_works)

end

subsection \<open>Identity on Windows\<close>

text \<open>\<open>whose s t h\<close> is the thread that handle \<open>h\<close> means when \<open>t\<close> uses it: \<open>GetCurrentThread\<close> gives
  a pseudo handle, which means the thread that uses it. Ids are unique among live threads.\<close>

locale windows_thread_ids =
  fixes W :: "'s windows_thread_api" and whose :: "'s \<Rightarrow> tid \<Rightarrow> ptr \<Rightarrow> tid"
    and os_id :: "tid \<Rightarrow> dword" and live_threads :: "'s \<Rightarrow> tid set"
  assumes ms_pseudo: "whose s t (GetCurrentThread W) = t"
    and ms_current: "GetCurrentThreadId W t = os_id t"
    and ms_id: "whose s t h \<in> live_threads s \<Longrightarrow> GetThreadId W t h s = os_id (whose s t h)"
    and ms_unique: "inj_on os_id (live_threads s)"

lemma dword_as_uintptr_inj:
  "mulle_thread_dword_as_uintptr_t v = mulle_thread_dword_as_uintptr_t w \<longleftrightarrow> v = w"
proof -
  have "sint (mulle_thread_dword_as_uintptr_t x) = sint x" for x :: dword
  proof -
    have "- (2 ^ 31) \<le> sint x" "sint x < 2 ^ 31"
      using sint_greater_eq [of x] sint_less [of x] by simp_all
    then show ?thesis
      unfolding mulle_thread_dword_as_uintptr_t_def sint_sbintrunc'
      by (simp add: signed_take_bit_int_eq_self)
  qed
  then show ?thesis by (metis signed_word_eqI)
qed

context windows_thread_ids
begin

lemma equal_threads:
  assumes "whose s t h1 \<in> live_threads s" and "whose s t h2 \<in> live_threads s"
  shows "win_mulle_thread_equal W t h1 h2 s = c_bool (whose s t h1 = whose s t h2)"
  using assms ms_unique [of s]
  by (simp add: win_mulle_thread_equal_def win_mulle_thread_get_id_def dword_as_uintptr_inj ms_id
    inj_on_eq_iff)

lemma self_id:
  assumes "t \<in> live_threads s"
  shows "win_mulle_thread_get_id W t (win_mulle_thread_self W) s = win_mulle_thread_id W t"
  using assms ms_id [of s t "GetCurrentThread W"]
  by (simp add: win_mulle_thread_get_id_def win_mulle_thread_self_def win_mulle_thread_id_def
    ms_pseudo ms_current)

lemma ids_distinct: "inj_on (win_mulle_thread_id W) (live_threads s)"
  using ms_unique [of s]
  by (auto simp: inj_on_def win_mulle_thread_id_def ms_current dword_as_uintptr_inj)

end

subsection \<open>Reference systems\<close>

text \<open>
  The simplest systems that keep the documentation: the state is the next handle and the
  status of all handles; the handle of a thread is its number.
\<close>

type_synonym 'v ref_threads = "ptr \<times> (ptr \<Rightarrow> 'v thread_status)"

fun ref_exit :: "ptr \<Rightarrow> 'v \<Rightarrow> 'v ref_threads \<Rightarrow> 'v ref_threads" where
  "ref_exit t v (n, st) = (n, st(t := Ended v))"

fun ref_release :: "ptr \<Rightarrow> 'v ref_threads \<Rightarrow> 'v ref_threads" where
  "ref_release h (n, st) = (n, st(h := No_handle))"

definition ref_new :: "'v ref_threads \<Rightarrow> 'v ref_threads" where
  "ref_new s = (fst s + 1, (snd s)(fst s := Running))"

lemma ref_simps [simp]:
  "snd (ref_exit t v s) = (snd s)(t := Ended v)"
  "snd (ref_release h s) = (snd s)(h := No_handle)"
  "snd (ref_new s) = (snd s)(fst s := Running)"
  by (cases s, simp_all add: ref_new_def)+

definition reference_pthread_threads :: "ptr ref_threads pthread_thread_api" where
  "reference_pthread_threads = \<lparr>
     pthread_self = (\<lambda>t. t),
     pthread_create = (\<lambda>f arg s. if snd s (fst s) = No_handle then (0, fst s, ref_new s) else (11, 0, s)),
     pthread_join = (\<lambda>h s. case snd s h of
        Running \<Rightarrow> None | Ended v \<Rightarrow> Some (0, v, ref_release h s) | No_handle \<Rightarrow> Some (3, 0, s)),
     pthread_detach = (\<lambda>h s. if snd s h = No_handle then (3, s) else (0, ref_release h s)),
     pthread_exit = ref_exit,
     sched_yield = (\<lambda>t s. s)\<rparr>"

interpretation reference_posix_threads: pthread_thread_laws reference_pthread_threads snd
  by unfold_locales (auto simp: reference_pthread_threads_def split: if_splits)

definition reference_thrd :: "int ref_threads thrd_api" where
  "reference_thrd = \<lparr>
     thrd_current = (\<lambda>t. t),
     thrd_create = (\<lambda>f arg s.
        if snd s (fst s) = No_handle then (thrd_success, fst s, ref_new s) else (thrd_nomem, 0, s)),
     thrd_join = (\<lambda>h s. case snd s h of
        Running \<Rightarrow> None
      | Ended v \<Rightarrow> Some (thrd_success, v, ref_release h s)
      | No_handle \<Rightarrow> Some (thrd_error, 0, s)),
     thrd_detach = (\<lambda>h s.
        if snd s h = No_handle then (thrd_error, s) else (thrd_success, ref_release h s)),
     thrd_exit = ref_exit,
     thrd_yield = (\<lambda>t s. s)\<rparr>"

interpretation reference_c_threads: thrd_laws reference_thrd snd
  by unfold_locales (auto simp: reference_thrd_def split: if_splits)

text \<open>The pseudo handle is -2; ids are the low 32 bits of the thread's number.\<close>

definition reference_windows_threads :: "dword ref_threads windows_thread_api" where
  "reference_windows_threads = \<lparr>
     GetCurrentThread = - 2,
     GetCurrentThreadId = (\<lambda>t. ucast t),
     GetThreadId = (\<lambda>t h s. ucast (if h = - 2 then t else h)),
     beginthreadex = (\<lambda>f arg s.
        if fst s \<noteq> 0 \<and> snd s (fst s) = No_handle then (fst s, ucast (fst s), ref_new s) else (0, 0, s)),
     endthreadex = ref_exit,
     WaitForSingleObject = (\<lambda>h s. case snd s h of
        Running \<Rightarrow> None | Ended v \<Rightarrow> Some (0, s) | No_handle \<Rightarrow> Some (- 1, s)),
     GetExitCodeThread = (\<lambda>h s. case snd s h of
        Running \<Rightarrow> Some 259 | Ended v \<Rightarrow> Some v | No_handle \<Rightarrow> None),
     CloseHandle = (\<lambda>h s. (snd s h \<noteq> No_handle, ref_release h s)),
     SwitchToThread = (\<lambda>t s. s)\<rparr>"

interpretation reference_windows: windows_thread_laws reference_windows_threads snd "\<lambda>t. t"
  by unfold_locales (auto simp: reference_windows_threads_def split: if_splits)

definition key_in_use :: tss_global where
  "key_in_use = \<lparr>inited = 2, lock_live = True, g_table = None\<rparr>"

interpretation reference_windows_key: windows_with_key reference_windows_threads snd "\<lambda>t. t" key_in_use
  by unfold_locales (simp_all add: key_in_use_def)

lemma low_id_inj: "inj_on (ucast :: tid \<Rightarrow> dword) {t. unat t < 2 ^ 32}"
proof (rule inj_onI)
  fix x y :: tid
  assume xy: "x \<in> {t. unat t < 2 ^ 32}" "y \<in> {t. unat t < 2 ^ 32}" "ucast x = (ucast y :: dword)"
  have low: "unat (ucast z :: dword) = unat z" if "unat z < 2 ^ 32" for z :: tid
    using that by (simp add: unsigned_ucast_eq take_bit_nat_eq_self unsigned_take_bit_eq)
  have "unat (ucast x :: dword) = unat x" "unat (ucast y :: dword) = unat y"
    using xy(1,2) by (simp_all add: low)
  then show "x = y" using xy(3) by (metis unsigned_word_eqI)
qed

interpretation reference_windows_ids: windows_thread_ids reference_windows_threads
  "\<lambda>s t h. if h = - 2 then t else h" ucast "\<lambda>s. {t. unat t < 2 ^ 32}"
  by unfold_locales (auto simp: reference_windows_threads_def low_id_inj [simplified])

subsection \<open>Properties\<close>

text \<open>C33: the life of a thread, on pthreads and on Windows with a key in use: a handle given by
  \<open>mulle_thread_create\<close> can't be joined while its thread runs, and when the thread has called
  \<open>mulle_thread_exit\<close> (which runs its destructors on Windows and then can't fail), joining it
  returns the code it passed, sign extended or truncated to the result type of the backend,
  and gives the handle back, so that nothing is left of the thread.\<close>

theorem thread_lifecycle:
  assumes "pthread_thread_laws P st" and "windows_with_key W st' own g"
    and "pthreads_mulle_thread_create nd P f arg s = Inr (0, h, s1)"
    and "pthreads_mulle_thread_self P t = h"
    and "win_mulle_thread_create nd W f arg u = Inr (0, k, u1)" and "own t = k"
  shows "pthreads_mulle_thread_join P h s1 = None \<and>
    (\<exists>s2. pthreads_mulle_thread_join P h (pthreads_mulle_thread_exit P t rval s1) =
        Some (word_of_int rval, s2) \<and> st s2 = st s) \<and>
    win_mulle_thread_join W k u1 = None \<and>
    (\<exists>u2 u3. win_exit_thread nd run g store W t rval u1 =
        Inr (destructor_table_execute_destructors run (g_table g) store, u2) \<and>
      win_mulle_thread_join W k u2 = Some (word_of_int rval, u3) \<and> st' u3 = st' u)"
proof -
  have e: "win_exit_thread nd run g store W t rval u1 =
      Inr (destructor_table_execute_destructors run (g_table g) store,
        endthreadex W t (word_of_int rval) u1)"
    using windows_with_key.exit_works [OF assms(2)] .
  show ?thesis
    using pthread_thread_laws.posix_joined [OF assms(1,3,4)]
      windows_with_key.windows_joined [OF assms(2,5,6), of rval]
    by (simp add: e)
qed

text \<open>The same for C11 threads.\<close>

lemma c11_thread_lifecycle:
  assumes "thrd_laws T st" and "c11_mulle_thread_create nd T f arg s = Inr (0, h, s1)"
    and "c11_mulle_thread_self T t = h"
  shows "c11_mulle_thread_join T h s1 = None \<and>
    (\<exists>s2. c11_mulle_thread_join T h (c11_mulle_thread_exit T t rval s1) = Some (rval, s2) \<and>
      st s2 = st s)"
  using thrd_laws.c_joined [OF assms] .

theorem thread_lifecycle_witness:
  "\<exists>s2. pthreads_mulle_thread_join reference_pthread_threads 5
      (pthreads_mulle_thread_exit reference_pthread_threads 5 (- 3) (6, (\<lambda>h. No_handle)(5 := Running))) =
     Some (word_of_int (- 3), s2) \<and> snd s2 = (\<lambda>h. No_handle)"
proof -
  have "pthreads_mulle_thread_create False reference_pthread_threads 0 0 (5, \<lambda>h. No_handle) =
      Inr (0, 5, (6, (\<lambda>h. No_handle)(5 := Running)))"
    "pthreads_mulle_thread_self reference_pthread_threads 5 = 5"
    "win_mulle_thread_create False reference_windows_threads 0 0 (5, \<lambda>h. No_handle) =
      Inr (0, 5, (6, (\<lambda>h. No_handle)(5 := Running)))"
    by (simp_all add: pthreads_mulle_thread_create_def pthreads_mulle_thread_get_id_def
      pthreads_mulle_thread_self_def win_mulle_thread_create_def reference_pthread_threads_def
      reference_windows_threads_def ref_new_def)
  from thread_lifecycle [OF reference_posix_threads.pthread_thread_laws_axioms
      reference_windows_key.windows_with_key_axioms this(1,2,3) refl, of "- 3"]
  show ?thesis by auto
qed

text \<open>\<open>mulle_thread_join\<close> on Windows never leaks the handle: it is closed whenever the call
  returns, also when waiting or asking for the exit code failed, and \<open>mulle_thread_detach\<close>
  closes it too.\<close>

theorem windows_join_closes_handle:
  assumes "windows_thread_laws W st own" and "win_mulle_thread_join W h s = Some (v, s')"
  shows "st s' h = No_handle \<and> st (snd (win_mulle_thread_detach W h s)) h = No_handle"
  using windows_thread_laws.join_closes [OF assms] windows_thread_laws.detach_closes [OF assms(1)]
  by simp

theorem windows_join_closes_handle_witness:
  "\<exists>s'. win_mulle_thread_join reference_windows_threads 5 (6, (\<lambda>h. No_handle)(5 := Ended 9)) =
     Some (9, s') \<and> snd s' 5 = No_handle"
proof -
  have "\<exists>s'. win_mulle_thread_join reference_windows_threads 5 (6, (\<lambda>h. No_handle)(5 := Ended 9)) =
     Some (9, s')"
    by (simp add: win_mulle_thread_join_def reference_windows_threads_def)
  with windows_join_closes_handle [OF reference_windows.windows_thread_laws_axioms]
  show ?thesis by blast
qed

text \<open>\<open>mulle_thread_equal\<close> on Windows compares threads and not handles: for handles of live
  threads, the pseudo handle of \<open>mulle_thread_self\<close> included, it is 1 exactly when they mean
  the same thread; and \<open>mulle_thread_get_id\<close> of that handle is \<open>mulle_thread_id\<close>. No two live
  threads share an id, in spite of the sign extension of \<open>mulle_thread_dword_as_uintptr_t\<close>.\<close>

theorem windows_thread_identity:
  assumes "windows_thread_ids W whose os_id live_threads"
    and "whose s t h1 \<in> live_threads s" and "whose s t h2 \<in> live_threads s" and "t \<in> live_threads s"
  shows "win_mulle_thread_equal W t h1 h2 s = c_bool (whose s t h1 = whose s t h2) \<and>
    win_mulle_thread_get_id W t (win_mulle_thread_self W) s = win_mulle_thread_id W t \<and>
    inj_on (win_mulle_thread_id W) (live_threads s)"
  using windows_thread_ids.equal_threads [OF assms(1-3)] windows_thread_ids.self_id [OF assms(1,4)]
    windows_thread_ids.ids_distinct [OF assms(1)] by simp

theorem windows_thread_identity_witness:
  "win_mulle_thread_equal reference_windows_threads 7 (- 2) 7 (9, \<lambda>h. Running) = 1 \<and>
   win_mulle_thread_equal reference_windows_threads 7 (- 2) 8 (9, \<lambda>h. Running) = 0"
  using windows_thread_identity [OF reference_windows_ids.windows_thread_ids_axioms,
      where s = "(9, \<lambda>h. Running)" and t = 7 and ?h1.0 = "- 2" and ?h2.0 = 7]
    windows_thread_identity [OF reference_windows_ids.windows_thread_ids_axioms,
      where s = "(9, \<lambda>h. Running)" and t = 7 and ?h1.0 = "- 2" and ?h2.0 = 8]
  by simp

end
