(* ===== verification/Win_Mutex.thy ===== *)
theory Win_Mutex
  imports Plain_Mutex
begin

text \<open>
  The mutex of the Windows backend (\<open>src/mulle-thread-windows.h\<close>): a \<open>CRITICAL_SECTION\<close>,
  which Windows lets its owner enter again, and an atomic owner id, by which the library
  makes it a non-recursive mutex; and the waits on a condition variable
  (\<open>src/mulle-thread-windows.c\<close>), which release the section while they sleep. The functions
  of the Windows API are parameters with the laws their documentation gives. The model is an
  interleaving of any number of threads; one step is one access to memory or one API call.
\<close>

subsection \<open>The Windows API\<close>

record 'c cs_api =
  InitializeCriticalSection :: "'c \<Rightarrow> 'c"
  EnterCriticalSection :: "tid \<Rightarrow> 'c \<Rightarrow> 'c option"
  TryEnterCriticalSection :: "tid \<Rightarrow> 'c \<Rightarrow> bool \<times> 'c"
  LeaveCriticalSection :: "tid \<Rightarrow> 'c \<Rightarrow> 'c"
  DeleteCriticalSection :: "'c \<Rightarrow> 'c"
  sleep_release :: "tid \<Rightarrow> 'c \<Rightarrow> 'c"
  sleep_acquire :: "tid \<Rightarrow> 'c \<Rightarrow> 'c option"

text \<open>
  \<open>SleepConditionVariableCS\<close> releases the section and sleeps, and takes the section again
  before it returns: the two fields \<open>sleep_release\<close> and \<open>sleep_acquire\<close>. A wake-up may come
  at any time (the documentation allows spurious ones), so what the other threads signal
  does not restrict the model. \<open>section_owner\<close> is the thread in the section and how often it
  has entered it.
\<close>

locale cs_laws =
  fixes W :: "'c cs_api" and section_owner :: "'c \<Rightarrow> (tid \<times> nat) option"
  assumes cs_init: "section_owner (InitializeCriticalSection W c) = None"
    and cs_enter_free: "section_owner c = None \<Longrightarrow>
      \<exists>c'. EnterCriticalSection W t c = Some c' \<and> section_owner c' = Some (t, 1)"
    and cs_enter_again: "section_owner c = Some (t, n) \<Longrightarrow>
      \<exists>c'. EnterCriticalSection W t c = Some c' \<and> section_owner c' = Some (t, n + 1)"
    and cs_enter_held: "section_owner c = Some (u, n) \<Longrightarrow> u \<noteq> t \<Longrightarrow> EnterCriticalSection W t c = None"
    and cs_try_free: "section_owner c = None \<Longrightarrow>
      fst (TryEnterCriticalSection W t c) \<and> section_owner (snd (TryEnterCriticalSection W t c)) = Some (t, 1)"
    and cs_try_held: "section_owner c = Some (u, n) \<Longrightarrow> u \<noteq> t \<Longrightarrow>
      \<not> fst (TryEnterCriticalSection W t c) \<and>
      section_owner (snd (TryEnterCriticalSection W t c)) = Some (u, n)"
    and cs_leave: "section_owner c = Some (t, n) \<Longrightarrow>
      section_owner (LeaveCriticalSection W t c) = (if n \<le> 1 then None else Some (t, n - 1))"
    and cs_sleep: "section_owner c = Some (t, 1) \<Longrightarrow> section_owner (sleep_release W t c) = None"
    and cs_wake_free: "section_owner c = None \<Longrightarrow>
      \<exists>c'. sleep_acquire W t c = Some c' \<and> section_owner c' = Some (t, 1)"
    and cs_wake_held: "section_owner c = Some (u, n) \<Longrightarrow> u \<noteq> t \<Longrightarrow> sleep_acquire W t c = None"
begin

lemma enter_result:
  assumes "\<And>n. section_owner c \<noteq> Some (t, n)" and "EnterCriticalSection W t c = Some c'"
  shows "section_owner c = None \<and> section_owner c' = Some (t, 1)"
  using assms cs_enter_free [of c t] cs_enter_held [of c _ _ t]
  by (cases "section_owner c") auto

lemma try_result:
  assumes "\<And>n. section_owner c \<noteq> Some (t, n)"
  shows "(fst (TryEnterCriticalSection W t c) \<and> section_owner c = None \<and>
      section_owner (snd (TryEnterCriticalSection W t c)) = Some (t, 1)) \<or>
    (\<not> fst (TryEnterCriticalSection W t c) \<and> section_owner c \<noteq> None \<and>
      section_owner (snd (TryEnterCriticalSection W t c)) = section_owner c)"
  using assms cs_try_free [of c t] cs_try_held [of c _ _ t]
  by (cases "section_owner c") auto

lemma wake_result:
  assumes "\<And>n. section_owner c \<noteq> Some (t, n)" and "sleep_acquire W t c = Some c'"
  shows "section_owner c = None \<and> section_owner c' = Some (t, 1)"
  using assms cs_wake_free [of c t] cs_wake_held [of c _ _ t]
  by (cases "section_owner c") auto

end

text \<open>A Windows library that keeps the laws: the section is its owner and count.\<close>

definition reference_enter :: "tid \<Rightarrow> (tid \<times> nat) option \<Rightarrow> (tid \<times> nat) option option" where
  "reference_enter t c = (case c of
     None \<Rightarrow> Some (Some (t, 1))
   | Some (u, n) \<Rightarrow> if u = t then Some (Some (t, n + 1)) else None)"

definition reference_cs :: "(tid \<times> nat) option cs_api" where
  "reference_cs = \<lparr>
     InitializeCriticalSection = (\<lambda>c. None),
     EnterCriticalSection = reference_enter,
     TryEnterCriticalSection = (\<lambda>t c. case reference_enter t c of
        None \<Rightarrow> (False, c) | Some c' \<Rightarrow> (True, c')),
     LeaveCriticalSection = (\<lambda>t c. case c of
        None \<Rightarrow> None | Some (u, n) \<Rightarrow> if n \<le> 1 then None else Some (u, n - 1)),
     DeleteCriticalSection = (\<lambda>c. None),
     sleep_release = (\<lambda>t c. None),
     sleep_acquire = reference_enter\<rparr>"

interpretation reference_cs: cs_laws reference_cs "\<lambda>c. c"
  by unfold_locales (auto simp: reference_cs_def reference_enter_def)

subsection \<open>The functions\<close>

datatype wm_fn = Wm_lock | Wm_trylock | Wm_unlock | Wm_cond_wait

text \<open>The points: the read of the owner; the entry into the section and the write of the
  owner; the assertion of \<open>unlock\<close>, the clearing of the owner and the leaving; the same for
  a wait, whose sleep is two steps; returned; the endless loop and the failed assertion of a
  recursive lock.\<close>

datatype wm_pc =
  W_read | W_enter | W_write | W_assert | W_clear | W_leave | W_cond_clear | W_sleep | W_wake
| W_restore | W_ret | W_spin | W_abort

record wm_act =
  wa_fn :: wm_fn
  wa_obj :: nat
  wa_pc :: wm_pc
  wa_result :: int

definition wm_owner :: "nat \<Rightarrow> addr" where
  "wm_owner lock = (lock, 0)"

definition wat :: "wm_pc \<Rightarrow> wm_act \<Rightarrow> wm_act" where
  "wat pc a = a\<lparr>wa_pc := pc\<rparr>"

definition win_mulle_thread_mutex_init ::
  "backend \<Rightarrow> 'c cs_api \<Rightarrow> tid \<Rightarrow> nat \<Rightarrow> mem \<times> 'c \<Rightarrow> int \<times> mem \<times> 'c"
where
  "win_mulle_thread_mutex_init B W t lock s =
     (case s of (m, section) \<Rightarrow>
        (0, be_pointer_write_nonatomic B t (wm_owner lock) 0 m, InitializeCriticalSection W section))"

definition win_mulle_thread_mutex_done :: "'c cs_api \<Rightarrow> mem \<times> 'c \<Rightarrow> int \<times> mem \<times> 'c" where
  "win_mulle_thread_mutex_done W s =
     (case s of (m, section) \<Rightarrow> (0, m, DeleteCriticalSection W section))"

definition win_mulle_thread_mutex_lock ::
  "backend \<Rightarrow> 'c cs_api \<Rightarrow> bool \<Rightarrow> tid \<Rightarrow> wm_act \<Rightarrow> mem \<times> 'c \<Rightarrow> (wm_act \<times> mem \<times> 'c) option"
where
  "win_mulle_thread_mutex_lock B W ndebug self_id a s =
     (case s of (m, section) \<Rightarrow>
      (case wa_pc a of
         W_read \<Rightarrow>
           (case be_pointer_read B self_id (wm_owner (wa_obj a)) m of
              (owner, m') \<Rightarrow>
                if owner = self_id
                then Some (wat (if ndebug then W_spin else W_abort) a, m', section)
                else Some (wat W_enter a, m', section))
       | W_spin \<Rightarrow> Some (a, m, section)
       | W_enter \<Rightarrow>
           (case EnterCriticalSection W self_id section of
              None \<Rightarrow> None
            | Some section' \<Rightarrow> Some (wat W_write a, m, section'))
       | W_write \<Rightarrow>
           Some (wat W_ret (a\<lparr>wa_result := 0\<rparr>),
             be_pointer_write B self_id (wm_owner (wa_obj a)) self_id m, section)
       | _ \<Rightarrow> None))"

definition win_mulle_thread_mutex_trylock ::
  "backend \<Rightarrow> 'c cs_api \<Rightarrow> tid \<Rightarrow> wm_act \<Rightarrow> mem \<times> 'c \<Rightarrow> (wm_act \<times> mem \<times> 'c) option"
where
  "win_mulle_thread_mutex_trylock B W self_id a s =
     (case s of (m, section) \<Rightarrow>
      (case wa_pc a of
         W_read \<Rightarrow>
           (case be_pointer_read B self_id (wm_owner (wa_obj a)) m of
              (owner_id, m') \<Rightarrow>
                if owner_id = self_id
                then Some (wat W_ret (a\<lparr>wa_result := EBUSY\<rparr>), m', section)
                else Some (wat W_enter a, m', section))
       | W_enter \<Rightarrow>
           (case TryEnterCriticalSection W self_id section of
              (entered, section') \<Rightarrow>
                if entered then Some (wat W_write a, m, section')
                else Some (wat W_ret (a\<lparr>wa_result := EBUSY\<rparr>), m, section'))
       | W_write \<Rightarrow>
           Some (wat W_ret (a\<lparr>wa_result := 0\<rparr>),
             be_pointer_write B self_id (wm_owner (wa_obj a)) self_id m, section)
       | _ \<Rightarrow> None))"

definition win_mulle_thread_mutex_unlock ::
  "backend \<Rightarrow> 'c cs_api \<Rightarrow> bool \<Rightarrow> tid \<Rightarrow> wm_act \<Rightarrow> mem \<times> 'c \<Rightarrow> (wm_act \<times> mem \<times> 'c) option"
where
  "win_mulle_thread_mutex_unlock B W ndebug self a s =
     (case s of (m, section) \<Rightarrow>
      (case wa_pc a of
         W_assert \<Rightarrow>
           if ndebug then Some (wat W_clear a, m, section)
           else (case be_pointer_read_nonatomic B self (wm_owner (wa_obj a)) m of
              (owner, m') \<Rightarrow> Some (wat (if owner = self then W_clear else W_abort) a, m', section))
       | W_clear \<Rightarrow>
           Some (wat W_leave a, be_pointer_write B self (wm_owner (wa_obj a)) 0 m, section)
       | W_leave \<Rightarrow>
           Some (wat W_ret (a\<lparr>wa_result := 0\<rparr>), m, LeaveCriticalSection W self section)
       | _ \<Rightarrow> None))"

text \<open>Both waits have the same effect on the mutex; \<open>success\<close> is what the sleep returned. The
  result of the timed wait is the subject of theory \<open>Win_Timedwait\<close>.\<close>

definition win_mulle_thread_cond_wait ::
  "backend \<Rightarrow> 'c cs_api \<Rightarrow> tid \<Rightarrow> bool \<Rightarrow> wm_act \<Rightarrow> mem \<times> 'c \<Rightarrow> (wm_act \<times> mem \<times> 'c) option"
where
  "win_mulle_thread_cond_wait B W self success a s =
     (case s of (m, section) \<Rightarrow>
      (case wa_pc a of
         W_cond_clear \<Rightarrow>
           Some (wat W_sleep a, be_pointer_write B self (wm_owner (wa_obj a)) 0 m, section)
       | W_sleep \<Rightarrow> Some (wat W_wake a, m, sleep_release W self section)
       | W_wake \<Rightarrow>
           (case sleep_acquire W self section of
              None \<Rightarrow> None
            | Some section' \<Rightarrow>
                Some (wat W_restore (a\<lparr>wa_result := (if success then 0 else - 1)\<rparr>), m, section'))
       | W_restore \<Rightarrow>
           Some (wat W_ret a, be_pointer_write B self (wm_owner (wa_obj a)) self m, section)
       | _ \<Rightarrow> None))"

definition wm_fn_step ::
  "backend \<Rightarrow> 'c cs_api \<Rightarrow> bool \<Rightarrow> tid \<Rightarrow> bool \<Rightarrow> wm_act \<Rightarrow> mem \<times> 'c \<Rightarrow> (wm_act \<times> mem \<times> 'c) option"
where
  "wm_fn_step B W ndebug t success a s =
     (case wa_fn a of
        Wm_lock \<Rightarrow> win_mulle_thread_mutex_lock B W ndebug t a s
      | Wm_trylock \<Rightarrow> win_mulle_thread_mutex_trylock B W t a s
      | Wm_unlock \<Rightarrow> win_mulle_thread_mutex_unlock B W ndebug t a s
      | Wm_cond_wait \<Rightarrow> win_mulle_thread_cond_wait B W t success a s)"

lemmas wm_fn_defs =
  wm_fn_step_def win_mulle_thread_mutex_lock_def win_mulle_thread_mutex_trylock_def
  win_mulle_thread_mutex_unlock_def win_mulle_thread_cond_wait_def

definition wm_entry :: "wm_fn \<Rightarrow> nat \<Rightarrow> wm_act" where
  "wm_entry f lock = \<lparr>wa_fn = f, wa_obj = lock,
     wa_pc = (case f of Wm_unlock \<Rightarrow> W_assert | Wm_cond_wait \<Rightarrow> W_cond_clear | _ \<Rightarrow> W_read),
     wa_result = 0\<rparr>"

subsection \<open>Threads\<close>

text \<open>\<open>wm_locked\<close> is the clients' view: set when the owner is written, reset when it is
  cleared. Clients unlock and wait only on a mutex they have locked.\<close>

record 'c wm_sys =
  wm_mem :: mem
  wm_section :: "nat \<Rightarrow> 'c"
  wm_acts :: "tid \<Rightarrow> wm_act option"
  wm_locked :: "tid \<Rightarrow> nat \<Rightarrow> bool"

text \<open>A step names what a sleep that ends in it returns.\<close>

datatype wm_move = Wm_call tid wm_fn nat | Wm_step tid bool

definition wm_may_call :: "'c wm_sys \<Rightarrow> tid \<Rightarrow> wm_fn \<Rightarrow> nat \<Rightarrow> bool" where
  "wm_may_call s t f p \<longleftrightarrow> t \<noteq> 0 \<and> wm_acts s t = None \<and>
     (f \<in> {Wm_unlock, Wm_cond_wait} \<longrightarrow> wm_locked s t p)"

definition wm_note :: "tid \<Rightarrow> wm_act \<Rightarrow> 'c wm_sys \<Rightarrow> tid \<Rightarrow> nat \<Rightarrow> bool" where
  "wm_note t a s =
     (let k = wm_locked s; p = wa_obj a in
      if wa_pc a \<in> {W_write, W_restore} then k(t := (k t)(p := True))
      else if wa_pc a \<in> {W_clear, W_cond_clear} then k(t := (k t)(p := False))
      else k)"

fun wm_exec ::
  "backend \<Rightarrow> 'c cs_api \<Rightarrow> bool \<Rightarrow> wm_move \<Rightarrow> 'c wm_sys \<Rightarrow> 'c wm_sys option"
where
  "wm_exec B W ndebug (Wm_call t f p) s =
     (if wm_may_call s t f p
      then Some (s\<lparr>wm_acts := (wm_acts s)(t := Some (wm_entry f p))\<rparr>) else None)"
| "wm_exec B W ndebug (Wm_step t success) s =
     (case wm_acts s t of
        None \<Rightarrow> None
      | Some a \<Rightarrow>
          if wa_pc a = W_ret then Some (s\<lparr>wm_acts := (wm_acts s)(t := None)\<rparr>)
          else (case wm_fn_step B W ndebug t success a (wm_mem s, wm_section s (wa_obj a)) of
              None \<Rightarrow> None
            | Some (a', m', section') \<Rightarrow> Some (s\<lparr>
                wm_mem := m',
                wm_section := (wm_section s)(wa_obj a := section'),
                wm_acts := (wm_acts s)(t := Some a'),
                wm_locked := wm_note t a s\<rparr>)))"

fun wm_run ::
  "backend \<Rightarrow> 'c cs_api \<Rightarrow> bool \<Rightarrow> wm_move list \<Rightarrow> 'c wm_sys \<Rightarrow> 'c wm_sys option"
where
  "wm_run B W ndebug [] s = Some s"
| "wm_run B W ndebug (mv # mvs) s =
     (case wm_exec B W ndebug mv s of None \<Rightarrow> None | Some s' \<Rightarrow> wm_run B W ndebug mvs s')"

definition wm_start :: "('c \<Rightarrow> (tid \<times> nat) option) \<Rightarrow> 'c wm_sys \<Rightarrow> bool" where
  "wm_start section_owner s \<longleftrightarrow>
     (\<forall>p. cells (wm_mem s) (wm_owner p) = 0 \<and> section_owner (wm_section s p) = None) \<and>
     wm_acts s = (\<lambda>t. None) \<and> wm_locked s = (\<lambda>t p. False)"

inductive wm_reach ::
  "backend \<Rightarrow> 'c cs_api \<Rightarrow> ('c \<Rightarrow> (tid \<times> nat) option) \<Rightarrow> bool \<Rightarrow> 'c wm_sys \<Rightarrow> bool"
  for B W section_owner nd
where
  wm_reach_start: "wm_start section_owner s \<Longrightarrow> wm_reach B W section_owner nd s"
| wm_reach_step: "wm_reach B W section_owner nd s \<Longrightarrow> wm_exec B W nd mv s = Some s' \<Longrightarrow>
     wm_reach B W section_owner nd s'"

lemma wm_run_reach:
  "wm_reach B W so nd s \<Longrightarrow> wm_run B W nd mvs s = Some s' \<Longrightarrow> wm_reach B W so nd s'"
  by (induction mvs arbitrary: s) (auto split: option.splits intro: wm_reach_step)

subsection \<open>The protocol\<close>

text \<open>One step of thread \<open>t\<close> on the owner id and the owner of the section.\<close>

type_synonym wm_view = "ptr \<times> (tid \<times> nat) option"

inductive wm_trans ::
  "bool \<Rightarrow> tid \<Rightarrow> wm_fn \<Rightarrow> wm_pc \<Rightarrow> wm_view \<Rightarrow> wm_pc \<Rightarrow> wm_view \<Rightarrow> bool" for nd t
where
  wm_again: "wm_trans nd t Wm_lock W_read (t, c) (if nd then W_spin else W_abort) (t, c)"
| wm_spin: "wm_trans nd t Wm_lock W_spin x W_spin x"
| wm_busy: "wm_trans nd t Wm_trylock W_read (t, c) W_ret (t, c)"
| wm_foreign: "i \<noteq> t \<Longrightarrow> f \<in> {Wm_lock, Wm_trylock} \<Longrightarrow> wm_trans nd t f W_read (i, c) W_enter (i, c)"
| wm_enter: "f \<in> {Wm_lock, Wm_trylock} \<Longrightarrow>
    wm_trans nd t f W_enter (i, None) W_write (i, Some (t, 1))"
| wm_refused: "c \<noteq> None \<Longrightarrow> wm_trans nd t Wm_trylock W_enter (i, c) W_ret (i, c)"
| wm_write: "f \<in> {Wm_lock, Wm_trylock} \<Longrightarrow> wm_trans nd t f W_write (i, c) W_ret (t, c)"
| wm_assert: "nd \<or> i = t \<Longrightarrow> wm_trans nd t Wm_unlock W_assert (i, c) W_clear (i, c)"
| wm_fail: "\<not> nd \<Longrightarrow> i \<noteq> t \<Longrightarrow> wm_trans nd t Wm_unlock W_assert (i, c) W_abort (i, c)"
| wm_clear: "wm_trans nd t Wm_unlock W_clear (i, c) W_leave (0, c)"
| wm_leave: "wm_trans nd t Wm_unlock W_leave (i, Some (t, 1)) W_ret (i, None)"
| wm_cond_clear: "wm_trans nd t Wm_cond_wait W_cond_clear (i, c) W_sleep (0, c)"
| wm_sleep: "wm_trans nd t Wm_cond_wait W_sleep (i, Some (t, 1)) W_wake (i, None)"
| wm_wake: "wm_trans nd t Wm_cond_wait W_wake (i, None) W_restore (i, Some (t, 1))"
| wm_restore: "wm_trans nd t Wm_cond_wait W_restore (i, c) W_ret (t, c)"

inductive_simps wm_trans_simps:
  "wm_trans nd t f W_read x p' x'"
  "wm_trans nd t f W_enter x p' x'"
  "wm_trans nd t f W_write x p' x'"
  "wm_trans nd t f W_assert x p' x'"
  "wm_trans nd t f W_clear x p' x'"
  "wm_trans nd t f W_leave x p' x'"
  "wm_trans nd t f W_cond_clear x p' x'"
  "wm_trans nd t f W_sleep x p' x'"
  "wm_trans nd t f W_wake x p' x'"
  "wm_trans nd t f W_restore x p' x'"
  "wm_trans nd t f W_ret x p' x'"
  "wm_trans nd t f W_spin x p' x'"
  "wm_trans nd t f W_abort x p' x'"

definition wm_view ::
  "('c \<Rightarrow> (tid \<times> nat) option) \<Rightarrow> nat \<Rightarrow> mem \<Rightarrow> 'c \<Rightarrow> wm_view"
where
  "wm_view section_owner p m section = (cells m (wm_owner p), section_owner section)"

lemma wat_simps [simp]:
  "wa_fn (wat pc a) = wa_fn a" "wa_obj (wat pc a) = wa_obj a" "wa_pc (wat pc a) = pc"
  "wa_result (wat pc a) = wa_result a"
  by (simp_all add: wat_def)

lemma wm_owner_eq [simp]: "wm_owner p = wm_owner q \<longleftrightarrow> p = q"
  by (simp add: wm_owner_def)

locale windows_mutex = atomic_backend B + cs_laws W section_owner
  for B :: backend and W :: "'c cs_api" and section_owner :: "'c \<Rightarrow> (tid \<times> nat) option"
begin

lemma wm_fn_step_refines:
  assumes step: "wm_fn_step B W nd t ok a (m, c) = Some (a', m', c')"
    and enter: "wa_pc a \<in> {W_enter, W_wake} \<Longrightarrow> \<forall>n. section_owner c \<noteq> Some (t, n)"
    and leave: "wa_pc a \<in> {W_leave, W_sleep} \<Longrightarrow> section_owner c = Some (t, 1)"
  shows "wa_fn a' = wa_fn a \<and> wa_obj a' = wa_obj a \<and>
    wm_trans nd t (wa_fn a) (wa_pc a) (wm_view section_owner (wa_obj a) m c)
      (wa_pc a') (wm_view section_owner (wa_obj a) m' c') \<and>
    (\<forall>x. x \<noteq> wm_owner (wa_obj a) \<longrightarrow> cells m' x = cells m x)"
proof (cases "wa_pc a")
  case W_enter
  then have no: "\<And>n. section_owner c \<noteq> Some (t, n)" using enter by simp
  show ?thesis
  proof (cases "wa_fn a")
    case Wm_lock
    with step W_enter obtain c1 where "EnterCriticalSection W t c = Some c1" "c' = c1" "m' = m"
      "a' = wat W_write a"
      by (auto simp: wm_fn_defs split: option.splits)
    with enter_result [OF no] Wm_lock W_enter show ?thesis
      by (auto simp: wm_view_def wm_trans_simps)
  next
    case Wm_trylock
    with try_result [OF no] step W_enter show ?thesis
      by (auto simp: wm_fn_defs wm_view_def wm_trans_simps split: if_splits prod.splits)
  qed (use step W_enter in \<open>simp_all add: wm_fn_defs\<close>)
next
  case W_wake
  then have no: "\<And>n. section_owner c \<noteq> Some (t, n)" using enter by simp
  from W_wake step have f: "wa_fn a = Wm_cond_wait"
    by (cases "wa_fn a") (auto simp: wm_fn_defs)
  with step W_wake obtain c1 where "sleep_acquire W t c = Some c1" "c' = c1" "m' = m"
    "wa_pc a' = W_restore" "wa_fn a' = wa_fn a" "wa_obj a' = wa_obj a"
    by (auto simp: wm_fn_defs split: option.splits)
  with wake_result [OF no] f W_wake show ?thesis
    by (auto simp: wm_view_def wm_trans_simps)
next
  case W_leave
  then show ?thesis
    using step leave cs_leave [of c t 1]
    by (cases "wa_fn a") (auto simp: wm_fn_defs wm_view_def wm_trans_simps)
next
  case W_sleep
  then show ?thesis
    using step leave cs_sleep [of c t]
    by (cases "wa_fn a") (auto simp: wm_fn_defs wm_view_def wm_trans_simps)
qed (use step in \<open>cases "wa_fn a"; auto simp: wm_fn_defs wm_view_def wm_trans_simps case_prod_beta
    split: if_splits\<close>)+

lemma wm_init_start:
  "win_mulle_thread_mutex_init B W t p (m, c) = (r, m', c') \<Longrightarrow>
     r = 0 \<and> wm_view section_owner p m' c' = (0, None)"
  by (auto simp: win_mulle_thread_mutex_init_def wm_view_def cs_init)

end

end
