(* ===== verification/Win_Mutex_Invariant.thy ===== *)
theory Win_Mutex_Invariant
  imports Win_Mutex
begin

text \<open>
  The invariant of the Windows mutex and its guarantees: mutual exclusion, the owner id is
  never stale, a recursive lock never returns and a recursive trylock is busy, and a wait
  returns with the mutex held.
\<close>

subsection \<open>The invariant\<close>

definition wpc_on :: "'c wm_sys \<Rightarrow> tid \<Rightarrow> nat \<Rightarrow> wm_pc option" where
  "wpc_on s t p = (case wm_acts s t of
     None \<Rightarrow> None | Some a \<Rightarrow> if wa_obj a = p then Some (wa_pc a) else None)"

definition wm_outside :: "wm_pc option \<Rightarrow> bool \<Rightarrow> bool" where
  "wm_outside pc locked \<longleftrightarrow> \<not> locked \<and>
     pc \<in> {None, Some W_read, Some W_enter, Some W_wake, Some W_ret}"

definition wm_inside :: "tid \<Rightarrow> wm_pc option \<Rightarrow> ptr \<Rightarrow> bool \<Rightarrow> bool" where
  "wm_inside u pc i locked \<longleftrightarrow>
     (case pc of
        Some W_write \<Rightarrow> i = 0 \<and> \<not> locked
      | Some W_restore \<Rightarrow> i = 0 \<and> \<not> locked
      | Some W_leave \<Rightarrow> i = 0 \<and> \<not> locked
      | Some W_sleep \<Rightarrow> i = 0 \<and> \<not> locked
      | Some W_enter \<Rightarrow> False
      | Some W_wake \<Rightarrow> False
      | _ \<Rightarrow> i = u \<and> locked)"

definition wm_view_inv :: "wm_view \<Rightarrow> (tid \<Rightarrow> wm_pc option) \<Rightarrow> (tid \<Rightarrow> bool) \<Rightarrow> bool" where
  "wm_view_inv v pcs locked \<longleftrightarrow>
     (case v of (i, c) \<Rightarrow>
        (c = None \<and> i = 0 \<and> (\<forall>t. wm_outside (pcs t) (locked t))) \<or>
        (\<exists>u. c = Some (u, 1) \<and> u \<noteq> 0 \<and> wm_inside u (pcs u) i (locked u) \<and>
          (\<forall>t. t \<noteq> u \<longrightarrow> wm_outside (pcs t) (locked t))))"

definition wm_obj_inv :: "('c \<Rightarrow> (tid \<times> nat) option) \<Rightarrow> 'c wm_sys \<Rightarrow> nat \<Rightarrow> bool" where
  "wm_obj_inv so s p \<longleftrightarrow>
     wm_view_inv (wm_view so p (wm_mem s) (wm_section s p)) (\<lambda>t. wpc_on s t p) (\<lambda>t. wm_locked s t p)"

definition wm_act_ok :: "bool \<Rightarrow> wm_act \<Rightarrow> bool" where
  "wm_act_ok locked a \<longleftrightarrow>
     (case wa_fn a of
        Wm_lock \<Rightarrow> wa_pc a \<in> {W_read, W_enter, W_write, W_ret, W_spin, W_abort}
      | Wm_trylock \<Rightarrow> wa_pc a \<in> {W_read, W_enter, W_write, W_ret}
      | Wm_unlock \<Rightarrow> wa_pc a \<in> {W_assert, W_clear, W_leave, W_ret}
      | Wm_cond_wait \<Rightarrow> wa_pc a \<in> {W_cond_clear, W_sleep, W_wake, W_restore, W_ret} \<and>
          (wa_pc a = W_ret \<longrightarrow> locked))"

definition wm_inv :: "('c \<Rightarrow> (tid \<times> nat) option) \<Rightarrow> 'c wm_sys \<Rightarrow> bool" where
  "wm_inv so s \<longleftrightarrow> (\<forall>p. wm_obj_inv so s p) \<and>
     (\<forall>t a. wm_acts s t = Some a \<longrightarrow> t \<noteq> 0 \<and> wm_act_ok (wm_locked s t (wa_obj a)) a)"

lemma wm_obj_inv_cases:
  assumes "wm_obj_inv so s p"
  obtains (free) "cells (wm_mem s) (wm_owner p) = 0" and "so (wm_section s p) = None"
      and "\<And>t. wm_outside (wpc_on s t p) (wm_locked s t p)"
    | (held) u where "so (wm_section s p) = Some (u, 1)" and "u \<noteq> 0"
      and "wm_inside u (wpc_on s u p) (cells (wm_mem s) (wm_owner p)) (wm_locked s u p)"
      and "\<And>t. t \<noteq> u \<Longrightarrow> wm_outside (wpc_on s t p) (wm_locked s t p)"
  using assms by (auto simp: wm_obj_inv_def wm_view_inv_def wm_view_def)

lemma wm_obj_invI:
  assumes "wm_view so p (wm_mem s) (wm_section s p) = (i, c)"
    and "(c = Some (u, 1) \<and> u \<noteq> 0 \<and> wm_inside u (wpc_on s u p) i (wm_locked s u p)) \<or>
      (c = None \<and> i = 0 \<and> wm_outside (wpc_on s u p) (wm_locked s u p))"
    and "\<And>t. t \<noteq> u \<Longrightarrow> wm_outside (wpc_on s t p) (wm_locked s t p)"
  shows "wm_obj_inv so s p"
proof (cases "c = None")
  case True
  then have "wm_outside (wpc_on s t p) (wm_locked s t p)" for t
    using assms(2,3) by (cases "t = u") auto
  with True assms(1,2) show ?thesis by (simp add: wm_obj_inv_def wm_view_inv_def)
next
  case False
  with assms show ?thesis by (simp add: wm_obj_inv_def wm_view_inv_def)
qed

lemma wm_obj_inv_cong:
  assumes "wm_obj_inv so s p"
    and "wm_view so p (wm_mem s') (wm_section s' p) = wm_view so p (wm_mem s) (wm_section s p)"
    and "\<And>t. wpc_on s' t p = wpc_on s t p" and "\<And>t. wm_locked s' t p = wm_locked s t p"
  shows "wm_obj_inv so s' p"
  using assms by (simp add: wm_obj_inv_def)

text \<open>What a thread's own point says about the section.\<close>

lemma wm_obj_section:
  assumes "wm_obj_inv so s p" and "wpc_on s t p = Some pc"
  shows "(pc \<in> {W_enter, W_wake} \<longrightarrow> (\<forall>n. so (wm_section s p) \<noteq> Some (t, n))) \<and>
    (pc \<in> {W_leave, W_sleep} \<longrightarrow> so (wm_section s p) = Some (t, 1)) \<and>
    (pc = W_assert \<longrightarrow> cells (wm_mem s) (wm_owner p) = t)"
  using assms(1)
proof (cases rule: wm_obj_inv_cases)
  case free
  then show ?thesis using free(3) [of t] assms(2) by (auto simp: wm_outside_def)
next
  case (held u)
  then show ?thesis using held(4) [of t] assms(2)
    by (cases "t = u") (auto simp: wm_outside_def wm_inside_def)
qed

lemma wm_locked_section:
  assumes "wm_obj_inv so s p" and "wm_locked s t p"
  shows "so (wm_section s p) = Some (t, 1)" and "t \<noteq> 0"
    and "wm_inside t (wpc_on s t p) (cells (wm_mem s) (wm_owner p)) True"
    and "u \<noteq> t \<Longrightarrow> \<not> wm_locked s u p"
proof -
  have "so (wm_section s p) = Some (t, 1) \<and> t \<noteq> 0 \<and>
    wm_inside t (wpc_on s t p) (cells (wm_mem s) (wm_owner p)) True \<and>
    (\<forall>u. u \<noteq> t \<longrightarrow> \<not> wm_locked s u p)"
    using assms(1)
  proof (cases rule: wm_obj_inv_cases)
    case free
    then show ?thesis using free(3) [of t] assms(2) by (auto simp: wm_outside_def)
  next
    case (held v)
    have "t = v" using held(4) [of t] assms(2) by (cases "t = v") (auto simp: wm_outside_def)
    with held assms(2) show ?thesis by (auto simp: wm_outside_def)
  qed
  then show "so (wm_section s p) = Some (t, 1)" "t \<noteq> 0"
    "wm_inside t (wpc_on s t p) (cells (wm_mem s) (wm_owner p)) True"
    "u \<noteq> t \<Longrightarrow> \<not> wm_locked s u p" by auto
qed

subsection \<open>Preservation\<close>

lemma wm_start_inv: "wm_start so s \<Longrightarrow> wm_inv so s"
  by (simp add: wm_start_def wm_inv_def wm_obj_inv_def wm_view_inv_def wm_view_def wpc_on_def
    wm_outside_def)

definition wm_idle :: "wm_pc option \<Rightarrow> bool" where
  "wm_idle pc \<longleftrightarrow> pc \<in> {None, Some W_read, Some W_ret}"

lemma wm_idle_inv:
  assumes inv: "wm_obj_inv so s p" and "wm_idle (wpc_on s t p)"
    and new: "wm_idle (case act of None \<Rightarrow> None | Some a \<Rightarrow> if wa_obj a = p then Some (wa_pc a) else None)"
  shows "wm_obj_inv so (s\<lparr>wm_acts := (wm_acts s)(t := act)\<rparr>) p"
proof -
  let ?s = "s\<lparr>wm_acts := (wm_acts s)(t := act)\<rparr>"
  have pc: "wpc_on ?s u p = wpc_on s u p \<or> (wm_idle (wpc_on ?s u p) \<and> wm_idle (wpc_on s u p))" for u
    using assms(2,3) by (cases "u = t") (auto simp: wpc_on_def)
  have "wm_inside u (wpc_on ?s u p) i k = wm_inside u (wpc_on s u p) i k" for u i k
    using pc [of u] by (auto simp: wm_idle_def wm_inside_def)
  moreover have "wm_outside (wpc_on ?s u p) k = wm_outside (wpc_on s u p) k" for u k
    using pc [of u] by (auto simp: wm_idle_def wm_outside_def)
  ultimately show ?thesis using inv by (simp add: wm_obj_inv_def wm_view_inv_def)
qed

lemma wm_owner_entry_inv:
  assumes inv: "wm_obj_inv so s p" and "wm_acts s t = None" and "wm_locked s t p"
    and "f \<in> {Wm_unlock, Wm_cond_wait}"
  shows "wm_obj_inv so (s\<lparr>wm_acts := (wm_acts s)(t := Some (wm_entry f p))\<rparr>) p" (is "wm_obj_inv so ?s p")
proof (rule wm_obj_invI [where u = t])
  note k = wm_locked_section [OF inv assms(3)]
  show "wm_view so p (wm_mem ?s) (wm_section ?s p) = (cells (wm_mem s) (wm_owner p), Some (t, 1))"
    by (simp add: wm_view_def k(1))
  show "Some (t, 1) = Some (t, 1) \<and> t \<noteq> 0 \<and>
      wm_inside t (wpc_on ?s t p) (cells (wm_mem s) (wm_owner p)) (wm_locked ?s t p) \<or>
    Some (t, 1) = None \<and> cells (wm_mem s) (wm_owner p) = 0 \<and> wm_outside (wpc_on ?s t p) (wm_locked ?s t p)"
    using k(2,3) assms(2-4) by (auto simp: wpc_on_def wm_entry_def wm_inside_def)
  show "u \<noteq> t \<Longrightarrow> wm_outside (wpc_on ?s u p) (wm_locked ?s u p)" for u
    using inv k(1) by (cases rule: wm_obj_inv_cases) (auto simp: wpc_on_def)
qed

lemma wm_call_inv:
  assumes inv: "wm_inv so s" and ex: "wm_exec B W nd (Wm_call t f p) s = Some s'"
  shows "wm_inv so s'"
proof -
  have may: "wm_may_call s t f p" and s': "s' = s\<lparr>wm_acts := (wm_acts s)(t := Some (wm_entry f p))\<rparr>"
    using ex by (auto split: if_splits)
  have oi: "wm_obj_inv so s q" for q using inv by (simp add: wm_inv_def)
  have idle: "wm_acts s t = None" "wpc_on s t q = None" for q
    using may by (simp_all add: wm_may_call_def wpc_on_def)
  have "wm_obj_inv so s' q" for q
  proof (cases "q = p \<and> f \<in> {Wm_unlock, Wm_cond_wait}")
    case True
    with wm_owner_entry_inv [OF oi idle(1), of p f] may s' show ?thesis
      by (auto simp: wm_may_call_def)
  next
    case False
    then show ?thesis unfolding s'
      by (intro wm_idle_inv [OF oi])
        (cases f; auto simp: idle wm_idle_def wm_entry_def)+
  qed
  moreover have "wm_act_ok (wm_locked s t p) (wm_entry f p)"
    by (cases f) (auto simp: wm_act_ok_def wm_entry_def)
  ultimately show ?thesis
    using inv may by (auto simp: wm_inv_def s' wm_may_call_def wm_entry_def)
qed

lemma wm_return_inv:
  assumes inv: "wm_inv so s" and "wm_acts s t = Some a" and "wa_pc a = W_ret"
  shows "wm_inv so (s\<lparr>wm_acts := (wm_acts s)(t := None)\<rparr>)"
proof -
  have "wm_obj_inv so (s\<lparr>wm_acts := (wm_acts s)(t := None)\<rparr>) p" for p
    by (rule wm_idle_inv) (use assms in \<open>auto simp: wm_inv_def wpc_on_def wm_idle_def\<close>)
  then show ?thesis using inv by (auto simp: wm_inv_def)
qed

definition wm_after ::
  "tid \<Rightarrow> wm_act \<Rightarrow> wm_act \<Rightarrow> mem \<Rightarrow> 'c \<Rightarrow> 'c wm_sys \<Rightarrow> 'c wm_sys"
where
  "wm_after t a a' m' c' s = s\<lparr>
     wm_mem := m', wm_section := (wm_section s)(wa_obj a := c'),
     wm_acts := (wm_acts s)(t := Some a'), wm_locked := wm_note t a s\<rparr>"

lemma wm_exec_StepE:
  assumes "wm_exec B W nd (Wm_step t ok) s = Some s'"
  obtains a where "wm_acts s t = Some a" and "wa_pc a = W_ret"
      and "s' = s\<lparr>wm_acts := (wm_acts s)(t := None)\<rparr>"
    | a a' m' c' where "wm_acts s t = Some a" and "wa_pc a \<noteq> W_ret"
      and "wm_fn_step B W nd t ok a (wm_mem s, wm_section s (wa_obj a)) = Some (a', m', c')"
      and "s' = wm_after t a a' m' c' s"
  using assms by (auto simp: wm_after_def split: option.splits if_splits)

lemma wm_note_other: "p \<noteq> wa_obj a \<or> u \<noteq> t \<Longrightarrow> wm_note t a s u p = wm_locked s u p"
  by (auto simp: wm_note_def Let_def)

definition note_at :: "wm_pc \<Rightarrow> bool \<Rightarrow> bool" where
  "note_at pc k = (if pc \<in> {W_write, W_restore} then True
     else if pc \<in> {W_clear, W_cond_clear} then False else k)"

lemma wm_note_self: "wm_note t a s t (wa_obj a) = note_at (wa_pc a) (wm_locked s t (wa_obj a))"
  by (auto simp: wm_note_def Let_def note_at_def)

lemma wm_trans_inside:
  assumes "wm_trans nd t f pc (i, Some (t, 1)) pc' (i', c')" and "wm_inside t (Some pc) i k"
    and "t \<noteq> 0"
  shows "(c' = Some (t, 1) \<and> t \<noteq> 0 \<and> wm_inside t (Some pc') i' (note_at pc k)) \<or>
    (c' = None \<and> i' = 0 \<and> wm_outside (Some pc') (note_at pc k))"
  using assms by (cases pc) (auto simp: wm_trans_simps wm_inside_def wm_outside_def note_at_def)

lemma wm_trans_enter:
  assumes "wm_trans nd t f pc (0, None) pc' (i', c')" and "wm_outside (Some pc) k" and "t \<noteq> 0"
  shows "(c' = Some (t, 1) \<and> t \<noteq> 0 \<and> wm_inside t (Some pc') i' (note_at pc k)) \<or>
    (c' = None \<and> i' = 0 \<and> wm_outside (Some pc') (note_at pc k))"
  using assms by (cases pc) (auto simp: wm_trans_simps wm_inside_def wm_outside_def note_at_def)

lemma wm_trans_outside:
  assumes "wm_trans nd t f pc (i, Some (u, 1)) pc' (i', c')" and "wm_outside (Some pc) k"
    and "t \<noteq> u" and "i = 0 \<or> i = u" and "t \<noteq> 0"
  shows "i' = i \<and> c' = Some (u, 1) \<and> wm_outside (Some pc') (note_at pc k)"
  using assms by (cases pc) (auto simp: wm_trans_simps wm_outside_def note_at_def)

lemma wm_inside_id: "wm_inside u pc i k \<Longrightarrow> i = 0 \<or> i = u"
  by (auto simp: wm_inside_def split: option.splits wm_pc.splits)

lemma wm_after_obj_inv:
  assumes inv: "wm_obj_inv so s p" and a: "wm_acts s t = Some a" "wa_obj a = p" "wa_obj a' = p"
    and t: "t \<noteq> 0"
    and tr: "wm_trans nd t (wa_fn a) (wa_pc a) (wm_view so p (wm_mem s) (wm_section s p))
      (wa_pc a') (wm_view so p m' c')"
  shows "wm_obj_inv so (wm_after t a a' m' c' s) p" (is "wm_obj_inv so ?s p")
proof -
  have pc: "wpc_on s t p = Some (wa_pc a)" "wpc_on ?s t p = Some (wa_pc a')"
    "u \<noteq> t \<Longrightarrow> wpc_on ?s u p = wpc_on s u p" for u
    using a by (auto simp: wpc_on_def wm_after_def)
  have k: "u \<noteq> t \<Longrightarrow> wm_locked ?s u p = wm_locked s u p"
    "wm_locked ?s t p = note_at (wa_pc a) (wm_locked s t p)" for u
    using wm_note_self [of t a s] a(2) by (auto simp: wm_after_def wm_note_other)
  obtain i' c1 where v: "wm_view so p m' c' = (i', c1)" by (cases "wm_view so p m' c'")
  have vs: "wm_view so p (wm_mem ?s) (wm_section ?s p) = (i', c1)"
    using v a(2) by (simp add: wm_after_def)
  from inv show ?thesis
  proof (cases rule: wm_obj_inv_cases)
    case free
    have "wm_trans nd t (wa_fn a) (wa_pc a) (0, None) (wa_pc a') (i', c1)"
      using tr v free by (simp add: wm_view_def)
    from wm_trans_enter [OF this _ t] free(3) [of t] pc k(2) show ?thesis
      by (intro wm_obj_invI [OF vs, of t]) (use free(3) pc(3) k(1) in simp_all)
  next
    case (held u)
    have tr': "wm_trans nd t (wa_fn a) (wa_pc a) (cells (wm_mem s) (wm_owner p), Some (u, 1)) (wa_pc a') (i', c1)"
      using tr v held by (simp add: wm_view_def)
    show ?thesis
    proof (cases "u = t")
      case True
      from wm_trans_inside [OF tr' [unfolded True] _ t] held(3) True pc k(2) show ?thesis
        by (intro wm_obj_invI [OF vs, of t]) (use held(4) pc(3) k(1) True in simp_all)
    next
      case False
      have out: "wm_outside (Some (wa_pc a)) (wm_locked s t p)"
        using held(4) [of t] False pc by simp
      from wm_trans_outside [OF tr' out _ wm_inside_id [OF held(3)] t] False
      have "i' = cells (wm_mem s) (wm_owner p)" "c1 = Some (u, 1)"
        "wm_outside (wpc_on ?s t p) (wm_locked ?s t p)" using pc k by auto
      then have "c1 = Some (u, 1) \<and> u \<noteq> 0 \<and> wm_inside u (wpc_on ?s u p) i' (wm_locked ?s u p)"
        "w \<noteq> u \<Longrightarrow> wm_outside (wpc_on ?s w p) (wm_locked ?s w p)" for w
        using held pc k False by (simp_all, cases "w = t", simp_all)
      then show ?thesis
        by (intro wm_obj_invI [OF vs, of u]) simp_all
    qed
  qed
qed

lemma wm_trans_act_ok:
  assumes "wm_trans nd t (wa_fn a) (wa_pc a) x (wa_pc a') x'" and "wa_fn a' = wa_fn a"
    and "wm_act_ok k a" and "wa_pc a' = W_abort \<Longrightarrow> wa_fn a = Wm_lock"
  shows "wm_act_ok (note_at (wa_pc a) k) a'"
  using assms
  by (cases "wa_pc a"; cases "wa_fn a")
    (auto simp: wm_trans_simps wm_act_ok_def note_at_def split: if_splits)

context windows_mutex
begin

lemma wm_step_inv:
  assumes inv: "wm_inv section_owner s" and a: "wm_acts s t = Some a" and pc: "wa_pc a \<noteq> W_ret"
    and step: "wm_fn_step B W nd t ok a (wm_mem s, wm_section s (wa_obj a)) = Some (a', m', c')"
  shows "wm_inv section_owner (wm_after t a a' m' c' s)" (is "wm_inv _ ?s")
proof -
  define p where "p = wa_obj a"
  have oi: "wm_obj_inv section_owner s q" for q using inv by (simp add: wm_inv_def)
  have t: "t \<noteq> 0" and ok: "wm_act_ok (wm_locked s t p) a"
    using inv a by (auto simp: wm_inv_def p_def)
  have pcs: "wpc_on s t p = Some (wa_pc a)" using a by (simp add: wpc_on_def p_def)
  have enter: "wa_pc a \<in> {W_enter, W_wake} \<Longrightarrow> \<forall>n. section_owner (wm_section s (wa_obj a)) \<noteq> Some (t, n)"
    and leave: "wa_pc a \<in> {W_leave, W_sleep} \<Longrightarrow> section_owner (wm_section s (wa_obj a)) = Some (t, 1)"
    using wm_obj_section [OF oi pcs] by (simp_all add: p_def)
  note ref = wm_fn_step_refines [OF step enter leave]
  have fo: "wa_fn a' = wa_fn a" "wa_obj a' = p" using ref by (simp_all add: p_def)
  have tr: "wm_trans nd t (wa_fn a) (wa_pc a) (wm_view section_owner p (wm_mem s) (wm_section s p))
      (wa_pc a') (wm_view section_owner p m' c')"
    using ref by (simp add: p_def)
  have objs: "wm_obj_inv section_owner ?s q" for q
  proof (cases "q = p")
    case True
    with wm_after_obj_inv [OF oi a _ fo(2) t tr] show ?thesis by (simp add: p_def)
  next
    case False
    have "wm_view section_owner q (wm_mem ?s) (wm_section ?s q) =
        wm_view section_owner q (wm_mem s) (wm_section s q)"
      using ref [THEN conjunct2, THEN conjunct2, THEN conjunct2, rule_format, of "wm_owner q"] False
      by (simp add: wm_view_def wm_after_def p_def)
    moreover have "wpc_on ?s u q = wpc_on s u q" for u
      using False fo a by (auto simp: wpc_on_def wm_after_def p_def)
    moreover have "wm_locked ?s u q = wm_locked s u q" for u
      using False by (simp add: wm_after_def wm_note_other p_def)
    ultimately show ?thesis by (rule wm_obj_inv_cong [OF oi])
  qed
  have "wa_fn a = Wm_lock" if "wa_pc a' = W_abort"
  proof (rule ccontr)
    assume no: "wa_fn a \<noteq> Wm_lock"
    with tr that ok have "wa_pc a = W_assert" "cells (wm_mem s) (wm_owner p) \<noteq> t"
      by (cases "wa_pc a"; auto simp: wm_trans_simps wm_view_def wm_act_ok_def split: if_splits)+
    with wm_obj_section [OF oi pcs] show False by simp
  qed
  with wm_trans_act_ok [OF tr fo(1) ok]
  have ok': "wm_act_ok (wm_locked ?s t p) a'"
    by (simp add: wm_after_def wm_note_self p_def)
  moreover have "u \<noteq> 0 \<and> wm_act_ok (wm_locked ?s u (wa_obj b)) b" if b: "wm_acts ?s u = Some b" for u b
  proof (cases "u = t")
    case True
    with b t ok' fo show ?thesis by (simp add: wm_after_def)
  next
    case False
    then have "wm_locked ?s u (wa_obj b) = wm_locked s u (wa_obj b)" "wm_acts s u = Some b"
      using b by (auto simp: wm_after_def wm_note_other)
    then show ?thesis using inv by (simp add: wm_inv_def)
  qed
  ultimately show ?thesis using objs by (simp add: wm_inv_def)
qed

lemma wm_exec_inv:
  assumes "wm_inv section_owner s" and "wm_exec B W nd mv s = Some s'"
  shows "wm_inv section_owner s'"
proof (cases mv)
  case (Wm_call t f p)
  with assms show ?thesis by (auto intro: wm_call_inv simp del: wm_exec.simps)
next
  case (Wm_step t ok)
  with assms have "wm_exec B W nd (Wm_step t ok) s = Some s'" by simp
  then show ?thesis
    by (cases rule: wm_exec_StepE) (auto intro: wm_return_inv wm_step_inv assms(1))
qed

theorem wm_reach_inv: "wm_reach B W section_owner nd s \<Longrightarrow> wm_inv section_owner s"
  by (induction rule: wm_reach.induct) (auto intro: wm_start_inv wm_exec_inv simp del: wm_exec.simps)

end

lemma windows_owner_id:
  assumes "wm_inv so s" and "wm_locked s t p"
  shows "cells (wm_mem s) (wm_owner p) = t"
proof -
  have "wm_obj_inv so s p" using assms(1) by (simp add: wm_inv_def)
  from wm_locked_section(3) [OF this assms(2)] show ?thesis
    by (auto simp: wm_inside_def split: option.splits wm_pc.splits)
qed

lemma wm_run_append:
  "wm_run B W nd (xs @ ys) s =
     (case wm_run B W nd xs s of None \<Rightarrow> None | Some s1 \<Rightarrow> wm_run B W nd ys s1)"
  by (induction xs arbitrary: s) (auto split: option.splits)

subsection \<open>The library's own instance\<close>

sublocale cs_laws \<subseteq> wm: windows_mutex c11_backend W section_owner
  by unfold_locales

context cs_laws
begin

lemmas wm_invariant = wm.wm_reach_inv
lemmas wm_preserved = wm.wm_exec_inv
lemmas wm_refines = wm.wm_fn_step_refines

end

interpretation reference_wm: windows_mutex c11_backend reference_cs "\<lambda>c. c"
  by unfold_locales

text \<open>Example: thread 1 locks the mutex, thread 2 tries it and then blocks.\<close>

definition wm_init_sys :: "(tid \<times> nat) option wm_sys" where
  "wm_init_sys = \<lparr>wm_mem = \<lparr>cells = (\<lambda>_. 0), log = []\<rparr>, wm_section = (\<lambda>p. None),
     wm_acts = (\<lambda>t. None), wm_locked = (\<lambda>t p. False)\<rparr>"

lemma wm_init_reach: "wm_reach B W (\<lambda>c. c) nd wm_init_sys"
  by (rule wm_reach_start) (simp add: wm_start_def wm_init_sys_def)

abbreviation example_wm_run ::
  "wm_move list \<Rightarrow> (tid \<times> nat) option wm_sys \<Rightarrow> (tid \<times> nat) option wm_sys option"
where
  "example_wm_run \<equiv> wm_run c11_backend reference_cs False"

definition wm_example :: "wm_move list" where
  "wm_example =
     [Wm_call 1 Wm_lock 0, Wm_step 1 True, Wm_step 1 True, Wm_step 1 True, Wm_step 1 True,
      Wm_call 2 Wm_lock 0, Wm_step 2 True]"

definition wm_example_view :: "(tid \<times> nat) option wm_sys \<Rightarrow> bool \<times> wm_act option \<times> (tid \<times> nat) option" where
  "wm_example_view s = (wm_locked s 1 0, wm_acts s 1, wm_section s 0)"

lemma wm_example_value:
  "map_option wm_example_view (example_wm_run wm_example wm_init_sys) = Some (True, None, Some (1, 1))"
  by code_simp

lemma wm_example_reach:
  obtains s where "wm_reach c11_backend reference_cs (\<lambda>c. c) False s"
    "example_wm_run wm_example wm_init_sys = Some s" "wm_locked s 1 0" "wm_acts s 1 = None"
proof -
  obtain s where s: "example_wm_run wm_example wm_init_sys = Some s"
    "wm_example_view s = (True, None, Some (1, 1))"
    using wm_example_value by blast
  then show ?thesis
    using that [OF wm_run_reach [OF wm_init_reach s(1)] s(1)]
    unfolding wm_example_view_def prod.inject by simp
qed

subsection \<open>Properties\<close>

text \<open>C4: mutual exclusion on Windows. A thread that has locked the mutex is in the critical
  section, entered exactly once, the owner id is its own unless it is on its way out, and no
  other thread has it locked.\<close>

theorem windows_mutex_excludes:
  assumes "cs_laws W so" and "wm_reach c11_backend W so nd s" and "wm_locked s t p"
  shows "so (wm_section s p) = Some (t, 1) \<and> cells (wm_mem s) (wm_owner p) = t \<and>
    (\<forall>u. u \<noteq> t \<longrightarrow> \<not> wm_locked s u p)"
proof -
  have oi: "wm_obj_inv so s p"
    using cs_laws.wm_invariant [OF assms(1,2)] by (simp add: wm_inv_def)
  note k = wm_locked_section [OF oi assms(3)]
  have "cells (wm_mem s) (wm_owner p) = t"
    using k(3) by (auto simp: wm_inside_def split: option.splits wm_pc.splits)
  with k show ?thesis by auto
qed

theorem windows_mutex_excludes_witness:
  "\<exists>s. example_wm_run wm_example wm_init_sys = Some s \<and> wm_section s 0 = Some (1, 1) \<and>
     \<not> wm_locked s 2 0"
proof -
  obtain s where s: "wm_reach c11_backend reference_cs (\<lambda>c. c) False s"
    "example_wm_run wm_example wm_init_sys = Some s" "wm_locked s 1 0"
    by (rule wm_example_reach)
  from windows_mutex_excludes [OF reference_cs.cs_laws_axioms s(1,3)] s(2) show ?thesis by auto
qed

text \<open>The owner id is never stale: whenever it is not 0, the thread with that id is in the
  critical section. So a thread that reads its own id there, in \<open>lock\<close> or \<open>trylock\<close>, holds
  the mutex, and one that doesn't hold it never does.\<close>

theorem windows_owner_never_stale:
  assumes "cs_laws W so" and "wm_reach c11_backend W so nd s"
    and "cells (wm_mem s) (wm_owner p) \<noteq> 0"
  shows "so (wm_section s p) = Some (cells (wm_mem s) (wm_owner p), 1)"
proof -
  have oi: "wm_obj_inv so s p"
    using cs_laws.wm_invariant [OF assms(1,2)] by (simp add: wm_inv_def)
  then show ?thesis
  proof (cases rule: wm_obj_inv_cases)
    case free
    then show ?thesis using assms(3) by simp
  next
    case (held u)
    then show ?thesis using wm_inside_id [OF held(3)] assms(3) by simp
  qed
qed

theorem windows_owner_never_stale_witness:
  "\<exists>s. example_wm_run wm_example wm_init_sys = Some s \<and>
     wm_section s 0 = Some (cells (wm_mem s) (wm_owner 0), 1)"
proof -
  obtain s where s: "wm_reach c11_backend reference_cs (\<lambda>c. c) False s"
    "example_wm_run wm_example wm_init_sys = Some s" "wm_locked s 1 0"
    by (rule wm_example_reach)
  have "cells (wm_mem s) (wm_owner 0) \<noteq> 0"
  proof -
    have "map_option (\<lambda>s. cells (wm_mem s) (wm_owner 0)) (example_wm_run wm_example wm_init_sys) = Some 1"
      by code_simp
    then show ?thesis using s(2) by simp
  qed
  from windows_owner_never_stale [OF reference_cs.cs_laws_axioms s(1) this] s(2) show ?thesis by blast
qed

definition wm_dead :: "bool \<Rightarrow> wm_pc" where
  "wm_dead nd = (if nd then W_spin else W_abort)"

lemma wm_dead_step:
  assumes "wm_acts s t = Some a" and "wa_fn a = Wm_lock" and "wa_pc a = wm_dead nd"
    and "wm_exec B W nd mv s = Some s'"
  shows "\<exists>a'. wm_acts s' t = Some a' \<and> wa_fn a' = Wm_lock \<and> wa_obj a' = wa_obj a \<and> wa_pc a' = wm_dead nd"
proof (cases mv)
  case (Wm_call u f q)
  with assms show ?thesis by (auto simp: wm_may_call_def split: if_splits)
next
  case (Wm_step u b)
  with assms show ?thesis
    by (cases "u = t")
      (auto simp: wm_dead_def wm_fn_defs split: option.splits if_splits prod.splits)
qed

lemma wm_dead_run:
  assumes "wm_acts s t = Some a" and "wa_fn a = Wm_lock" and "wa_pc a = wm_dead nd"
    and "wm_run B W nd mvs s = Some s'"
  shows "\<exists>a'. wm_acts s' t = Some a' \<and> wa_fn a' = Wm_lock \<and> wa_obj a' = wa_obj a \<and> wa_pc a' = wm_dead nd"
  using assms
proof (induction mvs arbitrary: s a)
  case Nil
  then show ?case by simp
next
  case (Cons mv mvs)
  then obtain s1 where s1: "wm_exec B W nd mv s = Some s1" "wm_run B W nd mvs s1 = Some s'"
    by (auto split: option.splits)
  obtain a1 where "wm_acts s1 t = Some a1" "wa_fn a1 = Wm_lock" "wa_obj a1 = wa_obj a"
    "wa_pc a1 = wm_dead nd"
    using wm_dead_step [OF Cons.prems(1-3) s1(1)] by blast
  with Cons.IH [of s1 a1] s1(2) show ?case by auto
qed

text \<open>C25: relocking is a self-deadlock, as on the other backends, although a critical section
  could be entered again: a thread that locks a mutex it holds never returns from the call,
  whatever happens afterwards. It stays in the endless loop, or in a debug build at the
  failed assertion, and keeps the mutex.\<close>

theorem windows_relock_never_returns:
  assumes "cs_laws W so" and "wm_reach c11_backend W so nd s" and "wm_locked s t p"
    and "wm_acts s t = None"
    and "wm_run c11_backend W nd ([Wm_call t Wm_lock p, Wm_step t b] @ mvs) s = Some s'"
  shows "\<exists>a. wm_acts s' t = Some a \<and> wa_fn a = Wm_lock \<and> wa_obj a = p \<and>
    wa_pc a = (if nd then W_spin else W_abort)"
proof -
  have id: "cells (wm_mem s) (wm_owner p) = t"
    using windows_owner_id [OF cs_laws.wm_invariant [OF assms(1,2)] assms(3)] .
  have t: "t \<noteq> 0"
    using wm_locked_section(2) [OF _ assms(3)] cs_laws.wm_invariant [OF assms(1,2)]
    by (auto simp: wm_inv_def)
  obtain s1 where s1: "wm_run c11_backend W nd [Wm_call t Wm_lock p, Wm_step t b] s = Some s1"
    "wm_run c11_backend W nd mvs s1 = Some s'"
    using assms(5) unfolding wm_run_append by (auto split: option.splits simp del: wm_run.simps)
  have "\<exists>a. wm_acts s1 t = Some a \<and> wa_fn a = Wm_lock \<and> wa_obj a = p \<and> wa_pc a = wm_dead nd"
    using s1(1) id t assms(4)
    by (auto simp: wm_may_call_def wm_entry_def wm_fn_defs case_prod_beta wm_dead_def)
  with wm_dead_run [OF _ _ _ s1(2)] show ?thesis by (auto simp: wm_dead_def)
qed

theorem windows_relock_never_returns_witness:
  "\<exists>s s' a. example_wm_run wm_example wm_init_sys = Some s \<and>
     example_wm_run ([Wm_call 1 Wm_lock 0, Wm_step 1 True] @ []) s = Some s' \<and>
     wm_acts s' 1 = Some a \<and> wa_pc a = W_abort"
proof -
  obtain s where s: "wm_reach c11_backend reference_cs (\<lambda>c. c) False s"
    "example_wm_run wm_example wm_init_sys = Some s" "wm_locked s 1 0" "wm_acts s 1 = None"
    by (rule wm_example_reach)
  have "map_option (\<lambda>s. example_wm_run ([Wm_call 1 Wm_lock 0, Wm_step 1 True] @ []) s = None)
      (example_wm_run wm_example wm_init_sys) = Some False"
    by code_simp
  then obtain s' where s': "example_wm_run ([Wm_call 1 Wm_lock 0, Wm_step 1 True] @ []) s = Some s'"
    using s(2) by (auto simp del: wm_run.simps)
  from windows_relock_never_returns [OF reference_cs.cs_laws_axioms s(1,3,4) s'] s(2) s' show ?thesis
    by auto
qed

text \<open>A recursive \<open>trylock\<close> is refused: on a mutex the thread holds it returns EBUSY after
  its first access, without entering the critical section, and changes nothing.\<close>

theorem windows_trylock_own_is_busy:
  assumes "cs_laws W so" and "wm_reach c11_backend W so nd s" and "wm_locked s t p"
    and "wm_acts s t = None"
  shows "\<exists>s' a. wm_run c11_backend W nd [Wm_call t Wm_trylock p, Wm_step t b] s = Some s' \<and>
    wm_acts s' t = Some a \<and> wa_pc a = W_ret \<and> wa_result a = EBUSY \<and>
    wm_section s' = wm_section s \<and> cells (wm_mem s') = cells (wm_mem s) \<and> wm_locked s' = wm_locked s"
proof -
  have id: "cells (wm_mem s) (wm_owner p) = t"
    using windows_owner_id [OF cs_laws.wm_invariant [OF assms(1,2)] assms(3)] .
  have t: "t \<noteq> 0"
    using wm_locked_section(2) [OF _ assms(3)] cs_laws.wm_invariant [OF assms(1,2)]
    by (auto simp: wm_inv_def)
  show ?thesis
    by (simp add: wm_may_call_def wm_entry_def wm_fn_defs case_prod_beta id t assms(4) wm_note_def)
qed

theorem windows_trylock_own_is_busy_witness:
  "\<exists>s s' a. example_wm_run wm_example wm_init_sys = Some s \<and>
     example_wm_run [Wm_call 1 Wm_trylock 0, Wm_step 1 True] s = Some s' \<and>
     wm_acts s' 1 = Some a \<and> wa_result a = EBUSY"
proof -
  obtain s where s: "wm_reach c11_backend reference_cs (\<lambda>c. c) False s"
    "example_wm_run wm_example wm_init_sys = Some s" "wm_locked s 1 0" "wm_acts s 1 = None"
    by (rule wm_example_reach)
  from windows_trylock_own_is_busy [OF reference_cs.cs_laws_axioms s(1,3,4)] s(2) show ?thesis
    by blast
qed

text \<open>C22: a wait gives the mutex up and takes it back: when \<open>mulle_thread_cond_wait\<close> returns,
  the thread is in the critical section again, the owner id is its own, and it alone has the
  mutex locked.\<close>

theorem windows_wait_returns_locked:
  assumes "cs_laws W so" and "wm_reach c11_backend W so nd s"
    and "wm_acts s t = Some a" and "wa_fn a = Wm_cond_wait" and "wa_pc a = W_ret"
  shows "wm_locked s t (wa_obj a) \<and> so (wm_section s (wa_obj a)) = Some (t, 1) \<and>
    cells (wm_mem s) (wm_owner (wa_obj a)) = t \<and> (\<forall>u. u \<noteq> t \<longrightarrow> \<not> wm_locked s u (wa_obj a))"
proof -
  have inv: "wm_inv so s" by (rule cs_laws.wm_invariant [OF assms(1,2)])
  then have "wm_act_ok (wm_locked s t (wa_obj a)) a" and oi: "wm_obj_inv so s (wa_obj a)"
    using assms(3) by (auto simp: wm_inv_def)
  then have k: "wm_locked s t (wa_obj a)" using assms(4,5) by (simp add: wm_act_ok_def)
  with wm_locked_section [OF oi k] windows_owner_id [OF inv k] show ?thesis by auto
qed

definition wm_wait_example :: "wm_move list" where
  "wm_wait_example = wm_example @ [Wm_call 1 Wm_cond_wait 0, Wm_step 1 True, Wm_step 1 True,
     Wm_step 2 True, Wm_step 2 True, Wm_step 2 True,
     Wm_call 2 Wm_unlock 0, Wm_step 2 True, Wm_step 2 True, Wm_step 2 True,
     Wm_step 1 True, Wm_step 1 True]"

theorem windows_wait_returns_locked_witness:
  "\<exists>s a. example_wm_run wm_wait_example wm_init_sys = Some s \<and> wm_acts s 1 = Some a \<and>
     wa_pc a = W_ret \<and> wm_section s 0 = Some (1, 1) \<and> wm_locked s 1 0"
proof -
  have "map_option (\<lambda>s. wm_acts s 1) (example_wm_run wm_wait_example wm_init_sys) =
      Some (Some \<lparr>wa_fn = Wm_cond_wait, wa_obj = 0, wa_pc = W_ret, wa_result = 0\<rparr>)"
    by code_simp
  then obtain s a where s: "example_wm_run wm_wait_example wm_init_sys = Some s"
    and a: "wm_acts s 1 = Some a" "wa_fn a = Wm_cond_wait" "wa_pc a = W_ret" "wa_obj a = 0"
    by (auto simp del: wm_run.simps)
  from windows_wait_returns_locked [OF reference_cs.cs_laws_axioms wm_run_reach [OF wm_init_reach s] a(1-3)]
    s a show ?thesis by auto
qed

text \<open>A thread stops on a Windows mutex only where it should: before the critical section,
  in \<open>lock\<close> or when it comes back from a wait, while another thread is in it; or, in a debug
  build, at the assertion that reports a recursive lock. The assertion of \<open>unlock\<close> never
  fails.\<close>

theorem windows_mutex_blocks_on_others:
  assumes "cs_laws W so" and "wm_reach c11_backend W so nd s" and "wm_acts s t = Some a"
    and "wm_exec c11_backend W nd (Wm_step t ok) s = None"
  shows "((wa_fn a, wa_pc a) \<in> {(Wm_lock, W_enter), (Wm_cond_wait, W_wake)} \<and>
      (\<exists>u. u \<noteq> t \<and> so (wm_section s (wa_obj a)) = Some (u, 1))) \<or>
    (wa_fn a = Wm_lock \<and> wa_pc a = W_abort)"
proof -
  have inv: "wm_inv so s" by (rule cs_laws.wm_invariant [OF assms(1,2)])
  then have oi: "wm_obj_inv so s (wa_obj a)" and ok: "wm_act_ok (wm_locked s t (wa_obj a)) a"
    using assms(3) by (auto simp: wm_inv_def)
  have pc: "wpc_on s t (wa_obj a) = Some (wa_pc a)" using assms(3) by (simp add: wpc_on_def)
  have nret: "wa_pc a \<noteq> W_ret" using assms(3,4) by auto
  then have none: "wm_fn_step c11_backend W nd t ok a (wm_mem s, wm_section s (wa_obj a)) = None"
    using assms(3,4) by (auto split: option.splits)
  let ?c = "wm_section s (wa_obj a)"
  have at: "(wa_fn a = Wm_lock \<and> wa_pc a = W_enter \<and> EnterCriticalSection W t ?c = None) \<or>
      (wa_fn a = Wm_cond_wait \<and> wa_pc a = W_wake \<and> sleep_acquire W t ?c = None) \<or>
      (wa_fn a = Wm_lock \<and> wa_pc a = W_abort)"
    using none ok nret
    by (cases "wa_fn a"; cases "wa_pc a")
      (auto simp: wm_fn_defs wm_act_ok_def case_prod_beta split: option.splits if_splits)
  have "so ?c \<noteq> None" if "EnterCriticalSection W t ?c = None \<or> sleep_acquire W t ?c = None"
    using that cs_laws.cs_enter_free [OF assms(1), of ?c t] cs_laws.cs_wake_free [OF assms(1), of ?c t]
    by fastforce
  then have "\<exists>u. u \<noteq> t \<and> so ?c = Some (u, 1)"
    if "EnterCriticalSection W t ?c = None \<or> sleep_acquire W t ?c = None" "wa_pc a \<in> {W_enter, W_wake}"
    using that wm_obj_section [OF oi pc] by (cases rule: wm_obj_inv_cases [OF oi]) auto
  with at show ?thesis by auto
qed

theorem windows_mutex_blocks_on_others_witness:
  "\<exists>s a. example_wm_run wm_example wm_init_sys = Some s \<and> wm_acts s 2 = Some a \<and>
     wm_exec c11_backend reference_cs False (Wm_step 2 True) s = None \<and>
     (\<exists>u. u \<noteq> 2 \<and> wm_section s 0 = Some (u, 1))"
proof -
  have "map_option (\<lambda>s. (wm_acts s 2, wm_exec c11_backend reference_cs False (Wm_step 2 True) s = None))
      (example_wm_run wm_example wm_init_sys) =
      Some (Some \<lparr>wa_fn = Wm_lock, wa_obj = 0, wa_pc = W_enter, wa_result = 0\<rparr>, True)"
    by code_simp
  then obtain s a where s: "example_wm_run wm_example wm_init_sys = Some s"
    and a: "wm_acts s 2 = Some a" "wa_pc a = W_enter" "wa_obj a = 0"
      "wm_exec c11_backend reference_cs False (Wm_step 2 True) s = None"
    by (auto simp del: wm_run.simps wm_exec.simps)
  from windows_mutex_blocks_on_others [OF reference_cs.cs_laws_axioms
      wm_run_reach [OF wm_init_reach s] a(1,4)] s a
  show ?thesis by auto
qed

end
