(* ===== verification/Win_Timedwait.thy ===== *)
theory Win_Timedwait
  imports Win_Mutex_Invariant
begin

text \<open>
  The timed wait of the Windows backend (\<open>mulle_thread_cond_timedwait\<close> in
  \<open>src/mulle-thread-windows.c\<close>): the conversion of an absolute \<open>timespec\<close> to the relative
  milliseconds that \<open>SleepConditionVariableCS\<close> takes, at the widths the code computes with
  (\<open>ULONGLONG\<close> and \<open>long long\<close> of 64 bits, \<open>DWORD\<close> and \<open>long\<close> of 32), and the function
  around it.
\<close>

text \<open>\<open>tv_sec\<close> is a 64-bit \<open>time_t\<close>, \<open>tv_nsec\<close> a 32-bit \<open>long\<close>.\<close>

record timespec =
  tv_sec :: "64 word"
  tv_nsec :: "32 word"

definition INFINITE :: dword where
  "INFINITE = 0xFFFFFFFF"

definition ERROR_TIMEOUT :: dword where
  "ERROR_TIMEOUT = 1460"

text \<open>Division of signed C integers truncates towards zero.\<close>

definition c_div :: "int \<Rightarrow> int \<Rightarrow> int" where
  "c_div a b = sgn a * sgn b * (\<bar>a\<bar> div \<bar>b\<bar>)"

lemma c_div_nonneg: "0 \<le> a \<Longrightarrow> 0 < b \<Longrightarrow> c_div a b = a div b"
  by (cases "a = 0") (auto simp: c_div_def)

text \<open>\<open>abs_100ns.QuadPart\<close>, \<open>diff_ns\<close> and \<open>milliseconds\<close> of the code.\<close>

definition abs_100ns :: "timespec \<Rightarrow> 64 word" where
  "abs_100ns abstime =
     (tv_sec abstime + 11644473600) * 10000000 + word_of_int (c_div (sint (tv_nsec abstime)) 100)"

definition diff_ns :: "64 word \<Rightarrow> 64 word \<Rightarrow> int" where
  "diff_ns till now = sint ((till - now) * 100)"

definition diff_milliseconds :: "int \<Rightarrow> dword" where
  "diff_milliseconds diff = (if diff \<le> 0 then 0 else word_of_int (c_div diff 1000000))"

definition timedwait_milliseconds :: "timespec option \<Rightarrow> 64 word \<Rightarrow> dword" where
  "timedwait_milliseconds abstime now =
     (case abstime of
        None \<Rightarrow> INFINITE
      | Some ts \<Rightarrow> diff_milliseconds (diff_ns (abs_100ns ts) now))"

definition timedwait_result :: "bool \<Rightarrow> dword \<Rightarrow> int" where
  "timedwait_result success error =
     (if \<not> success then if error = ERROR_TIMEOUT then ETIMEDOUT else - 1 else 0)"

text \<open>The whole function. \<open>sleep ms\<close> is the call of \<open>SleepConditionVariableCS\<close> together with
  \<open>GetLastError\<close>: what it returns, and what has become of memory and section meanwhile.\<close>

definition win_mulle_thread_cond_timedwait ::
  "backend \<Rightarrow> (dword \<Rightarrow> mem \<times> 'c \<Rightarrow> (bool \<times> dword) \<times> mem \<times> 'c) \<Rightarrow> tid \<Rightarrow> nat \<Rightarrow>
     timespec option \<Rightarrow> 64 word \<Rightarrow> mem \<times> 'c \<Rightarrow> int \<times> mem \<times> 'c"
where
  "win_mulle_thread_cond_timedwait B sleep self mutex abstime now s =
     (case s of (m, section) \<Rightarrow>
        (let milliseconds = timedwait_milliseconds abstime now;
             m1 = be_pointer_write B self (wm_owner mutex) 0 m
         in case sleep milliseconds (m1, section) of
              ((success, error), m2, section') \<Rightarrow>
                (timedwait_result success error,
                 be_pointer_write B self (wm_owner mutex) self m2, section')))"

subsection \<open>The conversion within its bounds\<close>

text \<open>The deadline in units of 100 ns since 1601 as a number, for a time from 1970 on.\<close>

definition deadline :: "timespec \<Rightarrow> nat" where
  "deadline ts = (unat (tv_sec ts) + 11644473600) * 10000000 + unat (tv_nsec ts) div 100"

definition valid_timespec :: "timespec \<Rightarrow> bool" where
  "valid_timespec ts \<longleftrightarrow> unat (tv_nsec ts) < 1000000000 \<and> deadline ts < 2 ^ 64"

lemma word_eq_of_nat: "unat w = n \<Longrightarrow> w = of_nat n"
  by auto

lemma sint_nsec:
  assumes "unat (w :: 32 word) < 2 ^ 31"
  shows "sint w = int (unat w)"
proof -
  have "int (unat w) < int (2 ^ 31)" using assms by (simp only: of_nat_less_iff)
  then have "uint w < 2 ^ 31" by simp
  moreover have "- (2 ^ 31) \<le> uint w" by (rule order_trans [of _ 0]) simp_all
  ultimately have "signed_take_bit 31 (uint w) = uint w"
    by (intro signed_take_bit_int_eq_self)
  then show ?thesis by (simp add: sint_uint)
qed

lemma sint_of_nat_64: "n < 2 ^ 63 \<Longrightarrow> sint (word_of_nat n :: 64 word) = int n"
proof -
  assume "n < 2 ^ 63"
  then have "int n < int (2 ^ 63)" by (simp only: of_nat_less_iff)
  then have "int n < 2 ^ 63" by simp
  then have "signed_take_bit 63 (int n) = int n"
    by (intro signed_take_bit_int_eq_self) auto
  then show ?thesis by (simp add: signed_of_nat)
qed

lemma sint_minus_of_nat_64: "n < 2 ^ 63 \<Longrightarrow> sint (- word_of_nat n :: 64 word) = - int n"
proof -
  assume "n < 2 ^ 63"
  then have "int n < int (2 ^ 63)" by (simp only: of_nat_less_iff)
  then have "int n < 2 ^ 63" by simp
  then have "signed_take_bit 63 (- int n) = - int n"
    by (intro signed_take_bit_int_eq_self) auto
  moreover have "(- word_of_nat n :: 64 word) = word_of_int (- int n)" by simp
  ultimately show ?thesis by (simp only: sint_sbintrunc') (simp add: signed_of_int)
qed

lemma abs_100ns_deadline:
  assumes "valid_timespec ts"
  shows "unat (abs_100ns ts) = deadline ts"
proof -
  define n where "n = unat (tv_nsec ts)"
  have ns: "n < 2 ^ 31" using assms by (simp add: valid_timespec_def n_def)
  have "sint (tv_nsec ts) = int n" using sint_nsec [of "tv_nsec ts"] ns by (simp only: n_def)
  then have "c_div (sint (tv_nsec ts)) 100 = int (n div 100)"
    by (simp add: c_div_nonneg zdiv_int)
  moreover have "word_of_nat (unat (tv_sec ts)) = tv_sec ts" by simp
  ultimately have "abs_100ns ts = (word_of_nat (unat (tv_sec ts)) + 11644473600) * 10000000 +
      word_of_nat (n div 100)"
    unfolding abs_100ns_def by (simp only: of_int_of_nat_eq)
  also have "\<dots> = word_of_nat ((unat (tv_sec ts) + 11644473600) * 10000000 + n div 100)"
    by (simp only: of_nat_add of_nat_mult of_nat_numeral)
  finally have "abs_100ns ts = word_of_nat (deadline ts)" by (simp only: deadline_def n_def)
  moreover have "deadline ts < 2 ^ 64" using assms by (simp only: valid_timespec_def)
  ultimately show ?thesis
    by (simp only: unat_of_nat) (simp add: take_bit_nat_eq_self)
qed

lemma diff_ns_later:
  assumes "unat till = unat now + n" and "n * 100 < 2 ^ 63"
  shows "diff_ns till now = int (n * 100)"
proof -
  have "till = now + word_of_nat n"
    using arg_cong [OF assms(1), of "word_of_nat :: nat \<Rightarrow> 64 word"] by simp
  then have "(till - now) * 100 = word_of_nat (n * 100)" by simp
  with sint_of_nat_64 [OF assms(2)] show ?thesis by (simp only: diff_ns_def)
qed

lemma diff_ns_earlier:
  assumes "unat now = unat till + n" and "n * 100 < 2 ^ 63"
  shows "diff_ns till now = - int (n * 100)"
proof -
  have "now = till + word_of_nat n"
    using arg_cong [OF assms(1), of "word_of_nat :: nat \<Rightarrow> 64 word"] by simp
  then have "(till - now) * 100 = - word_of_nat (n * 100)" by simp
  with sint_minus_of_nat_64 [OF assms(2)] show ?thesis by (simp only: diff_ns_def)
qed

text \<open>Within 292 years, the milliseconds are the difference in whole milliseconds, at the
  width of a \<open>DWORD\<close>.\<close>

lemma milliseconds_of_nat:
  assumes "valid_timespec ts" and "deadline ts = unat now + n" and "n * 100 < 2 ^ 63"
  shows "timedwait_milliseconds (Some ts) now = word_of_nat (n div 10000)"
proof -
  have "diff_ns (abs_100ns ts) now = int (n * 100)"
    by (rule diff_ns_later) (simp_all only: abs_100ns_deadline [OF assms(1)] assms(2,3))
  moreover have "int (n * 100) div 1000000 = int (n div 10000)"
    by (simp add: zdiv_int)
  ultimately show ?thesis
    by (simp add: timedwait_milliseconds_def diff_milliseconds_def c_div_nonneg del: of_nat_mult)
qed

lemma milliseconds_past:
  assumes "valid_timespec ts" and "unat now = deadline ts + n" and "n * 100 < 2 ^ 63"
  shows "timedwait_milliseconds (Some ts) now = 0"
proof -
  have "diff_ns (abs_100ns ts) now = - int (n * 100)"
    by (rule diff_ns_earlier) (simp_all only: abs_100ns_deadline [OF assms(1)] assms(2,3))
  then show ?thesis by (simp add: timedwait_milliseconds_def diff_milliseconds_def)
qed

subsection \<open>Properties\<close>

text \<open>C19: for a deadline that is ahead by less than 292 years and at most 49.7 days, the timed
  wait sleeps the whole number of milliseconds up to it: never past the deadline, and short of
  it by less than one millisecond. (So it may time out early by up to a millisecond.)\<close>

theorem timedwait_within_bounds:
  assumes "valid_timespec ts" and "deadline ts = unat now + n" and "n div 10000 < 2 ^ 32 - 1"
  shows "unat (timedwait_milliseconds (Some ts) now) * 10000 \<le> n \<and>
    n < (unat (timedwait_milliseconds (Some ts) now) + 1) * 10000 \<and>
    timedwait_milliseconds (Some ts) now \<noteq> INFINITE"
proof -
  have n: "n < 10000 * (2 ^ 32 - 1)"
    using assms(3) by (simp add: less_mult_imp_div_less div_less_iff_less_mult mult.commute)
  then have "n * 100 < 2 ^ 63" by simp
  from milliseconds_of_nat [OF assms(1,2) this]
  have ms: "timedwait_milliseconds (Some ts) now = word_of_nat (n div 10000)" .
  have "n div 10000 < 2 ^ 32" using assms(3) by simp
  then have u: "unat (timedwait_milliseconds (Some ts) now) = n div 10000"
    unfolding ms by (simp only: unat_of_nat) (simp add: take_bit_nat_eq_self)
  have "unat INFINITE = 2 ^ 32 - 1" by (simp add: INFINITE_def)
  with u assms(3) have "timedwait_milliseconds (Some ts) now \<noteq> INFINITE" by auto
  moreover have "n div 10000 * 10000 \<le> n" "n < (n div 10000 + 1) * 10000"
    using div_mult_mod_eq [of n 10000] mod_less_divisor [of 10000 n] by auto
  ultimately show ?thesis unfolding u by blast
qed

text \<open>An example: half a second after the epoch of Unix, seen at the epoch.\<close>

definition example_timespec :: timespec where
  "example_timespec = \<lparr>tv_sec = 0, tv_nsec = 500000000\<rparr>"

lemma example_timespec_valid:
  "valid_timespec example_timespec" "deadline example_timespec = 116444736005000000"
  by (simp_all add: valid_timespec_def deadline_def example_timespec_def)

theorem timedwait_within_bounds_witness:
  "unat (timedwait_milliseconds (Some example_timespec) 116444736000000000) * 10000 \<le> 5000000"
proof -
  have "deadline example_timespec = unat (116444736000000000 :: 64 word) + 5000000"
    by (simp add: example_timespec_valid)
  from timedwait_within_bounds [OF example_timespec_valid(1) this] show ?thesis by simp
qed

text \<open>A deadline that has passed, by less than 292 years, gives a sleep of 0 milliseconds,
  and no deadline at all the infinite sleep.\<close>

theorem timedwait_past_deadline:
  assumes "valid_timespec ts" and "unat now = deadline ts + n" and "n * 100 < 2 ^ 63"
  shows "timedwait_milliseconds (Some ts) now = 0 \<and> timedwait_milliseconds None now = INFINITE"
  using milliseconds_past [OF assms] by (simp add: timedwait_milliseconds_def)

theorem timedwait_past_deadline_witness:
  "timedwait_milliseconds (Some example_timespec) 116444736005000001 = 0"
proof -
  have "unat (116444736005000001 :: 64 word) = deadline example_timespec + 1"
    by (simp add: example_timespec_valid)
  from timedwait_past_deadline [OF example_timespec_valid(1) this] show ?thesis by simp
qed

text \<open>Beyond 49.7 days the milliseconds don't fit a \<open>DWORD\<close> and the conversion keeps their
  low 32 bits: a deadline that is a whole multiple of 2^32 ms too far ahead (within 292 years)
  sleeps as long as the near one, so it times out days early; and one that is 2^32 - 1 ms
  ahead sleeps without limit, because that is the value of \<open>INFINITE\<close>.\<close>

theorem timedwait_truncates:
  assumes "valid_timespec ts" and "deadline ts = unat now + n" and "n * 100 < 2 ^ 63"
  shows "unat (timedwait_milliseconds (Some ts) now) = n div 10000 mod 2 ^ 32 \<and>
    (n div 10000 = 2 ^ 32 - 1 \<longrightarrow> timedwait_milliseconds (Some ts) now = INFINITE)"
proof -
  note ms = milliseconds_of_nat [OF assms]
  have "unat (timedwait_milliseconds (Some ts) now) = n div 10000 mod 2 ^ 32"
    unfolding ms by (simp only: unat_of_nat) (simp add: take_bit_nat_def)
  moreover have "word_of_nat (2 ^ 32 - 1) = INFINITE" by (simp add: INFINITE_def)
  ultimately show ?thesis using ms by auto
qed

definition example_far_timespec :: timespec where
  "example_far_timespec = \<lparr>tv_sec = 4294967, tv_nsec = 296000000\<rparr>"

theorem timedwait_truncates_witness:
  "unat (timedwait_milliseconds (Some example_far_timespec) 116444736000000000) = 0"
proof -
  have v: "valid_timespec example_far_timespec"
    "deadline example_far_timespec = unat (116444736000000000 :: 64 word) + 42949672960000"
    by (simp_all add: valid_timespec_def deadline_def example_far_timespec_def)
  from timedwait_truncates [OF v] show ?thesis by simp
qed

text \<open>The timed wait hands through the outcome of the sleep as 0, ETIMEDOUT or -1, and has
  written the owner id of the calling thread again when it returns; the sleep starts with the
  owner id cleared.\<close>

theorem timedwait_outcome:
  assumes "sleep (timedwait_milliseconds abstime now)
      (be_pointer_write c11_backend t (wm_owner p) 0 m, c) = ((success, error), m2, c2)"
  shows "\<exists>m'. win_mulle_thread_cond_timedwait c11_backend sleep t p abstime now (m, c) =
      ((if success then 0 else if error = ERROR_TIMEOUT then ETIMEDOUT else - 1), m', c2) \<and>
    cells (be_pointer_write c11_backend t (wm_owner p) 0 m) (wm_owner p) = 0 \<and>
    cells m' = (cells m2)(wm_owner p := t)"
  using assms by (simp add: win_mulle_thread_cond_timedwait_def timedwait_result_def Let_def)

theorem timedwait_outcome_witness:
  "\<exists>m'. win_mulle_thread_cond_timedwait c11_backend (\<lambda>ms (m, c). ((False, ERROR_TIMEOUT), m, c))
      1 0 None 0 (\<lparr>cells = (\<lambda>_. 1), log = []\<rparr>, ()) = (ETIMEDOUT, m', ()) \<and> cells m' (0, 0) = 1"
proof -
  let ?m = "\<lparr>cells = (\<lambda>_. 1), log = []\<rparr> :: mem"
  let ?sleep = "\<lambda>ms :: dword. \<lambda>(m :: mem, c :: unit). ((False, ERROR_TIMEOUT), m, c)"
  have "?sleep (timedwait_milliseconds None 0) (be_pointer_write c11_backend 1 (wm_owner 0) 0 ?m, ()) =
      ((False, ERROR_TIMEOUT), be_pointer_write c11_backend 1 (wm_owner 0) 0 ?m, ())"
    by simp
  from timedwait_outcome [where sleep = ?sleep and abstime = None and now = 0, OF this] show ?thesis by (auto simp: wm_owner_def)
qed

end
