(* ===== verification/Cond_Tss.thy ===== *)
theory Cond_Tss
  imports Thread_Api Win_Timedwait
begin

text \<open>
  Condition variables and thread specific storage of the pthreads and the C11 backend
  (\<open>src/mulle-thread-pthreads.h\<close>, \<open>src/mulle-thread-c11.h\<close>), and those of the functions of the
  Windows backend that are not in \<open>src/mulle-thread-windows.c\<close>. The system's functions are
  parameters with what is documented of them as locales. A call may change anything that the
  system's state \<open>'w\<close> holds, so that what other threads do while a thread waits is part of
  it; \<open>None\<close> stands for a wait that isn't over.
\<close>

subsection \<open>The contract of condition variables\<close>

text \<open>Condition variables and mutexes are named by numbers; \<open>holder w m\<close> is the thread that
  holds mutex \<open>m\<close>.\<close>

record 'w cond_ops =
  co_init :: "nat \<Rightarrow> 'w \<Rightarrow> int \<times> 'w"
  co_done :: "nat \<Rightarrow> 'w \<Rightarrow> int \<times> 'w"
  co_wait :: "tid \<Rightarrow> nat \<Rightarrow> nat \<Rightarrow> 'w \<Rightarrow> (int \<times> 'w) option"
  co_signal :: "nat \<Rightarrow> 'w \<Rightarrow> int \<times> 'w"
  co_broadcast :: "nat \<Rightarrow> 'w \<Rightarrow> int \<times> 'w"
  co_timedwait :: "tid \<Rightarrow> nat \<Rightarrow> nat \<Rightarrow> timespec \<Rightarrow> 'w \<Rightarrow> (int \<times> 'w) option"

locale cond_contract =
  fixes C :: "'w cond_ops" and holder :: "'w \<Rightarrow> nat \<Rightarrow> tid option"
  assumes wait_locked: "holder w m = Some t \<Longrightarrow> co_wait C t c m w = Some (r, w') \<Longrightarrow>
      r \<in> {0, - 1} \<and> holder w' m = Some t"
    and timedwait_locked: "holder w m = Some t \<Longrightarrow> co_timedwait C t c m ts w = Some (r, w') \<Longrightarrow>
      r \<in> {0, ETIMEDOUT, - 1} \<and> holder w' m = Some t"
    and wake_code: "fst (co_signal C c w) \<in> {0, - 1}" "fst (co_broadcast C c w) \<in> {0, - 1}"
    and wake_keeps: "holder (snd (co_signal C c w)) = holder w"
      "holder (snd (co_broadcast C c w)) = holder w"

text \<open>A waiter's loop: wait until the predicate holds, at most \<open>n\<close> times.\<close>

fun wait_until ::
  "'w cond_ops \<Rightarrow> tid \<Rightarrow> nat \<Rightarrow> nat \<Rightarrow> ('w \<Rightarrow> bool) \<Rightarrow> nat \<Rightarrow> 'w \<Rightarrow> 'w option"
where
  "wait_until C t c m p 0 w = None"
| "wait_until C t c m p (Suc n) w =
     (if p w then Some w
      else (case co_wait C t c m w of None \<Rightarrow> None | Some (r, w') \<Rightarrow> wait_until C t c m p n w'))"

context cond_contract
begin

lemma wait_until_locked:
  assumes "holder w m = Some t" and "wait_until C t c m p n w = Some w'"
  shows "p w' \<and> holder w' m = Some t"
  using assms
proof (induction n arbitrary: w)
  case (Suc n)
  show ?case
  proof (cases "p w")
    case False
    with Suc.prems obtain r w1 where "co_wait C t c m w = Some (r, w1)"
      "wait_until C t c m p n w1 = Some w'" by (auto split: option.splits)
    with Suc.IH [of w1] wait_locked [OF Suc.prems(1)] show ?thesis by blast
  qed (use Suc.prems in simp)
qed simp

end

subsection \<open>pthreads\<close>

record 'w pthread_cond_api =
  pthread_cond_init :: "nat \<Rightarrow> 'w \<Rightarrow> int \<times> 'w"
  pthread_cond_destroy :: "nat \<Rightarrow> 'w \<Rightarrow> int \<times> 'w"
  pthread_cond_wait :: "tid \<Rightarrow> nat \<Rightarrow> nat \<Rightarrow> 'w \<Rightarrow> (int \<times> 'w) option"
  pthread_cond_signal :: "nat \<Rightarrow> 'w \<Rightarrow> int \<times> 'w"
  pthread_cond_broadcast :: "nat \<Rightarrow> 'w \<Rightarrow> int \<times> 'w"
  pthread_cond_timedwait :: "tid \<Rightarrow> nat \<Rightarrow> nat \<Rightarrow> timespec \<Rightarrow> 'w \<Rightarrow> (int \<times> 'w) option"

definition pthreads_mulle_thread_cond_init :: "'w pthread_cond_api \<Rightarrow> nat \<Rightarrow> 'w \<Rightarrow> int \<times> 'w" where
  "pthreads_mulle_thread_cond_init P cond w =
     (case pthread_cond_init P cond w of (rval, w') \<Rightarrow> (zero_or_minus_one (rval = 0), w'))"

definition pthreads_mulle_thread_cond_done :: "'w pthread_cond_api \<Rightarrow> nat \<Rightarrow> 'w \<Rightarrow> int \<times> 'w" where
  "pthreads_mulle_thread_cond_done P cond w =
     (case pthread_cond_destroy P cond w of (rval, w') \<Rightarrow> (zero_or_minus_one (rval = 0), w'))"

definition pthreads_mulle_thread_cond_wait ::
  "'w pthread_cond_api \<Rightarrow> tid \<Rightarrow> nat \<Rightarrow> nat \<Rightarrow> 'w \<Rightarrow> (int \<times> 'w) option"
where
  "pthreads_mulle_thread_cond_wait P t cond mutex w =
     (case pthread_cond_wait P t cond mutex w of
        None \<Rightarrow> None
      | Some (rval, w') \<Rightarrow> Some (zero_or_minus_one (rval = 0), w'))"

definition pthreads_mulle_thread_cond_signal :: "'w pthread_cond_api \<Rightarrow> nat \<Rightarrow> 'w \<Rightarrow> int \<times> 'w" where
  "pthreads_mulle_thread_cond_signal P cond w =
     (case pthread_cond_signal P cond w of (rval, w') \<Rightarrow> (zero_or_minus_one (rval = 0), w'))"

definition pthreads_mulle_thread_cond_broadcast :: "'w pthread_cond_api \<Rightarrow> nat \<Rightarrow> 'w \<Rightarrow> int \<times> 'w" where
  "pthreads_mulle_thread_cond_broadcast P cond w =
     (case pthread_cond_broadcast P cond w of (rval, w') \<Rightarrow> (zero_or_minus_one (rval = 0), w'))"

definition pthreads_mulle_thread_cond_timedwait ::
  "'w pthread_cond_api \<Rightarrow> tid \<Rightarrow> nat \<Rightarrow> nat \<Rightarrow> timespec \<Rightarrow> 'w \<Rightarrow> (int \<times> 'w) option"
where
  "pthreads_mulle_thread_cond_timedwait P t cond mutex abstime w =
     (case pthread_cond_timedwait P t cond mutex abstime w of
        None \<Rightarrow> None
      | Some (rval, w') \<Rightarrow>
          if rval = 0 \<or> rval = ETIMEDOUT then Some (rval, w') else Some (- 1, w'))"

definition pthreads_cond :: "'w pthread_cond_api \<Rightarrow> 'w cond_ops" where
  "pthreads_cond P = \<lparr>
     co_init = pthreads_mulle_thread_cond_init P,
     co_done = pthreads_mulle_thread_cond_done P,
     co_wait = pthreads_mulle_thread_cond_wait P,
     co_signal = pthreads_mulle_thread_cond_signal P,
     co_broadcast = pthreads_mulle_thread_cond_broadcast P,
     co_timedwait = pthreads_mulle_thread_cond_timedwait P\<rparr>"

lemmas pthreads_cond_defs =
  pthreads_cond_def pthreads_mulle_thread_cond_init_def pthreads_mulle_thread_cond_done_def
  pthreads_mulle_thread_cond_wait_def pthreads_mulle_thread_cond_signal_def
  pthreads_mulle_thread_cond_broadcast_def pthreads_mulle_thread_cond_timedwait_def

text \<open>POSIX: a wait returns with the mutex locked by the thread again, also on an error.\<close>

locale pthread_cond_laws =
  fixes P :: "'w pthread_cond_api" and holder :: "'w \<Rightarrow> nat \<Rightarrow> tid option"
  assumes posix_wait: "holder w m = Some t \<Longrightarrow> pthread_cond_wait P t c m w = Some (r, w') \<Longrightarrow>
      holder w' m = Some t"
    and posix_timedwait: "holder w m = Some t \<Longrightarrow>
      pthread_cond_timedwait P t c m ts w = Some (r, w') \<Longrightarrow> holder w' m = Some t"
    and posix_wake: "holder (snd (pthread_cond_signal P c w)) = holder w"
      "holder (snd (pthread_cond_broadcast P c w)) = holder w"

sublocale pthread_cond_laws \<subseteq> pthreads: cond_contract "pthreads_cond P" holder
  by unfold_locales
    (auto simp: pthreads_cond_defs zero_or_minus_one_def case_prod_beta posix_wake
      split: option.splits if_splits intro: posix_wait posix_timedwait)

subsection \<open>C11 threads\<close>

record 'w cnd_api =
  cnd_init :: "nat \<Rightarrow> 'w \<Rightarrow> thrd_status \<times> 'w"
  cnd_destroy :: "nat \<Rightarrow> 'w \<Rightarrow> 'w"
  cnd_wait :: "tid \<Rightarrow> nat \<Rightarrow> nat \<Rightarrow> 'w \<Rightarrow> (thrd_status \<times> 'w) option"
  cnd_signal :: "nat \<Rightarrow> 'w \<Rightarrow> thrd_status \<times> 'w"
  cnd_broadcast :: "nat \<Rightarrow> 'w \<Rightarrow> thrd_status \<times> 'w"
  cnd_timedwait :: "tid \<Rightarrow> nat \<Rightarrow> nat \<Rightarrow> timespec \<Rightarrow> 'w \<Rightarrow> (thrd_status \<times> 'w) option"

definition c11_mulle_thread_cond_init :: "'w cnd_api \<Rightarrow> nat \<Rightarrow> 'w \<Rightarrow> int \<times> 'w" where
  "c11_mulle_thread_cond_init T cond w =
     (case cnd_init T cond w of (st, w') \<Rightarrow> (zero_or_minus_one (st = thrd_success), w'))"

definition c11_mulle_thread_cond_done :: "'w cnd_api \<Rightarrow> nat \<Rightarrow> 'w \<Rightarrow> int \<times> 'w" where
  "c11_mulle_thread_cond_done T cond w = (0, cnd_destroy T cond w)"

definition c11_mulle_thread_cond_wait ::
  "'w cnd_api \<Rightarrow> tid \<Rightarrow> nat \<Rightarrow> nat \<Rightarrow> 'w \<Rightarrow> (int \<times> 'w) option"
where
  "c11_mulle_thread_cond_wait T t cond mutex w =
     (case cnd_wait T t cond mutex w of
        None \<Rightarrow> None
      | Some (st, w') \<Rightarrow> Some (zero_or_minus_one (st = thrd_success), w'))"

definition c11_mulle_thread_cond_signal :: "'w cnd_api \<Rightarrow> nat \<Rightarrow> 'w \<Rightarrow> int \<times> 'w" where
  "c11_mulle_thread_cond_signal T cond w =
     (case cnd_signal T cond w of (st, w') \<Rightarrow> (zero_or_minus_one (st = thrd_success), w'))"

definition c11_mulle_thread_cond_broadcast :: "'w cnd_api \<Rightarrow> nat \<Rightarrow> 'w \<Rightarrow> int \<times> 'w" where
  "c11_mulle_thread_cond_broadcast T cond w =
     (case cnd_broadcast T cond w of (st, w') \<Rightarrow> (zero_or_minus_one (st = thrd_success), w'))"

definition c11_mulle_thread_cond_timedwait ::
  "'w cnd_api \<Rightarrow> tid \<Rightarrow> nat \<Rightarrow> nat \<Rightarrow> timespec \<Rightarrow> 'w \<Rightarrow> (int \<times> 'w) option"
where
  "c11_mulle_thread_cond_timedwait T t cond mutex abstime w =
     (case cnd_timedwait T t cond mutex abstime w of
        None \<Rightarrow> None
      | Some (st, w') \<Rightarrow>
          if st = thrd_timedout then Some (ETIMEDOUT, w')
          else Some (zero_or_minus_one (st = thrd_success), w'))"

definition c11_cond :: "'w cnd_api \<Rightarrow> 'w cond_ops" where
  "c11_cond T = \<lparr>
     co_init = c11_mulle_thread_cond_init T,
     co_done = c11_mulle_thread_cond_done T,
     co_wait = c11_mulle_thread_cond_wait T,
     co_signal = c11_mulle_thread_cond_signal T,
     co_broadcast = c11_mulle_thread_cond_broadcast T,
     co_timedwait = c11_mulle_thread_cond_timedwait T\<rparr>"

lemmas c11_cond_defs =
  c11_cond_def c11_mulle_thread_cond_init_def c11_mulle_thread_cond_done_def
  c11_mulle_thread_cond_wait_def c11_mulle_thread_cond_signal_def
  c11_mulle_thread_cond_broadcast_def c11_mulle_thread_cond_timedwait_def

locale cnd_laws =
  fixes T :: "'w cnd_api" and holder :: "'w \<Rightarrow> nat \<Rightarrow> tid option"
  assumes c_wait: "holder w m = Some t \<Longrightarrow> cnd_wait T t c m w = Some (r, w') \<Longrightarrow>
      holder w' m = Some t"
    and c_timedwait: "holder w m = Some t \<Longrightarrow> cnd_timedwait T t c m ts w = Some (r, w') \<Longrightarrow>
      holder w' m = Some t"
    and c_wake: "holder (snd (cnd_signal T c w)) = holder w"
      "holder (snd (cnd_broadcast T c w)) = holder w"

sublocale cnd_laws \<subseteq> c11_threads: cond_contract "c11_cond T" holder
  by unfold_locales
    (auto simp: c11_cond_defs zero_or_minus_one_def case_prod_beta c_wake
      split: option.splits if_splits intro: c_wait c_timedwait)

subsection \<open>Windows\<close>

text \<open>\<open>InitializeConditionVariable\<close>, \<open>WakeConditionVariable\<close> and \<open>WakeAllConditionVariable\<close> return
  nothing.\<close>

record 'w windows_cond_api =
  InitializeConditionVariable :: "nat \<Rightarrow> 'w \<Rightarrow> 'w"
  WakeConditionVariable :: "nat \<Rightarrow> 'w \<Rightarrow> 'w"
  WakeAllConditionVariable :: "nat \<Rightarrow> 'w \<Rightarrow> 'w"

definition win_mulle_thread_cond_init :: "'w windows_cond_api \<Rightarrow> nat \<Rightarrow> 'w \<Rightarrow> int \<times> 'w" where
  "win_mulle_thread_cond_init W cond w = (0, InitializeConditionVariable W cond w)"

definition win_mulle_thread_cond_done :: "nat \<Rightarrow> 'w \<Rightarrow> int \<times> 'w" where
  "win_mulle_thread_cond_done cond w = (0, w)"

definition win_mulle_thread_cond_signal :: "'w windows_cond_api \<Rightarrow> nat \<Rightarrow> 'w \<Rightarrow> int \<times> 'w" where
  "win_mulle_thread_cond_signal W cond w = (0, WakeConditionVariable W cond w)"

definition win_mulle_thread_cond_broadcast :: "'w windows_cond_api \<Rightarrow> nat \<Rightarrow> 'w \<Rightarrow> int \<times> 'w" where
  "win_mulle_thread_cond_broadcast W cond w = (0, WakeAllConditionVariable W cond w)"

subsection \<open>The contract of thread specific storage\<close>

text \<open>The values of one thread. \<open>valid s k\<close> says that \<open>k\<close> is a key. The second part of the contract
  is about keys coming and going.\<close>

locale tss_values =
  fixes get :: "'k \<Rightarrow> 's \<Rightarrow> ptr" and set_value :: "'k \<Rightarrow> ptr \<Rightarrow> 's \<Rightarrow> int \<times> 's"
    and valid :: "'s \<Rightarrow> 'k \<Rightarrow> bool"
  assumes set_ok: "valid s k \<Longrightarrow> set_value k v s = (0, s') \<Longrightarrow>
      valid s' = valid s \<and> get k s' = v \<and> (\<forall>k'. valid s k' \<longrightarrow> k' \<noteq> k \<longrightarrow> get k' s' = get k' s)"
    and set_fails: "set_value k v s = (r, s') \<Longrightarrow> r \<noteq> 0 \<Longrightarrow>
      r = - 1 \<and> valid s' = valid s \<and> (\<forall>k'. valid s k' \<longrightarrow> get k' s' = get k' s)"

text \<open>A sequence of sets: the writes that succeeded, and the state after.\<close>

fun set_values ::
  "('k \<Rightarrow> ptr \<Rightarrow> 's \<Rightarrow> int \<times> 's) \<Rightarrow> ('k \<times> ptr) list \<Rightarrow> 's \<Rightarrow> ('k \<times> ptr) list \<times> 's"
where
  "set_values set_value [] s = ([], s)"
| "set_values set_value ((k, v) # kvs) s =
     (case set_value k v s of (r, s1) \<Rightarrow>
       (case set_values set_value kvs s1 of (done, s2) \<Rightarrow>
          (if r = 0 then (k, v) # done else done, s2)))"

context tss_values
begin

lemma set_values_read:
  assumes "\<forall>(k, v) \<in> set kvs. valid s k" and "set_values set_value kvs s = (done, s')" and "valid s k"
  shows "get k s' = (case map_of (rev done) k of None \<Rightarrow> get k s | Some v \<Rightarrow> v)"
  using assms
proof (induction kvs arbitrary: s "done")
  case (Cons kv kvs)
  obtain k1 v1 where kv: "kv = (k1, v1)" by (cases kv)
  obtain r s1 where s1: "set_value k1 v1 s = (r, s1)" by (cases "set_value k1 v1 s")
  obtain d where d: "set_values set_value kvs s1 = (d, s')"
    and dn: "done = (if r = 0 then (k1, v1) # d else d)"
    using Cons.prems(2) kv s1 by (auto split: prod.splits)
  have k1: "valid s k1" using Cons.prems(1) kv by simp
  have step: "valid s1 = valid s \<and> get k s1 = (if r = 0 \<and> k = k1 then v1 else get k s)"
    using set_ok [OF k1, of v1 s1] set_fails [OF s1] s1 Cons.prems(3) by (cases "r = 0") auto
  have "get k s' = (case map_of (rev d) k of None \<Rightarrow> get k s1 | Some v \<Rightarrow> v)"
    using Cons.IH [OF _ d] Cons.prems(1,3) step by auto
  then show ?case
    using step dn by (auto simp: map_add_def split: option.splits if_splits)
qed simp

end

locale tss_store = tss_values get set_value valid
  for get :: "'k \<Rightarrow> 's \<Rightarrow> ptr" and set_value and valid +
  fixes create :: "ptr \<Rightarrow> 's \<Rightarrow> int \<times> 'k \<times> 's" and free :: "'k \<Rightarrow> 's \<Rightarrow> 's"
  assumes create_ok: "create f s = (0, k, s') \<Longrightarrow> \<not> valid s k \<and> get k s' = NULL \<and>
      valid s' = (valid s)(k := True) \<and> (\<forall>k'. valid s k' \<longrightarrow> get k' s' = get k' s)"
    and free_ok: "valid s k \<Longrightarrow> valid (free k s) = (valid s)(k := False) \<and>
      (\<forall>k'. valid s k' \<longrightarrow> k' \<noteq> k \<longrightarrow> get k' (free k s) = get k' s)"
begin

text \<open>A key of its own: whatever is set through it and then freed, the other keys keep their
  values.\<close>

lemma own_key:
  assumes c: "create f s = (0, k, s1)" and st: "set_value k v s1 = (0, s2)" and k': "valid s k'"
  shows "get k s1 = NULL \<and> get k s2 = v \<and> get k' s2 = get k' s \<and> get k' (free k s2) = get k' s \<and>
    valid (free k s2) = valid s"
proof -
  note c1 = create_ok [OF c]
  have s1: "valid s1 k" "valid s1 k'" "k' \<noteq> k" using c1 k' by auto
  note s2 = set_ok [OF s1(1) st]
  have "valid s2 k" "valid s2 k'" using s1 s2 by simp_all
  note s3 = free_ok [OF this(1)]
  have "(valid s)(k := False) = valid s" using c1 by (auto simp: fun_eq_iff)
  then show ?thesis using c1 s1 s2 s3 k' \<open>valid s2 k'\<close> by auto
qed

end

record ('k, 's) pthread_key_api =
  pthread_key_create :: "ptr \<Rightarrow> 's \<Rightarrow> int \<times> 'k \<times> 's"
  pthread_key_delete :: "'k \<Rightarrow> 's \<Rightarrow> int \<times> 's"
  pthread_getspecific :: "'k \<Rightarrow> 's \<Rightarrow> ptr"
  pthread_setspecific :: "'k \<Rightarrow> ptr \<Rightarrow> 's \<Rightarrow> int \<times> 's"

definition pthreads_mulle_thread_tss_create ::
  "('k, 's) pthread_key_api \<Rightarrow> ptr \<Rightarrow> 's \<Rightarrow> int \<times> 'k \<times> 's"
where
  "pthreads_mulle_thread_tss_create P f s =
     (case pthread_key_create P f s of (rval, key, s') \<Rightarrow> (zero_or_minus_one (rval = 0), key, s'))"

definition pthreads_mulle_thread_tss_free :: "('k, 's) pthread_key_api \<Rightarrow> 'k \<Rightarrow> 's \<Rightarrow> 's" where
  "pthreads_mulle_thread_tss_free P key s = snd (pthread_key_delete P key s)"

definition pthreads_mulle_thread_tss_get :: "('k, 's) pthread_key_api \<Rightarrow> 'k \<Rightarrow> 's \<Rightarrow> ptr" where
  "pthreads_mulle_thread_tss_get P key s = pthread_getspecific P key s"

definition pthreads_mulle_thread_tss_set ::
  "('k, 's) pthread_key_api \<Rightarrow> 'k \<Rightarrow> ptr \<Rightarrow> 's \<Rightarrow> int \<times> 's"
where
  "pthreads_mulle_thread_tss_set P key value s =
     (case pthread_setspecific P key value s of (rval, s') \<Rightarrow> (zero_or_minus_one (rval = 0), s'))"

lemmas pthreads_tss_defs = pthreads_mulle_thread_tss_create_def pthreads_mulle_thread_tss_free_def
  pthreads_mulle_thread_tss_get_def pthreads_mulle_thread_tss_set_def

locale pthread_key_laws =
  fixes P :: "('k, 's) pthread_key_api" and valid :: "'s \<Rightarrow> 'k \<Rightarrow> bool"
  assumes posix_set: "valid s k \<Longrightarrow> pthread_setspecific P k v s = (0, s') \<Longrightarrow>
      valid s' = valid s \<and> pthread_getspecific P k s' = v \<and>
      (\<forall>k'. valid s k' \<longrightarrow> k' \<noteq> k \<longrightarrow> pthread_getspecific P k' s' = pthread_getspecific P k' s)"
    and posix_set_fails: "pthread_setspecific P k v s = (r, s') \<Longrightarrow> r \<noteq> 0 \<Longrightarrow> s' = s"
    and posix_key: "pthread_key_create P f s = (0, k, s') \<Longrightarrow>
      \<not> valid s k \<and> pthread_getspecific P k s' = NULL \<and> valid s' = (valid s)(k := True) \<and>
      (\<forall>k'. valid s k' \<longrightarrow> pthread_getspecific P k' s' = pthread_getspecific P k' s)"
    and posix_delete: "valid s k \<Longrightarrow>
      valid (snd (pthread_key_delete P k s)) = (valid s)(k := False) \<and>
      (\<forall>k'. valid s k' \<longrightarrow> k' \<noteq> k \<longrightarrow>
        pthread_getspecific P k' (snd (pthread_key_delete P k s)) = pthread_getspecific P k' s)"

sublocale pthread_key_laws \<subseteq> pthreads: tss_store
  "pthreads_mulle_thread_tss_get P" "pthreads_mulle_thread_tss_set P" valid
  "pthreads_mulle_thread_tss_create P" "pthreads_mulle_thread_tss_free P"
proof unfold_locales
  fix s k v s'
  assume v: "valid s k" and "pthreads_mulle_thread_tss_set P k v s = (0, s')"
  then have "pthread_setspecific P k v s = (0, s')"
    by (auto simp: pthreads_tss_defs zero_or_minus_one_def split: prod.splits if_splits)
  from posix_set [OF v this] show "valid s' = valid s \<and> pthreads_mulle_thread_tss_get P k s' = v \<and>
      (\<forall>k'. valid s k' \<longrightarrow> k' \<noteq> k \<longrightarrow>
        pthreads_mulle_thread_tss_get P k' s' = pthreads_mulle_thread_tss_get P k' s)"
    by (simp add: pthreads_tss_defs)
next
  fix k v s r s'
  assume a: "pthreads_mulle_thread_tss_set P k v s = (r, s')" "r \<noteq> 0"
  then obtain r' where r: "pthread_setspecific P k v s = (r', s')" "r' \<noteq> 0" "r = - 1"
    by (auto simp: pthreads_tss_defs zero_or_minus_one_def split: prod.splits if_splits)
  with posix_set_fails [OF r(1,2)] show "r = - 1 \<and> valid s' = valid s \<and>
      (\<forall>k'. valid s k' \<longrightarrow> pthreads_mulle_thread_tss_get P k' s' = pthreads_mulle_thread_tss_get P k' s)"
    by simp
next
  fix f s k s'
  assume "pthreads_mulle_thread_tss_create P f s = (0, k, s')"
  then have "pthread_key_create P f s = (0, k, s')"
    by (auto simp: pthreads_tss_defs zero_or_minus_one_def split: prod.splits if_splits)
  from posix_key [OF this] show "\<not> valid s k \<and> pthreads_mulle_thread_tss_get P k s' = NULL \<and>
      valid s' = (valid s)(k := True) \<and>
      (\<forall>k'. valid s k' \<longrightarrow> pthreads_mulle_thread_tss_get P k' s' = pthreads_mulle_thread_tss_get P k' s)"
    by (simp add: pthreads_tss_defs)
next
  fix s k
  assume "valid s k"
  from posix_delete [OF this] show "valid (pthreads_mulle_thread_tss_free P k s) = (valid s)(k := False) \<and>
      (\<forall>k'. valid s k' \<longrightarrow> k' \<noteq> k \<longrightarrow>
        pthreads_mulle_thread_tss_get P k' (pthreads_mulle_thread_tss_free P k s) =
        pthreads_mulle_thread_tss_get P k' s)"
    by (simp add: pthreads_tss_defs)
qed

record ('k, 's) tss_api =
  tss_create :: "ptr \<Rightarrow> 's \<Rightarrow> thrd_status \<times> 'k \<times> 's"
  tss_delete :: "'k \<Rightarrow> 's \<Rightarrow> 's"
  tss_get :: "'k \<Rightarrow> 's \<Rightarrow> ptr"
  tss_set :: "'k \<Rightarrow> ptr \<Rightarrow> 's \<Rightarrow> thrd_status \<times> 's"

text \<open>\<open>p_key\<close> is the address of the variable for the key, which the code asserts not to be null.\<close>

definition c11_mulle_thread_tss_create ::
  "bool \<Rightarrow> ptr \<Rightarrow> ('k, 's) tss_api \<Rightarrow> ptr \<Rightarrow> 's \<Rightarrow> fault + (int \<times> 'k \<times> 's)"
where
  "c11_mulle_thread_tss_create ndebug p_key T f s =
     c_assert ndebug (p_key \<noteq> NULL)
       (case tss_create T f s of (st, key, s') \<Rightarrow>
          Inr (zero_or_minus_one (st = thrd_success), key, s'))"

definition c11_mulle_thread_tss_free :: "('k, 's) tss_api \<Rightarrow> 'k \<Rightarrow> 's \<Rightarrow> 's" where
  "c11_mulle_thread_tss_free T key s = tss_delete T key s"

definition c11_mulle_thread_tss_get :: "('k, 's) tss_api \<Rightarrow> 'k \<Rightarrow> 's \<Rightarrow> ptr" where
  "c11_mulle_thread_tss_get T key s = tss_get T key s"

definition c11_mulle_thread_tss_set ::
  "('k, 's) tss_api \<Rightarrow> 'k \<Rightarrow> ptr \<Rightarrow> 's \<Rightarrow> int \<times> 's"
where
  "c11_mulle_thread_tss_set T key value s =
     (case tss_set T key value s of (st, s') \<Rightarrow> (zero_or_minus_one (st = thrd_success), s'))"

lemmas c11_tss_defs = c11_mulle_thread_tss_create_def c11_mulle_thread_tss_free_def
  c11_mulle_thread_tss_get_def c11_mulle_thread_tss_set_def

locale tss_laws =
  fixes T :: "('k, 's) tss_api" and valid :: "'s \<Rightarrow> 'k \<Rightarrow> bool"
  assumes c_set: "valid s k \<Longrightarrow> tss_set T k v s = (thrd_success, s') \<Longrightarrow>
      valid s' = valid s \<and> tss_get T k s' = v \<and>
      (\<forall>k'. valid s k' \<longrightarrow> k' \<noteq> k \<longrightarrow> tss_get T k' s' = tss_get T k' s)"
    and c_set_fails: "tss_set T k v s = (r, s') \<Longrightarrow> r \<noteq> thrd_success \<Longrightarrow> s' = s"

sublocale tss_laws \<subseteq> c11_threads: tss_values
  "c11_mulle_thread_tss_get T" "c11_mulle_thread_tss_set T" valid
proof unfold_locales
  fix s k v s'
  assume v: "valid s k" and "c11_mulle_thread_tss_set T k v s = (0, s')"
  then have "tss_set T k v s = (thrd_success, s')"
    by (auto simp: c11_tss_defs zero_or_minus_one_def split: prod.splits if_splits)
  from c_set [OF v this] show "valid s' = valid s \<and> c11_mulle_thread_tss_get T k s' = v \<and>
      (\<forall>k'. valid s k' \<longrightarrow> k' \<noteq> k \<longrightarrow>
        c11_mulle_thread_tss_get T k' s' = c11_mulle_thread_tss_get T k' s)"
    by (simp add: c11_tss_defs)
next
  fix k v s r s'
  assume a: "c11_mulle_thread_tss_set T k v s = (r, s')" "r \<noteq> 0"
  then obtain r' where r: "tss_set T k v s = (r', s')" "r' \<noteq> thrd_success" "r = - 1"
    by (auto simp: c11_tss_defs zero_or_minus_one_def split: prod.splits if_splits)
  with c_set_fails [OF r(1,2)] show "r = - 1 \<and> valid s' = valid s \<and>
      (\<forall>k'. valid s k' \<longrightarrow> c11_mulle_thread_tss_get T k' s' = c11_mulle_thread_tss_get T k' s)"
    by simp
qed

text \<open>On Windows every index is readable and writable while it lasts; whether \<open>TlsSetValue\<close>
  succeeds is fixed here for a sequence of calls.\<close>

interpretation windows_tss: tss_values win_mulle_thread_tss_get "win_mulle_thread_tss_set ok"
  "\<lambda>s k. True" for ok
  by unfold_locales
    (auto simp: win_mulle_thread_tss_get_def win_mulle_thread_tss_set_def TlsGetValue_def
      TlsSetValue_def split: if_splits)

subsection \<open>Reference systems\<close>

text \<open>A condition variable that may always wake up spuriously: the state is the holders of the
  mutexes and the number of waits so far.\<close>

definition reference_pthread_cond :: "((nat \<Rightarrow> tid option) \<times> nat) pthread_cond_api" where
  "reference_pthread_cond = \<lparr>
     pthread_cond_init = (\<lambda>c w. (0, w)),
     pthread_cond_destroy = (\<lambda>c w. (0, w)),
     pthread_cond_wait = (\<lambda>t c m w. if fst w m = Some t then Some (0, fst w, snd w + 1) else None),
     pthread_cond_signal = (\<lambda>c w. (0, w)),
     pthread_cond_broadcast = (\<lambda>c w. (0, w)),
     pthread_cond_timedwait = (\<lambda>t c m ts w. Some (ETIMEDOUT, fst w, snd w + 1))\<rparr>"

interpretation reference_posix_cond: pthread_cond_laws reference_pthread_cond fst
  by unfold_locales (auto simp: reference_pthread_cond_def split: if_splits)

definition reference_cnd :: "((nat \<Rightarrow> tid option) \<times> nat) cnd_api" where
  "reference_cnd = \<lparr>
     cnd_init = (\<lambda>c w. (thrd_success, w)),
     cnd_destroy = (\<lambda>c w. w),
     cnd_wait = (\<lambda>t c m w. if fst w m = Some t then Some (thrd_success, fst w, snd w + 1) else None),
     cnd_signal = (\<lambda>c w. (thrd_success, w)),
     cnd_broadcast = (\<lambda>c w. (thrd_success, w)),
     cnd_timedwait = (\<lambda>t c m ts w. Some (thrd_timedout, fst w, snd w + 1))\<rparr>"

interpretation reference_c_cond: cnd_laws reference_cnd fst
  by unfold_locales (auto simp: reference_cnd_def split: if_splits)

text \<open>Keys are numbers, given out in order; the state is the next one and the values of the keys
  in use.\<close>

type_synonym ref_store = "nat \<times> (nat \<rightharpoonup> ptr)"

definition ref_valid :: "ref_store \<Rightarrow> nat \<Rightarrow> bool" where
  "ref_valid s k \<longleftrightarrow> snd s k \<noteq> None"

definition ref_get :: "nat \<Rightarrow> ref_store \<Rightarrow> ptr" where
  "ref_get k s = (case snd s k of None \<Rightarrow> 0 | Some v \<Rightarrow> v)"

definition ref_put :: "nat \<Rightarrow> ptr \<Rightarrow> ref_store \<Rightarrow> ref_store" where
  "ref_put k v s = (fst s, (snd s)(k \<mapsto> v))"

definition reference_keys :: "(nat, ref_store) pthread_key_api" where
  "reference_keys = \<lparr>
     pthread_key_create = (\<lambda>f s.
        if ref_valid s (fst s) then (11, 0, s)
        else (0, fst s, (fst s + 1, (snd s)(fst s \<mapsto> 0)))),
     pthread_key_delete = (\<lambda>k s. (0, (fst s, (snd s)(k := None)))),
     pthread_getspecific = ref_get,
     pthread_setspecific = (\<lambda>k v s. if ref_valid s k then (0, ref_put k v s) else (22, s))\<rparr>"

interpretation reference_posix_keys: pthread_key_laws reference_keys ref_valid
  by unfold_locales (auto simp: reference_keys_def ref_valid_def ref_get_def ref_put_def
    fun_eq_iff split: if_splits)

definition reference_tss :: "(nat, ref_store) tss_api" where
  "reference_tss = \<lparr>
     tss_create = (\<lambda>f s.
        if ref_valid s (fst s) then (thrd_error, 0, s)
        else (thrd_success, fst s, (fst s + 1, (snd s)(fst s \<mapsto> 0)))),
     tss_delete = (\<lambda>k s. (fst s, (snd s)(k := None))),
     tss_get = ref_get,
     tss_set = (\<lambda>k v s. if ref_valid s k then (thrd_success, ref_put k v s) else (thrd_error, s))\<rparr>"

interpretation reference_c_tss: tss_laws reference_tss ref_valid
  by unfold_locales (auto simp: reference_tss_def ref_valid_def ref_get_def ref_put_def
    fun_eq_iff split: if_splits)

subsection \<open>Properties\<close>

context pthread_cond_laws
begin

lemmas posix_wait_until = pthreads.wait_until_locked
lemmas posix_timedwait_result = pthreads.timedwait_locked

end

text \<open>Condition variables on pthreads: a timed wait ends with 0, \<open>ETIMEDOUT\<close> or -1 and holds
  the mutex again, and so a loop of waits, whatever happens meanwhile and however often it is
  woken spuriously, ends only with its predicate true and the mutex held.\<close>

theorem cond_wait_returns_locked:
  assumes "pthread_cond_laws P holder" and "holder w m = Some t"
    and "pthreads_mulle_thread_cond_timedwait P t c m ts w = Some (r, w1)"
    and "wait_until (pthreads_cond P) t c m p n w = Some w2"
  shows "r \<in> {0, ETIMEDOUT, - 1} \<and> holder w1 m = Some t \<and> p w2 \<and> holder w2 m = Some t"
  using pthread_cond_laws.posix_wait_until [OF assms(1,2,4)]
    pthread_cond_laws.posix_timedwait_result [OF assms(1,2), of c ts r w1] assms(3)
  by (simp add: pthreads_cond_def)

theorem cond_wait_returns_locked_witness:
  "\<exists>w2. wait_until (pthreads_cond reference_pthread_cond) 7 0 1 (\<lambda>w. snd w = 2) 3
      ((\<lambda>m. Some 7), 0) = Some w2 \<and> snd w2 = 2 \<and> fst w2 1 = Some 7"
proof -
  have "pthreads_mulle_thread_cond_timedwait reference_pthread_cond 7 0 1 example_timespec
      ((\<lambda>m. Some 7), 0) = Some (ETIMEDOUT, (\<lambda>m. Some 7), 1)"
    by (simp add: pthreads_cond_defs reference_pthread_cond_def)
  moreover obtain w2 where "wait_until (pthreads_cond reference_pthread_cond) 7 0 1 (\<lambda>w. snd w = 2) 3
      ((\<lambda>m. Some 7), 0) = Some w2"
    by (simp add: pthreads_cond_defs reference_pthread_cond_def eval_nat_numeral)
  ultimately show ?thesis
    using cond_wait_returns_locked [OF reference_posix_cond.pthread_cond_laws_axioms,
        of "((\<lambda>m. Some 7), 0)" 1 7 0 example_timespec ETIMEDOUT "((\<lambda>m. Some 7), 1)"
          "\<lambda>w. snd w = 2" 3 w2]
    by simp
qed

text \<open>The same for C11 threads.\<close>

context cnd_laws
begin

lemmas c_wait_until = c11_threads.wait_until_locked
lemmas c_timedwait_result = c11_threads.timedwait_locked

end

lemma c11_cond_wait_returns_locked:
  assumes "cnd_laws T holder" and "holder w m = Some t"
    and "c11_mulle_thread_cond_timedwait T t c m ts w = Some (r, w1)"
    and "wait_until (c11_cond T) t c m p n w = Some w2"
  shows "r \<in> {0, ETIMEDOUT, - 1} \<and> holder w1 m = Some t \<and> p w2 \<and> holder w2 m = Some t"
  using cnd_laws.c_wait_until [OF assms(1,2,4)]
    cnd_laws.c_timedwait_result [OF assms(1,2), of c ts r w1] assms(3)
  by (simp add: c11_cond_def)

context pthread_key_laws
begin

lemmas posix_values = pthreads.set_values_read
lemmas posix_own_key = pthreads.own_key

end

text \<open>Thread specific storage holds what was last stored: after any sequence of
  \<open>mulle_thread_tss_set\<close> on keys in use, on pthreads with those that failed left out, a key
  has the value of the last set on it, or the old one if there was none. On Windows the same
  holds for the functions over \<open>TlsGetValue\<close> and \<open>TlsSetValue\<close>.\<close>

theorem tss_last_write:
  assumes "pthread_key_laws P valid" and "\<forall>(k, v) \<in> set kvs. valid s k" and "valid s k"
    and "set_values (pthreads_mulle_thread_tss_set P) kvs s = (done, s')"
    and "set_values (win_mulle_thread_tss_set True) writes store = (done', store')"
  shows "pthreads_mulle_thread_tss_get P k s' =
      (case map_of (rev done) k of
         None \<Rightarrow> pthreads_mulle_thread_tss_get P k s | Some v \<Rightarrow> v) \<and>
    win_mulle_thread_tss_get index store' =
      (case map_of (rev done') index of
         None \<Rightarrow> win_mulle_thread_tss_get index store | Some v \<Rightarrow> v)"
  using pthread_key_laws.posix_values [OF assms(1,2,4,3)]
    windows_tss.set_values_read [OF _ assms(5), of index] by simp

theorem tss_last_write_witness:
  "\<exists>s'. set_values (pthreads_mulle_thread_tss_set reference_keys) [(0, 5), (1, 6), (0, 7)]
      (2, [0 \<mapsto> 1, 1 \<mapsto> 2]) = ([(0, 5), (1, 6), (0, 7)], s') \<and>
     pthreads_mulle_thread_tss_get reference_keys 0 s' = 7"
proof -
  have "\<exists>s'. set_values (pthreads_mulle_thread_tss_set reference_keys) [(0, 5), (1, 6), (0, 7)]
      (2, [0 \<mapsto> 1, 1 \<mapsto> 2]) = ([(0, 5), (1, 6), (0, 7)], s')"
    by (simp add: pthreads_tss_defs reference_keys_def ref_valid_def ref_put_def)
  then obtain s' where s': "set_values (pthreads_mulle_thread_tss_set reference_keys)
      [(0, 5), (1, 6), (0, 7)] (2, [0 \<mapsto> 1, 1 \<mapsto> 2]) = ([(0, 5), (1, 6), (0, 7)], s')" ..
  have "set_values (win_mulle_thread_tss_set True) [] \<lparr>tls_values = (\<lambda>k. 0), tls_calls = []\<rparr> =
      ([], \<lparr>tls_values = (\<lambda>k. 0), tls_calls = []\<rparr>)" by simp
  from tss_last_write [OF reference_posix_keys.pthread_key_laws_axioms _ _ s' this, of 0]
  show ?thesis using s' by (simp add: ref_valid_def)
qed

text \<open>A key belongs to whoever created it: what is stored through a new key and freeing it
  touch no other key, its first value is \<open>NULL\<close>, and after it is freed the same keys are in
  use as before.\<close>

theorem tss_own_key:
  assumes "pthread_key_laws P valid" and "pthreads_mulle_thread_tss_create P f s = (0, k, s1)"
    and "pthreads_mulle_thread_tss_set P k v s1 = (0, s2)" and "valid s k'"
  shows "pthreads_mulle_thread_tss_get P k s1 = NULL \<and>
    pthreads_mulle_thread_tss_get P k s2 = v \<and>
    pthreads_mulle_thread_tss_get P k' s2 = pthreads_mulle_thread_tss_get P k' s \<and>
    pthreads_mulle_thread_tss_get P k' (pthreads_mulle_thread_tss_free P k s2) =
      pthreads_mulle_thread_tss_get P k' s \<and>
    valid (pthreads_mulle_thread_tss_free P k s2) = valid s"
  using pthread_key_laws.posix_own_key [OF assms] .

theorem tss_own_key_witness:
  "ref_valid (pthreads_mulle_thread_tss_free reference_keys 1 (2, [0 \<mapsto> 9, 1 \<mapsto> 4])) =
   ref_valid (1, [0 \<mapsto> 9])"
proof -
  have "pthreads_mulle_thread_tss_create reference_keys 0 (1, [0 \<mapsto> 9]) = (0, 1, (2, [0 \<mapsto> 9, 1 \<mapsto> 0]))"
    "pthreads_mulle_thread_tss_set reference_keys 1 4 (2, [0 \<mapsto> 9, 1 \<mapsto> 0]) = (0, (2, [0 \<mapsto> 9, 1 \<mapsto> 4]))"
    "ref_valid (1, [0 \<mapsto> 9]) 0"
    by (simp_all add: pthreads_tss_defs reference_keys_def ref_valid_def ref_put_def)
  from tss_own_key [OF reference_posix_keys.pthread_key_laws_axioms this] show ?thesis by blast
qed

end
