(* ===== verification/Result_Codes.thy ===== *)
theory Result_Codes
  imports Cond_Tss
begin

text \<open>
  The result codes of the wrappers (\<open>src/mulle-thread-pthreads.h\<close>, \<open>src/mulle-thread-c11.h\<close>,
  \<open>src/mulle-thread-windows.h\<close>, \<open>src/mulle-thread-windows.c\<close>) as types: what a client can get
  from them whatever the system returns, and that the pthreads and the C11 backend translate
  the outcomes of the system alike.
\<close>

subsection \<open>Codes\<close>

text \<open>The codes of \<open>mulle_thread_mutex_trylock\<close> and of the timed wait include one more.\<close>

abbreviation plain_codes :: "int set" where
  "plain_codes \<equiv> {0, - 1}"

definition mutex_codes :: "'m mutex_ops \<Rightarrow> tid \<Rightarrow> 'm \<Rightarrow> bool" where
  "mutex_codes M t m \<longleftrightarrow> fst (mo_init M m) \<in> plain_codes \<and>
     map_option fst (mo_lock M t m) \<in> insert None (Some ` plain_codes) \<and>
     fst (mo_trylock M t m) \<in> insert EBUSY plain_codes \<and>
     fst (mo_unlock M t m) \<in> plain_codes \<and> fst (mo_done M m) \<in> plain_codes"

definition cond_codes :: "'w cond_ops \<Rightarrow> tid \<Rightarrow> nat \<Rightarrow> nat \<Rightarrow> timespec \<Rightarrow> 'w \<Rightarrow> bool" where
  "cond_codes C t c m ts w \<longleftrightarrow> fst (co_init C c w) \<in> plain_codes \<and> fst (co_done C c w) \<in> plain_codes \<and>
     map_option fst (co_wait C t c m w) \<in> insert None (Some ` plain_codes) \<and>
     fst (co_signal C c w) \<in> plain_codes \<and> fst (co_broadcast C c w) \<in> plain_codes \<and>
     map_option fst (co_timedwait C t c m ts w) \<in> insert None (Some ` insert ETIMEDOUT plain_codes)"

text \<open>A creation of a thread or a key fails an assertion or another check, or has a code.\<close>

definition creation_codes :: "'e + (int \<times> 'a) \<Rightarrow> bool" where
  "creation_codes r \<longleftrightarrow> (case r of Inl e \<Rightarrow> True | Inr (rval, x) \<Rightarrow> rval \<in> plain_codes)"

lemma zero_or_minus_one_code [simp]:
  "zero_or_minus_one b = 0 \<longleftrightarrow> b" "zero_or_minus_one b = - 1 \<longleftrightarrow> \<not> b"
  by (simp_all add: zero_or_minus_one_def)

lemma creation_codes_assert [simp]:
  "creation_codes (c_assert nd b r) \<longleftrightarrow> (nd \<or> b \<longrightarrow> creation_codes r)"
  by (auto simp: c_assert_def creation_codes_def)

lemma creation_codes_Inr [simp]: "creation_codes (Inr (rval, x)) \<longleftrightarrow> rval \<in> plain_codes"
  by (simp add: creation_codes_def)

text \<open>The table of destructors and its lock, on which creating a key rests on Windows.\<close>

lemma add_destructor_codes:
  "creation_codes (destructor_table_add_destructor_for_key nd may_alloc p f key)"
  by (auto simp: destructor_table_add_destructor_for_key_def split: option.splits)

lemma add_tss_codes: "creation_codes (mulle_thread_windows_add_tss nd may_alloc key f g)"
  using add_destructor_codes [of nd may_alloc _ f key]
  by (fastforce simp: mulle_thread_windows_add_tss_def enter_lock_def tss_assert_def creation_codes_def
    split: option.splits sum.splits)

lemma tss_create_codes: "creation_codes (win_mulle_thread_tss_create nd may_alloc index f g)"
  using add_tss_codes [of nd may_alloc index f g]
  by (auto simp: win_mulle_thread_tss_create_def creation_codes_def split: sum.splits)

subsection \<open>The calls of the Windows mutex\<close>

text \<open>They take several steps; the codes of the activations, in every state.\<close>

fun win_codes :: "wm_fn \<Rightarrow> int set" where
  "win_codes Wm_lock = {0}"
| "win_codes Wm_trylock = {0, EBUSY}"
| "win_codes Wm_unlock = {0}"
| "win_codes Wm_cond_wait = {0, - 1}"

lemma win_step_codes:
  assumes "wm_fn_step B W nd t ok a x = Some (a', y)" and "wa_result a \<in> win_codes (wa_fn a)"
  shows "wa_result a' \<in> win_codes (wa_fn a')"
  using assms
  by (cases "wa_fn a"; cases x; cases "wa_pc a")
    (auto simp: wm_fn_defs case_prod_beta split: if_splits option.splits)

lemma win_exec_codes:
  assumes "\<And>u a. wm_acts s u = Some a \<Longrightarrow> wa_result a \<in> win_codes (wa_fn a)"
    and "wm_exec B W nd mv s = Some s'" and "wm_acts s' u = Some a"
  shows "wa_result a \<in> win_codes (wa_fn a)"
proof (cases mv)
  case (Wm_call t f p)
  have "wa_result (wm_entry f p) \<in> win_codes (wa_fn (wm_entry f p))"
    by (cases f) (simp_all add: wm_entry_def)
  with assms Wm_call show ?thesis by (auto split: if_splits)
next
  case (Wm_step t ok)
  with assms show ?thesis by (auto split: if_splits option.splits dest: win_step_codes)
qed

lemma win_reach_codes:
  assumes "wm_reach B W so nd s" and "wm_acts s u = Some a"
  shows "wa_result a \<in> win_codes (wa_fn a)"
  using assms
proof (induction arbitrary: u a rule: wm_reach.induct)
  case (wm_reach_step s mv s')
  show ?case by (rule win_exec_codes [OF wm_reach_step.IH wm_reach_step(2) wm_reach_step.prems])
qed (simp add: wm_start_def)

subsection \<open>A system as the other one sees it\<close>

text \<open>The outcome that an \<open>errno\<close> code stands for, and a pthreads system with its codes read as
  those of C11.\<close>

definition outcome :: "int \<Rightarrow> thrd_status" where
  "outcome rval =
     (if rval = 0 then thrd_success else if rval = EBUSY then thrd_busy
      else if rval = ETIMEDOUT then thrd_timedout else thrd_error)"

definition outcome_of :: "int \<times> 'a \<Rightarrow> thrd_status \<times> 'a" where
  "outcome_of r = (outcome (fst r), snd r)"

lemma outcome_simps [simp]:
  "outcome rval = thrd_success \<longleftrightarrow> rval = 0" "outcome rval = thrd_timedout \<longleftrightarrow> rval = ETIMEDOUT"
  "outcome rval = thrd_busy \<longleftrightarrow> rval = EBUSY"
  by (auto simp: outcome_def EBUSY_def ETIMEDOUT_def)

definition mtx_of :: "'m pthread_mutex_api \<Rightarrow> 'm mtx_api" where
  "mtx_of P = \<lparr>
     mtx_init_plain = (\<lambda>m. outcome_of (pthread_mutex_init P m)),
     mtx_lock = (\<lambda>t m. map_option outcome_of (pthread_mutex_lock P t m)),
     mtx_trylock = (\<lambda>t m. outcome_of (pthread_mutex_trylock P t m)),
     mtx_unlock = (\<lambda>t m. outcome_of (pthread_mutex_unlock P t m)),
     mtx_destroy = (\<lambda>m. snd (pthread_mutex_destroy P m))\<rparr>"

definition cnd_of :: "'w pthread_cond_api \<Rightarrow> 'w cnd_api" where
  "cnd_of P = \<lparr>
     cnd_init = (\<lambda>c w. outcome_of (pthread_cond_init P c w)),
     cnd_destroy = (\<lambda>c w. snd (pthread_cond_destroy P c w)),
     cnd_wait = (\<lambda>t c m w. map_option outcome_of (pthread_cond_wait P t c m w)),
     cnd_signal = (\<lambda>c w. outcome_of (pthread_cond_signal P c w)),
     cnd_broadcast = (\<lambda>c w. outcome_of (pthread_cond_broadcast P c w)),
     cnd_timedwait = (\<lambda>t c m ts w. map_option outcome_of (pthread_cond_timedwait P t c m ts w))\<rparr>"

lemmas translation_defs = mtx_of_def cnd_of_def outcome_of_def case_prod_beta

subsection \<open>Properties\<close>

text \<open>C30: the result codes, whatever the system returns. Creating and detaching threads,
  every operation of mutexes and condition variables, and creating and setting storage give 0
  or -1, \<open>mulle_thread_mutex_trylock\<close> besides EBUSY and the timed wait besides ETIMEDOUT, in
  pthreads, C11 and Windows, and no other error number of the system gets through. Creations
  may fail an assertion instead. On Windows a call of the mutex or the wait is a sequence of
  steps; its code is the one it has when it gets to its return, in any reachable state of any
  number of threads.\<close>

theorem result_codes:
  assumes "wm_reach B W so nd sw" and "wm_acts sw u = Some a" and "wa_pc a = W_ret"
  shows
  "mutex_codes (pthreads_mutex P) t m \<and> mutex_codes (c11_mutex T) t m \<and>
   fst (win_mulle_thread_mutex_init B W t k sm) = 0 \<and> fst (win_mulle_thread_mutex_done W sm) = 0 \<and>
   (case wa_fn a of Wm_trylock \<Rightarrow> wa_result a \<in> {0, EBUSY} | Wm_cond_wait \<Rightarrow> wa_result a \<in> plain_codes
      | _ \<Rightarrow> wa_result a = 0) \<and>
   cond_codes (pthreads_cond PC) t c k ts w \<and> cond_codes (c11_cond TC) t c k ts w \<and>
   fst (win_mulle_thread_cond_init WC c w) = 0 \<and> fst (win_mulle_thread_cond_done c w) = 0 \<and>
   fst (win_mulle_thread_cond_signal WC c w) = 0 \<and> fst (win_mulle_thread_cond_broadcast WC c w) = 0 \<and>
   fst (win_mulle_thread_cond_timedwait B sleep t k ts' now sm) \<in> insert ETIMEDOUT plain_codes \<and>
   creation_codes (pthreads_mulle_thread_create nd PT f arg s) \<and>
   creation_codes (c11_mulle_thread_create nd TT f arg s) \<and>
   creation_codes (win_mulle_thread_create nd WT f arg s) \<and>
   fst (pthreads_mulle_thread_detach PT h s) \<in> plain_codes \<and>
   fst (c11_mulle_thread_detach TT h s) \<in> plain_codes \<and>
   fst (win_mulle_thread_detach WT h s) \<in> plain_codes \<and>
   fst (pthreads_mulle_thread_tss_create PK f s') \<in> plain_codes \<and>
   creation_codes (c11_mulle_thread_tss_create nd p_key TK f s') \<and>
   creation_codes (win_mulle_thread_tss_create nd may_alloc index f g) \<and>
   fst (pthreads_mulle_thread_tss_set PK key v s') \<in> plain_codes \<and>
   fst (c11_mulle_thread_tss_set TK key v s') \<in> plain_codes \<and>
   fst (win_mulle_thread_tss_set ok k32 v tls) \<in> plain_codes"
proof (intro conjI)
  show "mutex_codes (pthreads_mutex P) t m"
    by (auto simp: mutex_codes_def pthreads_mutex_defs case_prod_beta split: option.splits)
  show "mutex_codes (c11_mutex T) t m"
    by (auto simp: mutex_codes_def c11_mutex_defs case_prod_beta split: option.splits thrd_status.splits)
  show "cond_codes (pthreads_cond PC) t c k ts w"
    by (auto simp: cond_codes_def pthreads_cond_defs case_prod_beta split: option.splits)
  show "cond_codes (c11_cond TC) t c k ts w"
    by (auto simp: cond_codes_def c11_cond_defs case_prod_beta split: option.splits)
  show "fst (win_mulle_thread_cond_timedwait B sleep t k ts' now sm) \<in> insert ETIMEDOUT plain_codes"
    by (auto simp: win_mulle_thread_cond_timedwait_def timedwait_result_def Let_def case_prod_beta)
  show "case wa_fn a of Wm_trylock \<Rightarrow> wa_result a \<in> {0, EBUSY} | Wm_cond_wait \<Rightarrow> wa_result a \<in> plain_codes
      | _ \<Rightarrow> wa_result a = 0"
    using win_reach_codes [OF assms(1,2)] by (cases "wa_fn a") simp_all
qed (auto simp: pthreads_mulle_thread_create_def c11_mulle_thread_create_def
  win_mulle_thread_create_def pthreads_mulle_thread_detach_def c11_mulle_thread_detach_def
  win_mulle_thread_detach_def pthreads_tss_defs c11_tss_defs win_mulle_thread_tss_set_def
  win_mulle_thread_mutex_init_def win_mulle_thread_mutex_done_def win_mulle_thread_cond_init_def
  win_mulle_thread_cond_done_def win_mulle_thread_cond_signal_def win_mulle_thread_cond_broadcast_def
  tss_create_codes case_prod_beta)

text \<open>Thread 2 tries a mutex that thread 1 holds, with systems that fail in every call.\<close>

definition busy_example :: "wm_move list" where
  "busy_example =
     [Wm_call 1 Wm_lock 0, Wm_step 1 True, Wm_step 1 True, Wm_step 1 True, Wm_step 1 True,
      Wm_call 2 Wm_trylock 0, Wm_step 2 True, Wm_step 2 True]"

definition failing_mutex :: "int pthread_mutex_api" where
  "failing_mutex = \<lparr>
     pthread_mutex_init = (\<lambda>m. (22, m)), pthread_mutex_lock = (\<lambda>t m. Some (22, m)),
     pthread_mutex_trylock = (\<lambda>t m. (22, m)), pthread_mutex_unlock = (\<lambda>t m. (22, m)),
     pthread_mutex_destroy = (\<lambda>m. (22, m))\<rparr>"

lemma busy_example_value:
  "map_option (\<lambda>s. map_option (\<lambda>a. (wa_fn a, wa_pc a)) (wm_acts s 2))
     (wm_run c11_backend reference_cs False busy_example wm_init_sys) = Some (Some (Wm_trylock, W_ret))"
  by code_simp

theorem result_codes_witness:
  "mutex_codes (pthreads_mutex failing_mutex) 1 0 \<and>
   (\<exists>s a. wm_run c11_backend reference_cs False busy_example wm_init_sys = Some s \<and>
     wm_acts s 2 = Some a \<and> wa_pc a = W_ret \<and> wa_result a \<in> {0, EBUSY})"
proof -
  obtain s a where s: "wm_run c11_backend reference_cs False busy_example wm_init_sys = Some s"
    "wm_acts s 2 = Some a" "wa_fn a = Wm_trylock" "wa_pc a = W_ret"
    using busy_example_value by auto
  note codes = result_codes [OF wm_run_reach [OF wm_init_reach s(1)] s(2,4), of failing_mutex 1 0]
  have "wa_result a \<in> {0, EBUSY}"
    using codes [THEN conjunct2, THEN conjunct2, THEN conjunct2, THEN conjunct2, THEN conjunct1] s(3)
    by simp
  with codes [THEN conjunct1] s show ?thesis by blast
qed

text \<open>C31: the two backends translate alike. On a C11 system that reports the outcomes a pthreads
  system reports, every operation of mutexes and condition variables computes in the C11 backend
  what it computes in the pthreads backend, result and state, except for destroying: C11 has no
  outcome of it to report, so the C11 backend always gives 0 with the state of the pthreads
  backend, which gives 0 if the system destroyed the object and otherwise -1.\<close>

theorem wrappers_translate_alike:
  "mo_init (c11_mutex (mtx_of P)) = mo_init (pthreads_mutex P) \<and>
   mo_lock (c11_mutex (mtx_of P)) = mo_lock (pthreads_mutex P) \<and>
   mo_trylock (c11_mutex (mtx_of P)) = mo_trylock (pthreads_mutex P) \<and>
   mo_unlock (c11_mutex (mtx_of P)) = mo_unlock (pthreads_mutex P) \<and>
   mo_done (c11_mutex (mtx_of P)) m = (0, snd (mo_done (pthreads_mutex P) m)) \<and>
   fst (mo_done (pthreads_mutex P) m) = (if fst (pthread_mutex_destroy P m) = 0 then 0 else - 1) \<and>
   co_init (c11_cond (cnd_of PC)) = co_init (pthreads_cond PC) \<and>
   co_wait (c11_cond (cnd_of PC)) = co_wait (pthreads_cond PC) \<and>
   co_signal (c11_cond (cnd_of PC)) = co_signal (pthreads_cond PC) \<and>
   co_broadcast (c11_cond (cnd_of PC)) = co_broadcast (pthreads_cond PC) \<and>
   co_timedwait (c11_cond (cnd_of PC)) = co_timedwait (pthreads_cond PC) \<and>
   co_done (c11_cond (cnd_of PC)) c w = (0, snd (co_done (pthreads_cond PC) c w)) \<and>
   fst (co_done (pthreads_cond PC) c w) = (if fst (pthread_cond_destroy PC c w) = 0 then 0 else - 1)"
proof -
  have trylock: "mo_trylock (c11_mutex (mtx_of P)) t m' = mo_trylock (pthreads_mutex P) t m'" for t m'
    by (auto simp: c11_mutex_defs pthreads_mutex_defs translation_defs outcome_def EBUSY_def
      ETIMEDOUT_def prod_eq_iff)
  have timed: "co_timedwait (c11_cond (cnd_of PC)) t c' k ts w' =
      co_timedwait (pthreads_cond PC) t c' k ts w'" for t c' k ts w'
    by (auto simp: c11_cond_defs pthreads_cond_defs translation_defs zero_or_minus_one_def
      ETIMEDOUT_def split: option.splits)
  show ?thesis
    by (intro conjI ext trylock timed)
      (auto simp: c11_mutex_defs pthreads_mutex_defs c11_cond_defs pthreads_cond_defs
        translation_defs split: option.splits)
qed

end
