(* ===== verification/Once_Recursive.thy ===== *)
theory Once_Recursive
  imports Once_Invariant
begin

text \<open>
  Recursive one-time initialization (\<open>mulle_thread_once_recursive_t\<close>):
  \<open>mulle_thread_once_call_recursive\<close> of \<open>src/mulle-thread.c\<close>, its wrapper
  \<open>mulle_thread_once_recursive\<close> and the macro \<open>mulle_thread_once_do_recursive\<close> of
  \<open>src/mulle-thread.h\<close>. The flag has two cells, the state and the id of the thread inside
  \<open>init\<close>. As in theory \<open>Once\<close> an activation is a frame, a thread is a stack of frames, and
  one step executes one access to shared memory. \<open>mulle_thread_id()\<close> of thread \<open>t\<close> is \<open>t\<close>;
  no thread has the id 0, which the code uses for \<open>no thread\<close>.
\<close>

datatype rec_pc =
  R_read_tid | R_cas | R_yield | R_read | R_wait_barrier | R_write_tid | R_call_init | R_in_init
| R_clear_tid | R_barrier | R_publish | R_ret | R_abort

datatype rec_fn = Call_recursive | Do_recursive

record rec_frame =
  rf_fn :: rec_fn
  rf_obj :: nat
  rf_userinfo :: ptr
  rf_pc :: rec_pc
  rf_actual :: ptr

text \<open>The fields of \<open>mulle_thread_once_recursive_t\<close> and its static initializer.\<close>

definition rec_state :: "rec_frame \<Rightarrow> addr" where
  "rec_state fr = (rf_obj fr, 0)"

definition rec_thread_id :: "rec_frame \<Rightarrow> addr" where
  "rec_thread_id fr = (rf_obj fr, 1)"

definition MULLE_THREAD_ONCE_RECURSIVE_INIT :: "ptr \<times> ptr" where
  "MULLE_THREAD_ONCE_RECURSIVE_INIT = (MULLE_THREAD_ONCE_INIT, MULLE_ATOMIC_POINTER_INIT)"

definition rgoto :: "rec_pc \<Rightarrow> rec_frame \<Rightarrow> rec_frame" where
  "rgoto p fr = fr\<lparr>rf_pc := p\<rparr>"

definition mulle_thread_once_call_recursive ::
  "backend \<Rightarrow> bool \<Rightarrow> tid \<Rightarrow> rec_frame \<Rightarrow> mem \<Rightarrow> rec_frame \<times> mem"
where
  "mulle_thread_once_call_recursive B ndebug this_thread_id fr m =
     (case rf_pc fr of
        R_read_tid \<Rightarrow>
          (case be_pointer_read B this_thread_id (rec_thread_id fr) m of
             (thread_id, m') \<Rightarrow>
               if thread_id = this_thread_id then (rgoto R_ret fr, m') else (rgoto R_cas fr, m'))
      | R_cas \<Rightarrow>
          (case mulle_atomic_pointer_compare_and_swap_actual B this_thread_id (rec_state fr)
                  MULLE_THREAD_ONCE_BUSY MULLE_THREAD_ONCE_INIT m of
             (actual, m') \<Rightarrow>
               (let fr' = fr\<lparr>rf_actual := actual\<rparr> in
                if actual = MULLE_THREAD_ONCE_DONE then (rgoto R_ret fr', m')
                else if actual \<noteq> MULLE_THREAD_ONCE_INIT then (rgoto R_yield fr', m')
                else (rgoto R_write_tid fr', m')))
      | R_yield \<Rightarrow> (rgoto R_read fr, m)
      | R_read \<Rightarrow>
          (case be_pointer_read B this_thread_id (rec_state fr) m of
             (v, m') \<Rightarrow>
               if v \<noteq> MULLE_THREAD_ONCE_DONE then (rgoto R_yield fr, m')
               else (rgoto R_wait_barrier fr, m'))
      | R_wait_barrier \<Rightarrow> (rgoto R_ret fr, be_memory_barrier B this_thread_id m)
      | R_write_tid \<Rightarrow>
          (rgoto R_call_init fr, be_pointer_write B this_thread_id (rec_thread_id fr) this_thread_id m)
      | R_call_init \<Rightarrow> (rgoto R_in_init fr, m)
      | R_in_init \<Rightarrow> (rgoto R_clear_tid fr, m)
      | R_clear_tid \<Rightarrow>
          (rgoto R_barrier fr, be_pointer_write B this_thread_id (rec_thread_id fr) NULL m)
      | R_barrier \<Rightarrow> (rgoto R_publish fr, be_memory_barrier B this_thread_id m)
      | R_publish \<Rightarrow>
          (case mulle_atomic_pointer_compare_and_swap B ndebug this_thread_id (rec_state fr)
                  MULLE_THREAD_ONCE_DONE MULLE_THREAD_ONCE_BUSY m of
             Inl f \<Rightarrow> (rgoto R_abort fr, m)
           | Inr (r, m') \<Rightarrow> (rgoto R_ret fr, m'))
      | R_ret \<Rightarrow> (fr, m)
      | R_abort \<Rightarrow> (fr, m))"

text \<open>In the macro a thread that waited runs the loop's increment too, so it clears the id
  and tries to publish.\<close>

definition mulle_thread_once_do_recursive ::
  "backend \<Rightarrow> bool \<Rightarrow> tid \<Rightarrow> rec_frame \<Rightarrow> mem \<Rightarrow> rec_frame \<times> mem"
where
  "mulle_thread_once_do_recursive B ndebug tid fr m =
     (case rf_pc fr of
        R_read_tid \<Rightarrow>
          (case be_pointer_read B tid (rec_thread_id fr) m of
             (v, m') \<Rightarrow>
               if v = tid then (rgoto R_ret (fr\<lparr>rf_actual := MULLE_THREAD_ONCE_DONE\<rparr>), m')
               else (rgoto R_cas fr, m'))
      | R_cas \<Rightarrow>
          (case mulle_atomic_pointer_compare_and_swap_actual B tid (rec_state fr)
                  MULLE_THREAD_ONCE_BUSY MULLE_THREAD_ONCE_DATA m of
             (actual, m') \<Rightarrow>
               (let fr' = fr\<lparr>rf_actual := actual\<rparr> in
                if actual \<noteq> MULLE_THREAD_ONCE_DONE
                then if actual \<noteq> MULLE_THREAD_ONCE_DATA then (rgoto R_yield fr', m')
                     else (rgoto R_write_tid fr', m')
                else (rgoto R_ret fr', m')))
      | R_yield \<Rightarrow> (rgoto R_read fr, m)
      | R_read \<Rightarrow>
          (case be_pointer_read B tid (rec_state fr) m of
             (v, m') \<Rightarrow>
               if v \<noteq> MULLE_THREAD_ONCE_DONE then (rgoto R_yield fr, m')
               else (rgoto R_wait_barrier fr, m'))
      | R_wait_barrier \<Rightarrow> (rgoto R_clear_tid fr, be_memory_barrier B tid m)
      | R_write_tid \<Rightarrow> (rgoto R_call_init fr, be_pointer_write B tid (rec_thread_id fr) tid m)
      | R_call_init \<Rightarrow> (rgoto R_in_init fr, m)
      | R_in_init \<Rightarrow> (rgoto R_clear_tid fr, m)
      | R_clear_tid \<Rightarrow> (rgoto R_barrier fr, be_pointer_write B tid (rec_thread_id fr) NULL m)
      | R_barrier \<Rightarrow> (rgoto R_publish fr, be_memory_barrier B tid m)
      | R_publish \<Rightarrow>
          (case mulle_atomic_pointer_compare_and_swap B ndebug tid (rec_state fr)
                  MULLE_THREAD_ONCE_DONE MULLE_THREAD_ONCE_BUSY m of
             Inl f \<Rightarrow> (rgoto R_abort fr, m)
           | Inr (r, m') \<Rightarrow> (rgoto R_ret (fr\<lparr>rf_actual := MULLE_THREAD_ONCE_DONE\<rparr>), m'))
      | R_ret \<Rightarrow> (fr, m)
      | R_abort \<Rightarrow> (fr, m))"

definition rec_fn_step :: "backend \<Rightarrow> bool \<Rightarrow> tid \<Rightarrow> rec_frame \<Rightarrow> mem \<Rightarrow> rec_frame \<times> mem" where
  "rec_fn_step B ndebug t fr m =
     (case rf_fn fr of
        Call_recursive \<Rightarrow> mulle_thread_once_call_recursive B ndebug t fr m
      | Do_recursive \<Rightarrow> mulle_thread_once_do_recursive B ndebug t fr m)"

lemmas rec_fn_defs =
  rec_fn_step_def mulle_thread_once_call_recursive_def mulle_thread_once_do_recursive_def

definition rec_new_frame :: "rec_fn \<Rightarrow> nat \<Rightarrow> ptr \<Rightarrow> rec_frame" where
  "rec_new_frame f ob ui =
     \<lparr>rf_fn = f, rf_obj = ob, rf_userinfo = ui, rf_pc = R_read_tid, rf_actual = NULL\<rparr>"

text \<open>The convenience wrapper is a call of \<open>mulle_thread_once_call_recursive\<close> with \<open>NULL\<close>.\<close>

definition mulle_thread_once_recursive :: "nat \<Rightarrow> rec_frame" where
  "mulle_thread_once_recursive ob = rec_new_frame Call_recursive ob NULL"

subsection \<open>Threads\<close>

datatype rec_entry = Enter_call nat ptr | Enter nat | Enter_do nat

fun entry_frame :: "rec_entry \<Rightarrow> rec_frame" where
  "entry_frame (Enter_call ob ui) = rec_new_frame Call_recursive ob ui"
| "entry_frame (Enter ob) = mulle_thread_once_recursive ob"
| "entry_frame (Enter_do ob) = rec_new_frame Do_recursive ob NULL"

datatype rec_move = R_invoke tid rec_entry | R_step tid

text \<open>History: the calls of \<open>init\<close> with thread and argument, and how long the log was when it
  returned.\<close>

record rec_sys =
  rs_mem :: mem
  rs_stk :: "tid \<Rightarrow> rec_frame list"
  rs_calls :: "nat \<Rightarrow> (tid \<times> ptr) list"
  rs_rets :: "nat \<Rightarrow> nat list"

definition rec_may_call :: "rec_frame list \<Rightarrow> bool" where
  "rec_may_call st = (case st of [] \<Rightarrow> True | fr # _ \<Rightarrow> rf_pc fr = R_in_init)"

fun rec_exec :: "backend \<Rightarrow> bool \<Rightarrow> rec_move \<Rightarrow> rec_sys \<Rightarrow> rec_sys option" where
  "rec_exec B ndebug (R_invoke t e) s =
     (if t \<noteq> 0 \<and> rec_may_call (rs_stk s t)
      then Some (s\<lparr>rs_stk := (rs_stk s)(t := entry_frame e # rs_stk s t)\<rparr>) else None)"
| "rec_exec B ndebug (R_step t) s =
     (case rs_stk s t of
        [] \<Rightarrow> None
      | fr # rest \<Rightarrow>
          if rf_pc fr = R_abort then None
          else if rf_pc fr = R_ret then Some (s\<lparr>rs_stk := (rs_stk s)(t := rest)\<rparr>)
          else (case rec_fn_step B ndebug t fr (rs_mem s) of
            (fr', m') \<Rightarrow> Some (s\<lparr>
              rs_mem := m',
              rs_stk := (rs_stk s)(t := fr' # rest),
              rs_calls := (if rf_pc fr = R_call_init
                then (rs_calls s)(rf_obj fr := rs_calls s (rf_obj fr) @ [(t, rf_userinfo fr)])
                else rs_calls s),
              rs_rets := (if rf_pc fr = R_in_init
                then (rs_rets s)(rf_obj fr := rs_rets s (rf_obj fr) @ [length (log m')])
                else rs_rets s)\<rparr>)))"

fun rec_run :: "backend \<Rightarrow> bool \<Rightarrow> rec_move list \<Rightarrow> rec_sys \<Rightarrow> rec_sys option" where
  "rec_run B ndebug [] s = Some s"
| "rec_run B ndebug (mv # mvs) s =
     (case rec_exec B ndebug mv s of None \<Rightarrow> None | Some s' \<Rightarrow> rec_run B ndebug mvs s')"

definition rec_start :: "rec_sys \<Rightarrow> bool" where
  "rec_start s \<longleftrightarrow>
     (\<forall>ob. (cells (rs_mem s) (ob, 0), cells (rs_mem s) (ob, 1)) = MULLE_THREAD_ONCE_RECURSIVE_INIT) \<and>
     rs_stk s = (\<lambda>t. []) \<and> rs_calls s = (\<lambda>ob. []) \<and> rs_rets s = (\<lambda>ob. [])"

inductive rec_reach :: "backend \<Rightarrow> bool \<Rightarrow> rec_sys \<Rightarrow> bool" for B nd where
  rec_reach_start: "rec_start s \<Longrightarrow> rec_reach B nd s"
| rec_reach_step: "rec_reach B nd s \<Longrightarrow> rec_exec B nd mv s = Some s' \<Longrightarrow> rec_reach B nd s'"

lemma rec_run_reach:
  "rec_reach B nd s \<Longrightarrow> rec_run B nd mvs s = Some s' \<Longrightarrow> rec_reach B nd s'"
  by (induction mvs arbitrary: s) (auto split: option.splits intro: rec_reach_step)

definition rec_init_sys :: rec_sys where
  "rec_init_sys = \<lparr>rs_mem = \<lparr>cells = (\<lambda>_. 0), log = []\<rparr>, rs_stk = (\<lambda>t. []),
     rs_calls = (\<lambda>ob. []), rs_rets = (\<lambda>ob. [])\<rparr>"

lemma rec_init_reach: "rec_reach B nd rec_init_sys"
  by (rule rec_reach_start) (simp add: rec_start_def rec_init_sys_def
    MULLE_THREAD_ONCE_RECURSIVE_INIT_def MULLE_THREAD_ONCE_INIT_def MULLE_ATOMIC_POINTER_INIT_def)

subsection \<open>The protocol\<close>

text \<open>The points of thread \<open>t\<close>, its \<open>actual\<close>, the state \<open>w\<close> and the thread id \<open>i\<close> of the
  flag, before and after a step.\<close>

inductive rec_trans :: "tid \<Rightarrow> rec_pc \<Rightarrow> ptr \<Rightarrow> ptr \<Rightarrow> ptr \<Rightarrow> rec_pc \<Rightarrow> ptr \<Rightarrow> ptr \<Rightarrow> ptr \<Rightarrow> bool" for t where
  rt_recursive: "rec_trans t R_read_tid a w t R_ret a' w t"
| rt_other: "i \<noteq> t \<Longrightarrow> rec_trans t R_read_tid a w i R_cas a w i"
| rt_acquire: "rec_trans t R_cas a MULLE_THREAD_ONCE_DATA i
     R_write_tid MULLE_THREAD_ONCE_DATA MULLE_THREAD_ONCE_BUSY i"
| rt_skip: "rec_trans t R_cas a MULLE_THREAD_ONCE_DONE i R_ret a' MULLE_THREAD_ONCE_DONE i"
| rt_wait: "w \<noteq> MULLE_THREAD_ONCE_DATA \<Longrightarrow> w \<noteq> MULLE_THREAD_ONCE_DONE \<Longrightarrow>
     rec_trans t R_cas a w i R_yield w w i"
| rt_yield: "rec_trans t R_yield a w i R_read a w i"
| rt_again: "w \<noteq> MULLE_THREAD_ONCE_DONE \<Longrightarrow> rec_trans t R_read a w i R_yield a w i"
| rt_seen: "rec_trans t R_read a MULLE_THREAD_ONCE_DONE i R_wait_barrier a MULLE_THREAD_ONCE_DONE i"
| rt_leave: "p' = R_ret \<or> p' = R_clear_tid \<Longrightarrow> rec_trans t R_wait_barrier a w i p' a w i"
| rt_enter: "rec_trans t R_write_tid a w i R_call_init a w t"
| rt_call: "rec_trans t R_call_init a w i R_in_init a w i"
| rt_back: "rec_trans t R_in_init a w i R_clear_tid a w i"
| rt_clear: "rec_trans t R_clear_tid a w i R_barrier a w NULL"
| rt_fence: "rec_trans t R_barrier a w i R_publish a w i"
| rt_publish: "rec_trans t R_publish a MULLE_THREAD_ONCE_BUSY i R_ret a' MULLE_THREAD_ONCE_DONE i"
| rt_published: "w \<noteq> MULLE_THREAD_ONCE_BUSY \<Longrightarrow> rec_trans t R_publish a w i R_ret a' w i"

inductive_simps rec_trans_simps:
  "rec_trans t R_read_tid a w i p' a' w' i'"
  "rec_trans t R_cas a w i p' a' w' i'"
  "rec_trans t R_yield a w i p' a' w' i'"
  "rec_trans t R_read a w i p' a' w' i'"
  "rec_trans t R_wait_barrier a w i p' a' w' i'"
  "rec_trans t R_write_tid a w i p' a' w' i'"
  "rec_trans t R_call_init a w i p' a' w' i'"
  "rec_trans t R_in_init a w i p' a' w' i'"
  "rec_trans t R_clear_tid a w i p' a' w' i'"
  "rec_trans t R_barrier a w i p' a' w' i'"
  "rec_trans t R_publish a w i p' a' w' i'"
  "rec_trans t R_ret a w i p' a' w' i'"
  "rec_trans t R_abort a w i p' a' w' i'"

text \<open>The flag of a frame after a step: its two cells.\<close>

definition rec_same_call :: "rec_frame \<Rightarrow> rec_frame \<Rightarrow> bool" where
  "rec_same_call fr fr' \<longleftrightarrow> rf_fn fr' = rf_fn fr \<and> rf_obj fr' = rf_obj fr \<and>
     rf_userinfo fr' = rf_userinfo fr"

lemma rgoto_simps [simp]:
  "rf_fn (rgoto p fr) = rf_fn fr" "rf_obj (rgoto p fr) = rf_obj fr"
  "rf_userinfo (rgoto p fr) = rf_userinfo fr" "rf_pc (rgoto p fr) = p"
  "rf_actual (rgoto p fr) = rf_actual fr"
  by (simp_all add: rgoto_def)

lemma entry_frame_pc [simp]: "rf_pc (entry_frame e) = R_read_tid"
  by (cases e) (simp_all add: rec_new_frame_def mulle_thread_once_recursive_def)

lemma entry_frame_actual [simp]: "rf_actual (entry_frame e) = MULLE_THREAD_ONCE_DATA"
  by (cases e) (simp_all add: rec_new_frame_def mulle_thread_once_recursive_def
    MULLE_THREAD_ONCE_DATA_def)

context atomic_backend
begin

lemma rec_fn_step_refines:
  assumes step: "rec_fn_step B nd t fr m = (fr', m')" and pc: "rf_pc fr \<notin> {R_ret, R_abort}"
  shows "rec_same_call fr fr' \<and>
    rec_trans t (rf_pc fr) (rf_actual fr) (cells m (rec_state fr)) (cells m (rec_thread_id fr))
      (rf_pc fr') (rf_actual fr') (cells m' (rec_state fr)) (cells m' (rec_thread_id fr)) \<and>
    (\<forall>a. a \<noteq> rec_state fr \<longrightarrow> a \<noteq> rec_thread_id fr \<longrightarrow> cells m' a = cells m a)"
proof -
  obtain m2 where pub: "mulle_atomic_pointer_compare_and_swap B nd t (rec_state fr)
      MULLE_THREAD_ONCE_DONE MULLE_THREAD_ONCE_BUSY m =
      Inr (c_bool (cells m (rec_state fr) = MULLE_THREAD_ONCE_BUSY), m2)"
    and pub_cells: "cells m2 =
      cas_result m (rec_state fr) MULLE_THREAD_ONCE_DONE MULLE_THREAD_ONCE_BUSY"
    by (rule compare_and_swap_flagE [OF once_flags_distinct(6)])
  have ne: "rec_state fr \<noteq> rec_thread_id fr" by (simp add: rec_state_def rec_thread_id_def)
  note defs = Let_def case_prod_beta once_init_eq_data rec_same_call_def
    mulle_atomic_pointer_compare_and_swap_actual_def cas_result_def rec_trans_simps
  show ?thesis
  proof (cases "rf_pc fr")
    case R_publish
    then show ?thesis using step pub_cells ne
      by (cases "rf_fn fr") (auto simp: rec_fn_defs defs pub split: if_splits)
  qed (use step pc ne in
    \<open>cases "rf_fn fr"; auto simp: rec_fn_defs defs split: if_splits\<close>)+
qed

end

end
