(* ===== verification/Once_Recursive_Properties.thy ===== *)
theory Once_Recursive_Properties
  imports Once_Recursive
begin

text \<open>
  The invariant of recursive one-time initialization and what it guarantees: \<open>init\<close> runs at
  most once, a call returns only after it or from inside it, a thread never waits for
  itself, and no assertion fails.
\<close>

subsection \<open>The invariant\<close>

definition rec_owner :: "nat \<Rightarrow> rec_frame \<Rightarrow> bool" where
  "rec_owner ob fr \<longleftrightarrow> rf_obj fr = ob \<and> rf_actual fr = MULLE_THREAD_ONCE_DATA \<and>
     rf_pc fr \<in> {R_write_tid, R_call_init, R_in_init, R_clear_tid, R_barrier, R_publish}"

definition rec_owned :: "nat \<Rightarrow> rec_frame list \<Rightarrow> nat" where
  "rec_owned ob st = length (filter (rec_owner ob) st)"

lemma rec_owned_simps [simp]:
  "rec_owned ob [] = 0"
  "rec_owned ob (fr # st) = (if rec_owner ob fr then Suc (rec_owned ob st) else rec_owned ob st)"
  by (simp_all add: rec_owned_def)

lemma rec_owned_zero_iff: "rec_owned ob st = 0 \<longleftrightarrow> (\<forall>fr \<in> set st. \<not> rec_owner ob fr)"
  by (auto simp: rec_owned_def filter_empty_conv)

lemma rec_owned_nonzero: "rec_owned ob st \<noteq> 0 \<Longrightarrow> \<exists>g \<in> set st. rec_owner ob g"
  unfolding rec_owned_zero_iff by blast

text \<open>What the histories and the thread id of the flag are while the owner is at a point.\<close>

definition rec_calls_at :: "rec_pc \<Rightarrow> nat" where
  "rec_calls_at p = (if p \<in> {R_write_tid, R_call_init} then 0 else 1)"

definition rec_rets_at :: "rec_pc \<Rightarrow> nat" where
  "rec_rets_at p = (if p \<in> {R_write_tid, R_call_init, R_in_init} then 0 else 1)"

definition rec_id_at :: "rec_pc \<Rightarrow> tid \<Rightarrow> ptr" where
  "rec_id_at p t = (if p \<in> {R_call_init, R_in_init, R_clear_tid} then t else NULL)"

definition rec_flag :: "rec_sys \<Rightarrow> nat \<Rightarrow> ptr" where
  "rec_flag s ob = cells (rs_mem s) (ob, 0)"

definition rec_id :: "rec_sys \<Rightarrow> nat \<Rightarrow> ptr" where
  "rec_id s ob = cells (rs_mem s) (ob, 1)"

lemma rec_flag_stk [simp]: "rec_flag (s\<lparr>rs_stk := f\<rparr>) = rec_flag s" "rec_id (s\<lparr>rs_stk := f\<rparr>) = rec_id s"
  by (simp_all add: rec_flag_def rec_id_def fun_eq_iff)

definition rec_flag_inv :: "rec_sys \<Rightarrow> nat \<Rightarrow> bool" where
  "rec_flag_inv s ob \<longleftrightarrow>
     (rec_flag s ob = MULLE_THREAD_ONCE_DATA \<and> rec_id s ob = NULL \<and>
        rs_calls s ob = [] \<and> rs_rets s ob = [] \<and> (\<forall>t. rec_owned ob (rs_stk s t) = 0)) \<or>
     (rec_flag s ob = MULLE_THREAD_ONCE_BUSY \<and>
        (\<exists>t. rec_owned ob (rs_stk s t) = 1 \<and> (\<forall>t'. t' \<noteq> t \<longrightarrow> rec_owned ob (rs_stk s t') = 0)) \<and>
        (\<forall>t. \<forall>fr \<in> set (rs_stk s t). rec_owner ob fr \<longrightarrow>
           rec_id s ob = rec_id_at (rf_pc fr) t \<and>
           length (rs_calls s ob) = rec_calls_at (rf_pc fr) \<and>
           length (rs_rets s ob) = rec_rets_at (rf_pc fr))) \<or>
     (rec_flag s ob = MULLE_THREAD_ONCE_DONE \<and> rec_id s ob = NULL \<and>
        length (rs_calls s ob) = 1 \<and> length (rs_rets s ob) = 1 \<and>
        (\<forall>t. rec_owned ob (rs_stk s t) = 0))"

definition rec_frame_ok :: "ptr \<Rightarrow> rec_frame \<Rightarrow> bool" where
  "rec_frame_ok w fr \<longleftrightarrow>
     (case rf_pc fr of
        R_read_tid \<Rightarrow> rf_actual fr = MULLE_THREAD_ONCE_DATA
      | R_cas \<Rightarrow> rf_actual fr = MULLE_THREAD_ONCE_DATA
      | R_yield \<Rightarrow> rf_actual fr \<noteq> MULLE_THREAD_ONCE_DATA
      | R_read \<Rightarrow> rf_actual fr \<noteq> MULLE_THREAD_ONCE_DATA
      | R_wait_barrier \<Rightarrow> rf_actual fr \<noteq> MULLE_THREAD_ONCE_DATA \<and> w = MULLE_THREAD_ONCE_DONE
      | R_write_tid \<Rightarrow> rf_actual fr = MULLE_THREAD_ONCE_DATA
      | R_call_init \<Rightarrow> rf_actual fr = MULLE_THREAD_ONCE_DATA
      | R_in_init \<Rightarrow> rf_actual fr = MULLE_THREAD_ONCE_DATA
      | R_clear_tid \<Rightarrow> rf_actual fr \<noteq> MULLE_THREAD_ONCE_DATA \<longrightarrow> w = MULLE_THREAD_ONCE_DONE
      | R_barrier \<Rightarrow> rf_actual fr \<noteq> MULLE_THREAD_ONCE_DATA \<longrightarrow> w = MULLE_THREAD_ONCE_DONE
      | R_publish \<Rightarrow> rf_actual fr \<noteq> MULLE_THREAD_ONCE_DATA \<longrightarrow> w = MULLE_THREAD_ONCE_DONE
      | R_ret \<Rightarrow> True
      | R_abort \<Rightarrow> False)"

text \<open>The top of a stack: a call that got past the test of the thread id doesn't own the
  flag further down, and a call returns from a finished initialization or into its own.\<close>

definition rec_top_ok :: "rec_sys \<Rightarrow> rec_frame list \<Rightarrow> bool" where
  "rec_top_ok s st = (case st of [] \<Rightarrow> True
     | fr # rest \<Rightarrow>
        (rf_pc fr \<in> {R_cas, R_yield, R_read} \<longrightarrow> rec_owned (rf_obj fr) rest = 0) \<and>
        (rf_pc fr = R_ret \<longrightarrow>
          rec_flag s (rf_obj fr) = MULLE_THREAD_ONCE_DONE \<or> rec_owned (rf_obj fr) rest \<noteq> 0))"

definition rec_stack_ok :: "rec_sys \<Rightarrow> rec_frame list \<Rightarrow> bool" where
  "rec_stack_ok s st \<longleftrightarrow> (\<forall>fr \<in> set (tl st). rf_pc fr = R_in_init) \<and>
     (\<forall>fr \<in> set st. rec_frame_ok (rec_flag s (rf_obj fr)) fr) \<and> rec_top_ok s st"

definition rec_inv :: "rec_sys \<Rightarrow> bool" where
  "rec_inv s \<longleftrightarrow> (\<forall>ob. rec_flag_inv s ob) \<and> (\<forall>t. rec_stack_ok s (rs_stk s t)) \<and> rs_stk s 0 = []"

lemma rec_top_ok_mono:
  "rec_top_ok s st \<Longrightarrow>
     (\<And>ob. rec_flag s ob = MULLE_THREAD_ONCE_DONE \<Longrightarrow> rec_flag s' ob = MULLE_THREAD_ONCE_DONE) \<Longrightarrow>
     rec_top_ok s' st"
  by (cases st) (auto simp: rec_top_ok_def)

lemma rec_start_inv: "rec_start s \<Longrightarrow> rec_inv s"
  by (simp add: rec_start_def rec_inv_def rec_flag_inv_def rec_flag_def rec_id_def rec_stack_ok_def
    rec_top_ok_def MULLE_THREAD_ONCE_RECURSIVE_INIT_def once_init_eq_data MULLE_ATOMIC_POINTER_INIT_def)

lemma rec_flag_inv_cong:
  assumes "rec_flag_inv s ob" and "rec_flag s' ob = rec_flag s ob" and "rec_id s' ob = rec_id s ob"
    and "rs_calls s' ob = rs_calls s ob" and "rs_rets s' ob = rs_rets s ob"
    and own: "\<And>t. filter (rec_owner ob) (rs_stk s' t) = filter (rec_owner ob) (rs_stk s t)"
  shows "rec_flag_inv s' ob"
proof -
  have owned: "rec_owned ob (rs_stk s' t) = rec_owned ob (rs_stk s t)" for t
    by (simp add: rec_owned_def own)
  have mem: "fr \<in> set (rs_stk s' t) \<and> rec_owner ob fr \<longleftrightarrow>
      fr \<in> set (rs_stk s t) \<and> rec_owner ob fr" for fr t
    using arg_cong [OF own [of t], of set] by auto
  show ?thesis
    using assms(1) mem unfolding rec_flag_inv_def owned assms(2,3,4,5) by meson
qed

lemma rec_frame_ok_not_DONE:
  "rec_frame_ok w fr \<Longrightarrow> w \<noteq> MULLE_THREAD_ONCE_DONE \<Longrightarrow> rec_frame_ok w' fr"
  by (auto simp: rec_frame_ok_def split: rec_pc.splits)

lemma rec_flag_inv_owner:
  assumes "rec_flag_inv s ob" and "fr \<in> set (rs_stk s t)" and "rec_owner ob fr"
  shows "rec_flag s ob = MULLE_THREAD_ONCE_BUSY" and "rec_owned ob (rs_stk s t) = 1"
    and "t' \<noteq> t \<Longrightarrow> rec_owned ob (rs_stk s t') = 0"
    and "rec_id s ob = rec_id_at (rf_pc fr) t"
    and "length (rs_calls s ob) = rec_calls_at (rf_pc fr)"
    and "length (rs_rets s ob) = rec_rets_at (rf_pc fr)"
proof -
  have "rec_owned ob (rs_stk s t) \<noteq> 0"
    using assms(2,3) by (auto simp: rec_owned_zero_iff)
  moreover have "t' \<noteq> t \<Longrightarrow> rec_owned ob (rs_stk s t') = 0"
    if "rec_owned ob (rs_stk s t0) = 1" "\<forall>t'. t' \<noteq> t0 \<longrightarrow> rec_owned ob (rs_stk s t') = 0" for t0
    using that calculation by metis
  ultimately show "rec_flag s ob = MULLE_THREAD_ONCE_BUSY" "rec_owned ob (rs_stk s t) = 1"
    "t' \<noteq> t \<Longrightarrow> rec_owned ob (rs_stk s t') = 0" "rec_id s ob = rec_id_at (rf_pc fr) t"
    "length (rs_calls s ob) = rec_calls_at (rf_pc fr)" "length (rs_rets s ob) = rec_rets_at (rf_pc fr)"
    using assms unfolding rec_flag_inv_def by (metis One_nat_def)+
qed

text \<open>The id of the flag is that of a running thread exactly inside its initialization.\<close>

lemma rec_id_owner:
  assumes "rec_flag_inv s ob" and "rec_id s ob = t" and "t \<noteq> 0"
  shows "rec_owned ob (rs_stk s t) \<noteq> 0"
proof (rule ccontr)
  assume no: "\<not> rec_owned ob (rs_stk s t) \<noteq> 0"
  from assms obtain u where "rec_owned ob (rs_stk s u) = 1"
    "\<forall>t. \<forall>fr \<in> set (rs_stk s t). rec_owner ob fr \<longrightarrow> rec_id s ob = rec_id_at (rf_pc fr) t"
    unfolding rec_flag_inv_def by auto
  then obtain fr where "fr \<in> set (rs_stk s u)" "rec_owner ob fr" "rec_id s ob = rec_id_at (rf_pc fr) u"
    by (metis One_nat_def rec_owned_zero_iff nat.distinct(1))
  with assms no show False
    by (auto simp: rec_id_at_def rec_owned_zero_iff split: if_splits)
qed

subsection \<open>Preservation\<close>

lemma rec_invoke_inv:
  assumes inv: "rec_inv s" and ex: "rec_exec B nd (R_invoke t e) s = Some s'"
  shows "rec_inv s'"
proof -
  have s': "s' = s\<lparr>rs_stk := (rs_stk s)(t := entry_frame e # rs_stk s t)\<rparr>"
    and may: "rec_may_call (rs_stk s t)" and t: "t \<noteq> 0"
    using ex by (auto split: if_splits)
  have no: "\<not> rec_owner ob (entry_frame e)" for ob by (simp add: rec_owner_def)
  have st: "rec_stack_ok s (rs_stk s t')" for t' using inv by (simp add: rec_inv_def)
  have "\<forall>fr \<in> set (rs_stk s t). rf_pc fr = R_in_init"
    using st [of t] may by (cases "rs_stk s t") (auto simp: rec_stack_ok_def rec_may_call_def)
  then have "rec_stack_ok s' (rs_stk s' t')" for t'
    using st [of t'] unfolding rec_stack_ok_def s'
    by (auto simp: rec_frame_ok_def rec_top_ok_def split: list.splits)
  moreover have "rec_flag_inv s' ob" for ob
    by (rule rec_flag_inv_cong [of s]) (use inv in \<open>auto simp: rec_inv_def no s'\<close>)
  ultimately show ?thesis using inv t by (simp add: rec_inv_def s')
qed

definition rec_after :: "tid \<Rightarrow> rec_frame \<Rightarrow> rec_frame list \<Rightarrow> rec_frame \<Rightarrow> mem \<Rightarrow> rec_sys \<Rightarrow> rec_sys" where
  "rec_after t fr rest fr' m' s = s\<lparr>
     rs_mem := m',
     rs_stk := (rs_stk s)(t := fr' # rest),
     rs_calls := (if rf_pc fr = R_call_init
       then (rs_calls s)(rf_obj fr := rs_calls s (rf_obj fr) @ [(t, rf_userinfo fr)]) else rs_calls s),
     rs_rets := (if rf_pc fr = R_in_init
       then (rs_rets s)(rf_obj fr := rs_rets s (rf_obj fr) @ [length (log m')]) else rs_rets s)\<rparr>"

lemma rec_exec_StepE:
  assumes "rec_exec B nd (R_step t) s = Some s'"
  obtains fr rest where "rs_stk s t = fr # rest" and "rf_pc fr = R_ret"
      and "s' = s\<lparr>rs_stk := (rs_stk s)(t := rest)\<rparr>"
    | fr rest fr' m' where "rs_stk s t = fr # rest" and "rf_pc fr \<notin> {R_ret, R_abort}"
      and "rec_fn_step B nd t fr (rs_mem s) = (fr', m')" and "s' = rec_after t fr rest fr' m' s"
  using assms by (auto simp: rec_after_def split: list.splits if_splits prod.splits)

lemma rec_pop_inv:
  assumes inv: "rec_inv s" and st: "rs_stk s t = fr # rest" and pc: "rf_pc fr = R_ret"
  shows "rec_inv (s\<lparr>rs_stk := (rs_stk s)(t := rest)\<rparr>)" (is "rec_inv ?s")
proof -
  have ok: "rec_stack_ok s (rs_stk s t')" for t' using inv by (simp add: rec_inv_def)
  have "rec_stack_ok ?s (rs_stk ?s t')" for t'
  proof (cases "t' = t")
    case True
    have "\<forall>g \<in> set rest. rf_pc g = R_in_init"
      using ok [of t] by (simp add: st rec_stack_ok_def)
    moreover have "\<forall>g \<in> set rest. rec_frame_ok (rec_flag s (rf_obj g)) g"
      using ok [of t] by (simp add: st rec_stack_ok_def)
    ultimately show ?thesis
      by (cases rest) (auto simp: True rec_stack_ok_def rec_top_ok_def)
  next
    case False
    then show ?thesis using ok [of t'] rec_top_ok_mono [of s _ ?s] by (simp add: rec_stack_ok_def)
  qed
  moreover have "rec_flag_inv ?s ob" for ob
    by (rule rec_flag_inv_cong [of s]) (use inv pc in \<open>auto simp: rec_inv_def st rec_owner_def\<close>)
  moreover have "rs_stk s 0 = []" using inv by (simp add: rec_inv_def)
  ultimately show ?thesis using st by (auto simp: rec_inv_def)
qed

lemma rec_trans_flag:
  "rec_trans t p a w i p' a' w' i' \<Longrightarrow> w' = w \<or> w \<noteq> MULLE_THREAD_ONCE_DONE"
  by (erule rec_trans.cases) simp_all

text \<open>The steps of an owner and of everyone else.\<close>

lemma rec_trans_owner:
  assumes "rec_trans t (rf_pc fr) (rf_actual fr) MULLE_THREAD_ONCE_BUSY (rec_id_at (rf_pc fr) t)
      (rf_pc fr') (rf_actual fr') w' i'"
    and "rec_same_call fr fr'" and "rec_owner ob fr"
  shows "i' = rec_id_at (rf_pc fr') t \<and>
    (rf_pc fr = R_publish \<and> rf_pc fr' = R_ret \<and> w' = MULLE_THREAD_ONCE_DONE \<or>
     rec_owner ob fr' \<and> w' = MULLE_THREAD_ONCE_BUSY \<and>
      (rf_pc fr, rf_pc fr') \<in> {(R_write_tid, R_call_init), (R_call_init, R_in_init),
        (R_in_init, R_clear_tid), (R_clear_tid, R_barrier), (R_barrier, R_publish)})"
  using assms
  by (auto simp: rec_owner_def rec_trans_simps rec_same_call_def rec_id_at_def)

lemma rec_trans_not_owner:
  assumes "rec_trans t (rf_pc fr) (rf_actual fr) w i (rf_pc fr') (rf_actual fr') w' i'"
    and "rec_same_call fr fr'" and "rec_frame_ok w fr" and "\<not> rec_owner (rf_obj fr) fr"
    and "w = MULLE_THREAD_ONCE_DONE \<Longrightarrow> i = NULL"
  shows "(w = MULLE_THREAD_ONCE_DATA \<and> w' = MULLE_THREAD_ONCE_BUSY \<and> i' = i \<and> rf_pc fr = R_cas \<and>
      rf_pc fr' = R_write_tid \<and> rec_owner (rf_obj fr) fr') \<or>
    (w' = w \<and> i' = i \<and> \<not> rec_owner (rf_obj fr) fr' \<and> rf_pc fr \<notin> {R_call_init, R_in_init})"
  using assms
  by (cases "rf_pc fr") (auto simp: rec_owner_def rec_trans_simps rec_same_call_def rec_frame_ok_def)

lemma rec_trans_frame_ok:
  assumes "rec_trans t (rf_pc fr) (rf_actual fr) w i (rf_pc fr') (rf_actual fr') w' i'"
    and "rec_same_call fr fr'" and "rec_frame_ok w fr"
    and "rec_owner (rf_obj fr) fr \<Longrightarrow> w = MULLE_THREAD_ONCE_BUSY"
  shows "rec_frame_ok w' fr'"
  using assms
  by (cases "rf_pc fr")
    (auto simp: rec_trans_simps rec_frame_ok_def rec_same_call_def rec_owner_def)

lemma rec_after_flag_inv:
  assumes inv: "rec_flag_inv s ob" and st: "rs_stk s t = fr # rest" and ob: "rf_obj fr = ob"
    and tr: "rec_trans t (rf_pc fr) (rf_actual fr) (rec_flag s ob) (rec_id s ob)
      (rf_pc fr') (rf_actual fr') (cells m' (ob, 0)) (cells m' (ob, 1))"
    and same: "rec_same_call fr fr'" and ok: "rec_frame_ok (rec_flag s ob) fr"
  shows "rec_flag_inv (rec_after t fr rest fr' m' s) ob" (is "rec_flag_inv ?s ob")
proof (cases "rec_owner ob fr")
  case True
  have mem: "fr \<in> set (rs_stk s t)" by (simp add: st)
  note own = rec_flag_inv_owner [OF inv mem True]
  have rest: "rec_owned ob rest = 0" using own(2) True by (simp add: st)
  have only: "t' = t \<and> g = fr'" if "g \<in> set (rs_stk ?s t')" "rec_owner ob g" for g t'
    using that own(3) [of t'] rest
    by (auto simp: rec_after_def rec_owned_zero_iff split: if_splits)
  from rec_trans_owner [OF tr [unfolded own(1,4)] same True] show ?thesis
  proof (elim disjE conjE)
    assume p: "rf_pc fr = R_publish" "rf_pc fr' = R_ret" "cells m' (ob, 0) = MULLE_THREAD_ONCE_DONE"
      "cells m' (ob, 1) = rec_id_at (rf_pc fr') t"
    have "\<not> rec_owner ob fr'" by (simp add: rec_owner_def p)
    then have "rec_owned ob (rs_stk ?s t') = 0" for t'
      using own(3) [of t'] rest by (simp add: rec_after_def)
    then show ?thesis using p own(5,6)
      by (simp add: rec_flag_inv_def rec_flag_def rec_id_def rec_after_def rec_calls_at_def
        rec_rets_at_def rec_id_at_def)
  next
    assume p: "cells m' (ob, 1) = rec_id_at (rf_pc fr') t" "rec_owner ob fr'"
      "cells m' (ob, 0) = MULLE_THREAD_ONCE_BUSY"
      "(rf_pc fr, rf_pc fr') \<in> {(R_write_tid, R_call_init), (R_call_init, R_in_init),
        (R_in_init, R_clear_tid), (R_clear_tid, R_barrier), (R_barrier, R_publish)}"
    have "rec_owned ob (rs_stk ?s t) = 1" "t' \<noteq> t \<Longrightarrow> rec_owned ob (rs_stk ?s t') = 0" for t'
      using own(3) [of t'] rest p(2) by (simp_all add: rec_after_def)
    moreover have "length (rs_calls ?s ob) = rec_calls_at (rf_pc fr')"
      "length (rs_rets ?s ob) = rec_rets_at (rf_pc fr')"
      using own(5,6) p(4) ob by (auto simp: rec_after_def rec_calls_at_def rec_rets_at_def)
    moreover have "rec_flag ?s ob = MULLE_THREAD_ONCE_BUSY" "rec_id ?s ob = rec_id_at (rf_pc fr') t"
      using p(1,3) by (simp_all add: rec_flag_def rec_id_def rec_after_def)
    ultimately show ?thesis
      unfolding rec_flag_inv_def using only by blast
  qed
next
  case False
  have done_id: "rec_flag s ob = MULLE_THREAD_ONCE_DONE \<Longrightarrow> rec_id s ob = NULL"
    using inv by (auto simp: rec_flag_inv_def)
  from rec_trans_not_owner [OF tr same ok _ done_id] False ob
  consider (acquire) "rec_flag s ob = MULLE_THREAD_ONCE_DATA"
      "cells m' (ob, 0) = MULLE_THREAD_ONCE_BUSY" "cells m' (ob, 1) = rec_id s ob"
      "rf_pc fr = R_cas" "rf_pc fr' = R_write_tid" "rec_owner ob fr'"
    | (keep) "cells m' (ob, 0) = rec_flag s ob" "cells m' (ob, 1) = rec_id s ob"
      "\<not> rec_owner ob fr'" "rf_pc fr \<notin> {R_call_init, R_in_init}"
    by auto
  then show ?thesis
  proof cases
    case acquire
    then have zero: "rs_calls s ob = []" "rs_rets s ob = []" "rec_id s ob = NULL"
        "\<And>t. rec_owned ob (rs_stk s t) = 0"
      using inv by (auto simp: rec_flag_inv_def)
    have rest: "rec_owned ob rest = 0"
      using zero(4) [of t] False by (auto simp: st)
    have only: "t' = t \<and> g = fr'" if "g \<in> set (rs_stk ?s t')" "rec_owner ob g" for g t'
      using that zero(4) [of t'] rest
      by (auto simp: rec_after_def rec_owned_zero_iff split: if_splits)
    have "rec_owned ob (rs_stk ?s t) = 1" "t' \<noteq> t \<Longrightarrow> rec_owned ob (rs_stk ?s t') = 0" for t'
      using zero rest acquire(6) by (simp_all add: rec_after_def)
    moreover have "length (rs_calls ?s ob) = rec_calls_at (rf_pc fr')"
      "length (rs_rets ?s ob) = rec_rets_at (rf_pc fr')"
      using zero acquire by (auto simp: rec_after_def rec_calls_at_def rec_rets_at_def)
    moreover have "rec_flag ?s ob = MULLE_THREAD_ONCE_BUSY" "rec_id ?s ob = rec_id_at (rf_pc fr') t"
      using acquire zero(3) by (simp_all add: rec_flag_def rec_id_def rec_after_def rec_id_at_def)
    ultimately show ?thesis
      unfolding rec_flag_inv_def using only by blast
  next
    case keep
    then show ?thesis
      by (intro rec_flag_inv_cong [OF inv])
        (use False in \<open>auto simp: rec_after_def rec_flag_def rec_id_def st\<close>)
  qed
qed

text \<open>The top frame after a step.\<close>

lemma rec_after_top_ok:
  assumes inv: "rec_flag_inv s ob" and ok: "rec_stack_ok s (fr # rest)" and st: "rs_stk s t = fr # rest"
    and t: "t \<noteq> 0" and ob: "rf_obj fr = ob"
    and tr: "rec_trans t (rf_pc fr) (rf_actual fr) (rec_flag s ob) (rec_id s ob)
      (rf_pc fr') (rf_actual fr') (rec_flag s' ob) i'"
    and same: "rec_same_call fr fr'"
  shows "rec_top_ok s' (fr' # rest)"
proof -
  have fok: "rec_frame_ok (rec_flag s ob) fr"
    and top: "rf_pc fr \<in> {R_cas, R_yield, R_read} \<Longrightarrow> rec_owned ob rest = 0"
    and down: "\<forall>g \<in> set rest. rf_pc g = R_in_init"
    using ok ob by (auto simp: rec_stack_ok_def rec_top_ok_def)
  have own: "rec_owner ob fr \<Longrightarrow> rec_flag s ob = MULLE_THREAD_ONCE_BUSY"
    using rec_flag_inv_owner(1) [OF inv, of fr t] st by simp
  have id_rest: "rec_id s ob = t" if nz: "rec_owned ob rest \<noteq> 0"
  proof -
    obtain g where "g \<in> set rest" "rec_owner ob g" using rec_owned_nonzero [OF nz] by blast
    then show ?thesis
      using rec_flag_inv_owner(4) [OF inv, of g t] down st by (simp add: rec_id_at_def)
  qed
  have rest_id: "rec_owned ob rest \<noteq> 0" if "rec_id s ob = t" "rf_pc fr = R_read_tid"
    using rec_id_owner [OF inv that(1) t] that(2) by (simp add: st rec_owner_def split: if_splits)
  have "rf_obj fr' = ob" using same ob by (simp add: rec_same_call_def)
  then show ?thesis
    using tr fok top own id_rest rest_id ob
    by (cases "rf_pc fr") (auto simp: rec_top_ok_def rec_trans_simps rec_frame_ok_def rec_owner_def)
qed

context atomic_backend
begin

lemma rec_step_inv:
  assumes inv: "rec_inv s" and st: "rs_stk s t = fr # rest" and pc: "rf_pc fr \<notin> {R_ret, R_abort}"
    and step: "rec_fn_step B nd t fr (rs_mem s) = (fr', m')"
  shows "rec_inv (rec_after t fr rest fr' m' s)" (is "rec_inv ?s")
proof -
  define ob where "ob = rf_obj fr"
  have fi: "rec_flag_inv s ob'" and so: "rec_stack_ok s (rs_stk s t')" for ob' t'
    using inv by (auto simp: rec_inv_def)
  have t: "t \<noteq> 0" using inv st by (auto simp: rec_inv_def)
  have ok: "rec_frame_ok (rec_flag s ob) fr"
    using so [of t] by (simp add: st rec_stack_ok_def ob_def)
  note ref = rec_fn_step_refines [OF step pc]
  have same: "rec_same_call fr fr'" using ref by blast
  have tr: "rec_trans t (rf_pc fr) (rf_actual fr) (rec_flag s ob) (rec_id s ob)
      (rf_pc fr') (rf_actual fr') (cells m' (ob, 0)) (cells m' (ob, 1))"
    using ref by (simp add: rec_flag_def rec_id_def rec_state_def rec_thread_id_def ob_def)
  have flag_s: "rec_flag ?s = (\<lambda>ob. cells m' (ob, 0))" "rec_id ?s = (\<lambda>ob. cells m' (ob, 1))"
    by (auto simp: rec_flag_def rec_id_def rec_after_def)
  have other: "rec_flag ?s ob' = rec_flag s ob'" "rec_id ?s ob' = rec_id s ob'" if "ob' \<noteq> ob" for ob'
    using ref that by (simp_all add: flag_s rec_flag_def rec_id_def rec_state_def rec_thread_id_def ob_def)
  have flags: "rec_flag_inv ?s ob'" for ob'
  proof (cases "ob' = ob")
    case True
    then show ?thesis
      using rec_after_flag_inv [OF fi st _ _ same, of ob] tr ok by (simp add: ob_def)
  next
    case False
    then have "\<not> rec_owner ob' fr" "\<not> rec_owner ob' fr'"
      using same by (auto simp: rec_owner_def ob_def rec_same_call_def)
    then show ?thesis
      by (intro rec_flag_inv_cong [OF fi])
        (use False other in \<open>auto simp: rec_after_def st ob_def\<close>)
  qed
  have own: "rec_owner (rf_obj fr) fr \<Longrightarrow> rec_flag s ob = MULLE_THREAD_ONCE_BUSY"
    using rec_flag_inv_owner(1) [OF fi, of fr t] st by (simp add: ob_def)
  have ok_new: "rec_frame_ok (rec_flag ?s (rf_obj fr')) fr'"
    using rec_trans_frame_ok [OF tr same ok own] same by (simp add: rec_same_call_def ob_def flag_s)
  have mono: "rec_flag ?s ob' = rec_flag s ob' \<or> rec_flag s ob' \<noteq> MULLE_THREAD_ONCE_DONE" for ob'
    using rec_trans_flag [OF tr] other(1) [of ob'] by (cases "ob' = ob") (auto simp: flag_s)
  have ok_other: "rec_frame_ok (rec_flag ?s (rf_obj g)) g" if "rec_frame_ok (rec_flag s (rf_obj g)) g" for g
    using that mono [of "rf_obj g"] rec_frame_ok_not_DONE by metis
  have top_other: "rec_top_ok ?s st'" if "rec_top_ok s st'" for st'
    using rec_top_ok_mono [OF that] mono by metis
  have top: "rec_top_ok ?s (fr' # rest)"
    using rec_after_top_ok [OF fi so [of t, unfolded st] st t _ _ same, of ob ?s] tr
    by (simp add: ob_def flag_s)
  have "rec_stack_ok ?s (rs_stk ?s t')" for t'
  proof (cases "t' = t")
    case True
    then show ?thesis
      using so [of t] ok_new ok_other top by (auto simp: rec_stack_ok_def rec_after_def st)
  next
    case False
    then have "rs_stk ?s t' = rs_stk s t'" by (simp add: rec_after_def)
    then show ?thesis using so [of t'] ok_other top_other by (auto simp: rec_stack_ok_def)
  qed
  with flags inv t show ?thesis by (simp add: rec_inv_def rec_after_def)
qed

theorem rec_reach_inv: "rec_reach B nd s \<Longrightarrow> rec_inv s"
proof (induction rule: rec_reach.induct)
  case (rec_reach_start s)
  then show ?case by (rule rec_start_inv)
next
  case (rec_reach_step s mv s')
  then show ?case
  proof (cases mv)
    case (R_invoke t e)
    with rec_reach_step show ?thesis by (auto intro: rec_invoke_inv simp del: rec_exec.simps)
  next
    case (R_step t)
    with rec_reach_step have "rec_exec B nd (R_step t) s = Some s'" by simp
    then show ?thesis
      by (cases rule: rec_exec_StepE)
        (auto intro: rec_pop_inv rec_step_inv rec_reach_step.IH)
  qed
qed

end

subsection \<open>Properties\<close>

lemma rec_inv_histories:
  assumes "rec_inv s"
  shows "length (rs_rets s ob) \<le> length (rs_calls s ob) \<and> length (rs_calls s ob) \<le> 1"
proof -
  have inv: "rec_flag_inv s ob" using assms by (simp add: rec_inv_def)
  show ?thesis
  proof (cases "\<exists>t. rec_owned ob (rs_stk s t) \<noteq> 0")
    case True
    then obtain t fr where "fr \<in> set (rs_stk s t)" "rec_owner ob fr"
      by (auto simp: rec_owned_zero_iff)
    from rec_flag_inv_owner(5,6) [OF inv this] show ?thesis
      by (simp add: rec_calls_at_def rec_rets_at_def)
  next
    case False
    with inv show ?thesis by (auto simp: rec_flag_inv_def)
  qed
qed

lemma rec_in_init_owner:
  "rec_stack_ok s (rs_stk s t) \<Longrightarrow> g \<in> set (rs_stk s t) \<Longrightarrow> rf_pc g = R_in_init \<Longrightarrow>
     rec_owner (rf_obj g) g"
  by (auto simp: rec_stack_ok_def rec_frame_ok_def rec_owner_def)

text \<open>Example: thread 1 is inside \<open>init\<close> of flag 0, thread 2 waits.\<close>

definition rec_example :: "rec_move list" where
  "rec_example = [R_invoke 1 (Enter_call 0 7), R_step 1, R_step 1, R_step 1, R_step 1,
     R_invoke 2 (Enter_do 0), R_step 2, R_step 2]"

definition rec_example_end :: "rec_move list" where
  "rec_example_end = rec_example @ [R_step 2, R_step 1, R_step 1, R_step 1, R_step 1, R_step 2]"

definition rec_view :: "rec_sys \<Rightarrow> rec_pc list \<times> rec_pc list \<times> ptr \<times> ptr" where
  "rec_view s = (map rf_pc (rs_stk s 1), map rf_pc (rs_stk s 2), rec_flag s 0, rec_id s 0)"

lemma rec_example_reach:
  obtains s fr g where "rec_reach c11_backend False s"
    "rec_run c11_backend False rec_example rec_init_sys = Some s"
    "rs_stk s 1 = [fr]" "rf_pc fr = R_in_init" "rf_obj fr = 0"
    "rs_stk s 2 = [g]" "rf_pc g = R_yield" "rf_obj g = 0" "rec_flag s 0 = MULLE_THREAD_ONCE_BUSY"
proof -
  have v: "map_option (\<lambda>s. (rec_view s, map rf_obj (rs_stk s 1), map rf_obj (rs_stk s 2)))
      (rec_run c11_backend False rec_example rec_init_sys) =
      Some (([R_in_init], [R_yield], 1848, 1), [0], [0])"
    by code_simp
  then obtain s where s: "rec_run c11_backend False rec_example rec_init_sys = Some s"
    "rec_view s = ([R_in_init], [R_yield], 1848, 1)" "map rf_obj (rs_stk s 1) = [0]"
    "map rf_obj (rs_stk s 2) = [0]"
    by auto
  then show ?thesis
    using that [OF rec_run_reach [OF rec_init_reach s(1)] s(1)]
    by (auto simp: rec_view_def MULLE_THREAD_ONCE_BUSY_def)
qed

lemma rec_example_end_reach:
  obtains s fr where "rec_reach c11_backend False s"
    "rec_run c11_backend False rec_example_end rec_init_sys = Some s"
    "rs_stk s 1 = [fr]" "rf_pc fr = R_ret" "rf_obj fr = 0" "rs_calls s 0 \<noteq> []"
proof -
  have v: "map_option (\<lambda>s. (map rf_pc (rs_stk s 1), map rf_obj (rs_stk s 1), rs_calls s 0))
      (rec_run c11_backend False rec_example_end rec_init_sys) = Some ([R_ret], [0], [(1, 7)])"
    by code_simp
  then obtain s where s: "rec_run c11_backend False rec_example_end rec_init_sys = Some s"
    "map rf_pc (rs_stk s 1) = [R_ret]" "map rf_obj (rs_stk s 1) = [0]" "rs_calls s 0 = [(1, 7)]"
    by auto
  then show ?thesis
    using that [OF rec_run_reach [OF rec_init_reach s(1)] s(1)] by auto
qed

text \<open>C8: the \<open>init\<close> of a recursive once flag is called at most once, also when it calls the
  once function on its own flag again, and returns at most as often.\<close>

theorem rec_init_at_most_once:
  assumes "rec_reach c11_backend nd s"
  shows "length (rs_rets s ob) \<le> length (rs_calls s ob) \<and> length (rs_calls s ob) \<le> 1"
  by (rule rec_inv_histories [OF c11.rec_reach_inv [OF assms]])

theorem rec_init_at_most_once_witness:
  "\<exists>s. rec_run c11_backend False rec_example_end rec_init_sys = Some s \<and> rs_calls s 0 \<noteq> [] \<and>
     length (rs_rets s 0) \<le> length (rs_calls s 0) \<and> length (rs_calls s 0) \<le> 1"
proof -
  obtain s fr where s: "rec_reach c11_backend False s"
    "rec_run c11_backend False rec_example_end rec_init_sys = Some s" "rs_calls s 0 \<noteq> []"
    by (rule rec_example_end_reach)
  show ?thesis using rec_init_at_most_once [OF s(1), of 0] s(2,3) by blast
qed

text \<open>C9: a call on a recursive once flag returns in one of two situations: the flag is DONE,
  \<open>init\<close> having been called and having returned exactly once, or the call was made from
  inside the unfinished \<open>init\<close> of the same flag by the same thread.\<close>

theorem rec_return_means_initialized:
  assumes "rec_reach c11_backend nd s" and "rs_stk s t = fr # rest" and "rf_pc fr = R_ret"
  shows "(rec_flag s (rf_obj fr) = MULLE_THREAD_ONCE_DONE \<and>
      length (rs_calls s (rf_obj fr)) = 1 \<and> length (rs_rets s (rf_obj fr)) = 1) \<or>
    (rec_flag s (rf_obj fr) = MULLE_THREAD_ONCE_BUSY \<and> rs_rets s (rf_obj fr) = [] \<and>
      (\<exists>g \<in> set rest. rf_obj g = rf_obj fr \<and> rf_pc g = R_in_init))"
proof -
  let ?ob = "rf_obj fr"
  have inv: "rec_flag_inv s ?ob" and ok: "rec_stack_ok s (fr # rest)"
    using c11.rec_reach_inv [OF assms(1)] assms(2) by (auto simp: rec_inv_def dest: spec [of _ t])
  show ?thesis
  proof (cases "rec_owned ?ob rest = 0")
    case True
    then have "rec_flag s ?ob = MULLE_THREAD_ONCE_DONE"
      using ok assms(3) by (simp add: rec_stack_ok_def rec_top_ok_def)
    with inv show ?thesis by (auto simp: rec_flag_inv_def)
  next
    case False
    then obtain g where g: "g \<in> set rest" "rec_owner ?ob g" using rec_owned_nonzero by blast
    then have "rf_pc g = R_in_init" using ok by (simp add: rec_stack_ok_def)
    with g rec_flag_inv_owner(1,6) [OF inv, of g t] assms(2) show ?thesis
      by (auto simp: rec_owner_def rec_rets_at_def)
  qed
qed

theorem rec_return_means_initialized_witness:
  "\<exists>s fr. rec_run c11_backend False rec_example_end rec_init_sys = Some s \<and> rs_stk s 1 = [fr] \<and>
     rec_flag s (rf_obj fr) = MULLE_THREAD_ONCE_DONE"
proof -
  obtain s fr where s: "rec_reach c11_backend False s"
    "rec_run c11_backend False rec_example_end rec_init_sys = Some s" "rs_stk s 1 = [fr]"
    "rf_pc fr = R_ret"
    by (rule rec_example_end_reach)
  show ?thesis using rec_return_means_initialized [OF s(1,3,4)] s(2,3) by auto
qed

text \<open>C21: no thread waits for itself: a thread in the waiting loop of a recursive once flag has
  no unfinished initialization of that flag in its own stack, and as long as the flag is not
  DONE another thread has.\<close>

theorem rec_no_self_deadlock:
  assumes "rec_reach c11_backend nd s" and "rs_stk s t = fr # rest"
    and "rf_pc fr \<in> {R_yield, R_read}"
  shows "(\<forall>g \<in> set rest. \<not> (rf_obj g = rf_obj fr \<and> rf_pc g = R_in_init)) \<and>
    (rec_flag s (rf_obj fr) = MULLE_THREAD_ONCE_BUSY \<longrightarrow>
      (\<exists>u g. u \<noteq> t \<and> g \<in> set (rs_stk s u) \<and> rec_owner (rf_obj fr) g))"
proof -
  let ?ob = "rf_obj fr"
  have inv: "rec_flag_inv s ?ob" and ok: "rec_stack_ok s (rs_stk s t)"
    using c11.rec_reach_inv [OF assms(1)] by (auto simp: rec_inv_def)
  have zero: "rec_owned ?ob rest = 0"
    using ok assms(2,3) by (auto simp: rec_stack_ok_def rec_top_ok_def)
  have "rec_owned ?ob (rs_stk s t) = 0"
    using zero assms(2,3) by (auto simp: rec_owner_def)
  then have "\<exists>u g. u \<noteq> t \<and> g \<in> set (rs_stk s u) \<and> rec_owner ?ob g"
    if "rec_flag s ?ob = MULLE_THREAD_ONCE_BUSY"
    using inv that rec_owned_zero_iff unfolding rec_flag_inv_def
    by (metis once_flags_distinct(2,5) zero_neq_one)
  moreover have "\<not> (rf_obj g = ?ob \<and> rf_pc g = R_in_init)" if "g \<in> set rest" for g
    using zero that rec_in_init_owner [OF ok, of g] assms(2) rec_owned_zero_iff by fastforce
  ultimately show ?thesis by blast
qed

theorem rec_no_self_deadlock_witness:
  "\<exists>s fr u g. rec_run c11_backend False rec_example rec_init_sys = Some s \<and> rs_stk s 2 = [fr] \<and>
     u \<noteq> 2 \<and> g \<in> set (rs_stk s u) \<and> rec_owner (rf_obj fr) g"
proof -
  obtain s h fr where s: "rec_reach c11_backend False s"
    "rec_run c11_backend False rec_example rec_init_sys = Some s"
    "rs_stk s 2 = [fr]" "rf_pc fr = R_yield" "rf_obj fr = 0" "rec_flag s 0 = MULLE_THREAD_ONCE_BUSY"
    by (rule rec_example_reach)
  have "rf_pc fr \<in> {R_yield, R_read}" using s(4) by simp
  from rec_no_self_deadlock [OF s(1,3) this] s(2,3,5,6) show ?thesis by auto
qed

fun entry_obj :: "rec_entry \<Rightarrow> nat" where
  "entry_obj (Enter_call ob ui) = ob"
| "entry_obj (Enter ob) = ob"
| "entry_obj (Enter_do ob) = ob"

lemma entry_frame_obj [simp]: "rf_obj (entry_frame e) = entry_obj e"
  by (cases e) (simp_all add: rec_new_frame_def mulle_thread_once_recursive_def)

text \<open>A call made from inside \<open>init\<close> on the same flag, through any of the three entry
  points, returns after its first access, without calling \<open>init\<close> and without touching the
  flag.\<close>

theorem rec_nested_call_returns:
  assumes "rec_reach c11_backend nd s" and "rs_stk s t = g # rest" and "rf_pc g = R_in_init"
    and "entry_obj e = rf_obj g"
  shows "\<exists>s' fr. rec_run c11_backend nd [R_invoke t e, R_step t] s = Some s' \<and>
    rs_stk s' t = fr # g # rest \<and> rf_pc fr = R_ret \<and>
    rs_calls s' = rs_calls s \<and> cells (rs_mem s') = cells (rs_mem s)"
proof -
  have inv: "rec_inv s" by (rule c11.rec_reach_inv [OF assms(1)])
  then have fi: "rec_flag_inv s (rf_obj g)" and ok: "rec_stack_ok s (rs_stk s t)"
    by (simp_all add: rec_inv_def)
  have t: "t \<noteq> 0" using inv assms(2) by (auto simp: rec_inv_def)
  have "rec_owner (rf_obj g) g" using rec_in_init_owner [OF ok _ assms(3)] assms(2) by simp
  then have id: "cells (rs_mem s) (rf_obj g, 1) = t"
    using rec_flag_inv_owner(4) [OF fi, of g t] assms(2,3) by (simp add: rec_id_def rec_id_at_def)
  let ?fr = "entry_frame e"
  let ?s1 = "s\<lparr>rs_stk := (rs_stk s)(t := ?fr # g # rest)\<rparr>"
  have s1: "rec_exec c11_backend nd (R_invoke t e) s = Some ?s1"
    using t assms(2,3) by (simp add: rec_may_call_def)
  obtain fr' m' where st: "rec_fn_step c11_backend nd t ?fr (rs_mem s) = (fr', m')"
    by fastforce
  have "rf_pc fr' = R_ret \<and> cells m' = cells (rs_mem s)"
    using st id assms(4)
    by (cases "rf_fn ?fr") (auto simp: rec_fn_defs case_prod_beta rec_thread_id_def)
  then show ?thesis
    using s1 st by (auto simp del: rec_exec.simps(1))
qed

theorem rec_nested_call_returns_witness:
  "\<exists>s s' fr g. rec_run c11_backend False rec_example rec_init_sys = Some s \<and>
     rec_run c11_backend False [R_invoke 1 (Enter 0), R_step 1] s = Some s' \<and>
     rs_stk s' 1 = [fr, g] \<and> rf_pc fr = R_ret"
proof -
  obtain s fr where s: "rec_reach c11_backend False s"
    "rec_run c11_backend False rec_example rec_init_sys = Some s"
    "rs_stk s 1 = [fr]" "rf_pc fr = R_in_init" "rf_obj fr = 0"
    by (rule rec_example_reach)
  have "entry_obj (Enter 0) = rf_obj fr" by (simp add: s)
  from rec_nested_call_returns [OF s(1,3,4) this] s(2) show ?thesis by blast
qed

text \<open>The functions on recursive once flags never stop at an assertion, and a thread
  inside one of them can always take its next step.\<close>

theorem rec_never_stuck:
  assumes "rec_reach c11_backend nd s" and "rs_stk s t \<noteq> []"
  shows "(\<exists>s'. rec_exec c11_backend nd (R_step t) s = Some s') \<and>
    (\<forall>fr \<in> set (rs_stk s t). rf_pc fr \<noteq> R_abort)"
proof -
  have abort: "rec_frame_ok w fr \<Longrightarrow> rf_pc fr \<noteq> R_abort" for w fr
    by (auto simp: rec_frame_ok_def)
  have "rec_stack_ok s (rs_stk s t)"
    using c11.rec_reach_inv [OF assms(1)] by (simp add: rec_inv_def)
  then have no: "\<forall>fr \<in> set (rs_stk s t). rf_pc fr \<noteq> R_abort"
    using abort unfolding rec_stack_ok_def by blast
  obtain fr rest where st: "rs_stk s t = fr # rest" using assms(2) by (cases "rs_stk s t") auto
  have "\<exists>s'. rec_exec c11_backend nd (R_step t) s = Some s'"
    using no by (cases "rec_fn_step c11_backend nd t fr (rs_mem s)") (simp add: st)
  with no show ?thesis by blast
qed

theorem rec_never_stuck_witness:
  "\<exists>s s'. rec_run c11_backend False rec_example rec_init_sys = Some s \<and>
     rec_exec c11_backend False (R_step 2) s = Some s'"
proof -
  obtain s fr where s: "rec_reach c11_backend False s"
    "rec_run c11_backend False rec_example rec_init_sys = Some s" "rs_stk s 2 = [fr]"
    by (rule rec_example_reach)
  have "rs_stk s 2 \<noteq> []" by (simp add: s)
  from rec_never_stuck [OF s(1) this] s(2) show ?thesis by blast
qed

end
