(* ===== verification/Once_Recursive_Leave.thy ===== *)
theory Once_Recursive_Leave
  imports Once_Recursive_Properties
begin

text \<open>
  Leaving the block of \<open>mulle_thread_once_do_recursive\<close> (\<open>src/mulle-thread.h\<close>) by \<open>return\<close> or
  \<open>goto\<close>: neither is the thread id cleared nor the flag published. As in \<open>Once_Leave\<close>, with the
  difference that the thread itself is let through afterwards.
\<close>

subsection \<open>The additional move\<close>

datatype rec_leave_move = R_ordinary rec_move | R_leave tid

fun rec_leave_exec :: "backend \<Rightarrow> bool \<Rightarrow> rec_leave_move \<Rightarrow> rec_sys \<Rightarrow> rec_sys option" where
  "rec_leave_exec B ndebug (R_ordinary mv) s = rec_exec B ndebug mv s"
| "rec_leave_exec B ndebug (R_leave t) s =
     (case rs_stk s t of
        [] \<Rightarrow> None
      | fr # rest \<Rightarrow>
          if rf_fn fr = Do_recursive \<and> rf_pc fr = R_in_init
          then Some (s\<lparr>rs_stk := (rs_stk s)(t := rest)\<rparr>) else None)"

fun rec_leave_run :: "backend \<Rightarrow> bool \<Rightarrow> rec_leave_move list \<Rightarrow> rec_sys \<Rightarrow> rec_sys option" where
  "rec_leave_run B ndebug [] s = Some s"
| "rec_leave_run B ndebug (mv # mvs) s =
     (case rec_leave_exec B ndebug mv s of
        None \<Rightarrow> None | Some s' \<Rightarrow> rec_leave_run B ndebug mvs s')"

subsection \<open>An abandoned flag\<close>

text \<open>Where an activation of thread \<open>u\<close> on a flag abandoned by thread \<open>t\<close> can be.\<close>

definition rec_stuck_at :: "tid \<Rightarrow> tid \<Rightarrow> rec_pc \<Rightarrow> bool" where
  "rec_stuck_at t u p \<longleftrightarrow>
     p \<in> (if u = t then {R_read_tid, R_ret} else {R_read_tid, R_cas, R_yield, R_read})"

definition rec_abandoned :: "tid \<Rightarrow> nat \<Rightarrow> rec_sys \<Rightarrow> bool" where
  "rec_abandoned t ob s \<longleftrightarrow> rec_flag s ob = MULLE_THREAD_ONCE_BUSY \<and> rec_id s ob = t \<and>
     (\<forall>u. \<forall>fr \<in> set (rs_stk s u). rf_obj fr = ob \<longrightarrow> rec_stuck_at t u (rf_pc fr))"

lemma rec_leave_abandons:
  assumes inv: "rec_inv s" and st: "rs_stk s t = fr # rest" and pc: "rf_pc fr = R_in_init"
  shows "rec_abandoned t (rf_obj fr) (s\<lparr>rs_stk := (rs_stk s)(t := rest)\<rparr>)"
proof -
  let ?ob = "rf_obj fr"
  have so: "rec_stack_ok s (rs_stk s u)" for u using inv by (simp add: rec_inv_def)
  have ok: "rec_frame_ok (rec_flag s (rf_obj g)) g" if "g \<in> set (rs_stk s u)" for g u
    using so [of u] that by (simp add: rec_stack_ok_def)
  have own: "rec_owner ?ob fr"
    using ok [of fr t] st pc by (auto simp: rec_owner_def rec_frame_ok_def)
  have fi: "rec_flag_inv s ?ob" using inv by (simp add: rec_inv_def)
  have mem: "fr \<in> set (rs_stk s t)" by (simp add: st)
  note o = rec_flag_inv_owner [OF fi mem own]
  have id: "rec_id s ?ob = t" using o(4) pc by (simp add: rec_id_at_def)
  have rest: "rec_owned ?ob rest = 0" "\<forall>u. u \<noteq> t \<longrightarrow> rec_owned ?ob (rs_stk s u) = 0"
    using o(2,3) own by (simp_all add: st)
  have "rec_stuck_at t u (rf_pc g)"
    if g: "g \<in> set (((rs_stk s)(t := rest)) u)" "rf_obj g = ?ob" for g u
  proof -
    have no: "\<not> rec_owner ?ob g"
      using rest g(1) by (auto simp: rec_owned_zero_iff split: if_splits)
    have gok: "rec_frame_ok MULLE_THREAD_ONCE_BUSY g"
      using ok [of g u] g st o(1) by (auto split: if_splits)
    show ?thesis
    proof (cases "u = t")
      case True
      then have "rf_pc g = R_in_init" using so [of t] g(1) by (simp add: st rec_stack_ok_def)
      with gok no g(2) show ?thesis by (simp add: rec_frame_ok_def rec_owner_def)
    next
      case False
      then have gu: "g \<in> set (rs_stk s u)" using g(1) by simp
      have "rf_pc g \<noteq> R_ret"
      proof
        assume ret: "rf_pc g = R_ret"
        obtain h st' where u: "rs_stk s u = h # st'" using gu by (cases "rs_stk s u") auto
        have "\<forall>x \<in> set st'. rf_pc x = R_in_init" using so [of u] u by (simp add: rec_stack_ok_def)
        then have "g = h" using gu u ret by auto
        then have "rec_owned ?ob st' \<noteq> 0"
          using so [of u] u ret g(2) o(1) by (simp add: rec_stack_ok_def rec_top_ok_def)
        then show False using rest(2) False u by (metis rec_owned_simps(2) nat.distinct(1))
      qed
      then show ?thesis
        using gok no g(2) False
        by (auto simp: rec_stuck_at_def rec_frame_ok_def rec_owner_def split: rec_pc.splits)
    qed
  qed
  with o(1) id show ?thesis by (auto simp: rec_abandoned_def)
qed

context atomic_backend
begin

lemma rec_stuck_step:
  assumes "rec_fn_step B nd u fr m = (fr', m')" and "rec_stuck_at t u (rf_pc fr)"
    and "rf_pc fr \<noteq> R_ret" and "cells m (rec_state fr) = MULLE_THREAD_ONCE_BUSY"
    and "cells m (rec_thread_id fr) = t"
  shows "rec_stuck_at t u (rf_pc fr') \<and> cells m' (rec_state fr) = MULLE_THREAD_ONCE_BUSY \<and>
    cells m' (rec_thread_id fr) = t"
proof -
  have "rf_pc fr \<notin> {R_ret, R_abort}" using assms(2,3) by (auto simp: rec_stuck_at_def split: if_splits)
  from rec_fn_step_refines [OF assms(1) this] assms(2-5) show ?thesis
    by (auto simp: rec_stuck_at_def rec_trans_simps split: if_splits)
qed

lemma rec_abandoned_exec:
  assumes ab: "rec_abandoned t ob s" and ex: "rec_leave_exec B nd mv s = Some s'"
  shows "rec_abandoned t ob s' \<and> rs_calls s' ob = rs_calls s ob \<and> rs_rets s' ob = rs_rets s ob"
proof -
  have flag: "rec_flag s ob = MULLE_THREAD_ONCE_BUSY" "rec_id s ob = t"
    and stuck: "\<And>u fr. fr \<in> set (rs_stk s u) \<Longrightarrow> rf_obj fr = ob \<Longrightarrow> rec_stuck_at t u (rf_pc fr)"
    using ab by (auto simp: rec_abandoned_def)
  have pop: ?thesis
    if "s' = s\<lparr>rs_stk := (rs_stk s)(u := rest)\<rparr>" "rs_stk s u = fr # rest" for u fr rest
    using that flag stuck [of _ u] stuck by (auto simp: rec_abandoned_def split: if_splits)
  show ?thesis
  proof (cases mv)
    case (R_leave u)
    with ex pop show ?thesis by (auto split: list.splits if_splits)
  next
    case (R_ordinary m)
    with ex have ex: "rec_exec B nd m s = Some s'" by simp
    show ?thesis
    proof (cases m)
      case (R_invoke u e)
      have "rec_stuck_at t u R_read_tid" by (simp add: rec_stuck_at_def)
      with ex R_invoke flag stuck show ?thesis
        by (auto simp: rec_abandoned_def split: if_splits)
    next
      case (R_step u)
      from ex [unfolded R_step] show ?thesis
      proof (cases rule: rec_exec_StepE)
        case (1 fr rest)
        then show ?thesis using pop by blast
      next
        case (2 fr rest fr' m')
        note ref = rec_fn_step_refines [OF 2(3,2)]
        have obj: "rf_obj fr' = rf_obj fr" using ref by (simp add: rec_same_call_def)
        have below: "rec_stuck_at t u (rf_pc g)" if "g \<in> set rest" "rf_obj g = ob" for g
          using stuck [of g u] that 2(1) by simp
        show ?thesis
        proof (cases "rf_obj fr = ob")
          case True
          then have fr: "rec_stuck_at t u (rf_pc fr)" using stuck [of fr u] 2(1) by simp
          have "cells (rs_mem s) (rec_state fr) = MULLE_THREAD_ONCE_BUSY"
            "cells (rs_mem s) (rec_thread_id fr) = t"
            using flag True by (simp_all add: rec_flag_def rec_id_def rec_state_def rec_thread_id_def)
          from rec_stuck_step [OF 2(3) fr _ this] 2(2)
          have fr': "rec_stuck_at t u (rf_pc fr')" "cells m' (ob, 0) = MULLE_THREAD_ONCE_BUSY"
            "cells m' (ob, 1) = t"
            using True by (simp_all add: rec_state_def rec_thread_id_def)
          have "rf_pc fr \<noteq> R_call_init" "rf_pc fr \<noteq> R_in_init"
            using fr by (auto simp: rec_stuck_at_def split: if_splits)
          then show ?thesis
            using 2(4) fr' stuck below
            by (auto simp: rec_abandoned_def rec_after_def rec_flag_def rec_id_def)
        next
          case False
          then have "cells m' (ob, 0) = cells (rs_mem s) (ob, 0)" "cells m' (ob, 1) = cells (rs_mem s) (ob, 1)"
            using ref by (simp_all add: rec_state_def rec_thread_id_def)
          then show ?thesis
            using 2(4) False obj flag stuck below
            by (auto simp: rec_abandoned_def rec_after_def rec_flag_def rec_id_def)
        qed
      qed
    qed
  qed
qed

lemma rec_abandoned_run:
  "rec_abandoned t ob s \<Longrightarrow> rec_leave_run B nd mvs s = Some s' \<Longrightarrow>
     rec_abandoned t ob s' \<and> rs_calls s' ob = rs_calls s ob \<and> rs_rets s' ob = rs_rets s ob"
proof (induction mvs arbitrary: s)
  case (Cons mv mvs)
  then obtain s1 where "rec_leave_exec B nd mv s = Some s1" "rec_leave_run B nd mvs s1 = Some s'"
    by (auto split: option.splits)
  with Cons.IH [of s1] rec_abandoned_exec [OF Cons.prems(1), of nd mv s1] show ?case by simp
qed simp

end

subsection \<open>The thread that left passes, the others wait\<close>

text \<open>C27: leaving the block of \<open>mulle_thread_once_do_recursive\<close> by \<open>return\<close> or \<open>goto\<close> makes the
  flag the thread's own for ever. It stays BUSY under the id of that thread, and the block
  has been entered once and never again. A later recursive once call on the flag returns at
  once in the thread that left, as if it were inside the initialization, and never in any
  other thread.\<close>

theorem rec_block_left_is_lost:
  assumes "rec_reach c11_backend nd s" and "rs_stk s t = fr # rest" and "rf_pc fr = R_in_init"
    and "rec_leave_run c11_backend nd (R_leave t # mvs) s = Some s'"
  shows "rec_flag s' (rf_obj fr) = MULLE_THREAD_ONCE_BUSY \<and> rec_id s' (rf_obj fr) = t \<and>
    length (rs_calls s' (rf_obj fr)) = 1 \<and> rs_rets s' (rf_obj fr) = [] \<and>
    (\<forall>u. \<forall>g \<in> set (rs_stk s' u). rf_obj g = rf_obj fr \<longrightarrow>
       rf_pc g \<in> (if u = t then {R_read_tid, R_ret} else {R_read_tid, R_cas, R_yield, R_read}))"
proof -
  let ?ob = "rf_obj fr" and ?s = "s\<lparr>rs_stk := (rs_stk s)(t := rest)\<rparr>"
  note inv = c11.rec_reach_inv [OF assms(1)]
  have so: "rec_stack_ok s (rs_stk s t)" using inv by (simp add: rec_inv_def)
  then have own: "rec_owner ?ob fr"
    using assms(2,3) by (auto simp: rec_stack_ok_def rec_frame_ok_def rec_owner_def)
  have fi: "rec_flag_inv s ?ob" using inv by (simp add: rec_inv_def)
  have mem: "fr \<in> set (rs_stk s t)" by (simp add: assms(2))
  have h: "length (rs_calls s ?ob) = 1" "rs_rets s ?ob = []"
    using rec_flag_inv_owner(5,6) [OF fi mem own] assms(3)
    by (simp_all add: rec_calls_at_def rec_rets_at_def)
  have "rec_leave_run c11_backend nd mvs ?s = Some s'"
    using assms(2,4) by (auto split: option.splits if_splits)
  from c11.rec_abandoned_run [OF rec_leave_abandons [OF inv assms(2,3)] this] h show ?thesis
    by (auto simp: rec_abandoned_def rec_stuck_at_def)
qed

theorem rec_block_left_is_lost_witness:
  "\<exists>s s' fr. rec_run c11_backend False (R_invoke 1 (Enter_do 0) # replicate 4 (R_step 1)) rec_init_sys = Some s \<and>
     rs_stk s 1 = [fr] \<and> rec_leave_run c11_backend False (R_leave 1 # map R_ordinary
       [R_invoke 1 (Enter_do 0), R_step 1, R_invoke 2 (Enter 0), R_step 2, R_step 2, R_step 2]) s = Some s' \<and>
     rec_flag s' 0 = MULLE_THREAD_ONCE_BUSY \<and> map rf_pc (rs_stk s' 1) = [R_ret] \<and>
     map rf_pc (rs_stk s' 2) = [R_read]"
proof -
  let ?run = "R_invoke 1 (Enter_do 0) # replicate 4 (R_step 1)"
  let ?mvs = "map R_ordinary
    [R_invoke 1 (Enter_do 0), R_step 1, R_invoke 2 (Enter 0), R_step 2, R_step 2, R_step 2]"
  have run: "map_option (\<lambda>s. (map rf_pc (rs_stk s 1), map rf_obj (rs_stk s 1),
        map_option (\<lambda>s'. (map rf_pc (rs_stk s' 1), map rf_pc (rs_stk s' 2)))
          (rec_leave_run c11_backend False (R_leave 1 # ?mvs) s)))
      (rec_run c11_backend False ?run rec_init_sys) =
      Some ([R_in_init], [0], Some ([R_ret], [R_read]))"
    by code_simp
  then obtain s fr s' g h where s: "rec_run c11_backend False ?run rec_init_sys = Some s"
    and fr: "rs_stk s 1 = [fr]" "rf_pc fr = R_in_init" "rf_obj fr = 0"
    and s': "rec_leave_run c11_backend False (R_leave 1 # ?mvs) s = Some s'"
    and pcs: "rs_stk s' 1 = [g]" "rf_pc g = R_ret" "rs_stk s' 2 = [h]" "rf_pc h = R_read"
    by (auto simp del: rec_exec.simps rec_run.simps rec_leave_run.simps list.map)
  from rec_block_left_is_lost [OF rec_run_reach [OF rec_init_reach s] fr(1,2) s'] show ?thesis
    using s fr(1,3) s' pcs by auto
qed

end
