(* ===== verification/Config.thy ===== *)
theory Config
  imports Prelude
begin

text \<open>
  The choice of the backends by the preprocessor: \<open>src/mulle-atomic.h\<close> chooses the atomics,
  \<open>src/mulle-thread.h\<close> the threads, and \<open>src/mulle-thread.c\<close> decides whether the functions of
  mintomic are compiled in. The input is what the compiler and the user define.
\<close>

subsection \<open>Macros\<close>

text \<open>\<open>None\<close> stands for a macro that isn't defined; \<open>__has_feature\<close> is asked for
  \<open>thread_sanitizer\<close>, \<open>__has_include\<close> for a header. \<open>__STDC_VERSION__\<close> is 0 when undefined, as
  in an \<open>#if\<close>.\<close>

record macros =
  MULLE_THREAD_TSAN :: bool
  SANITIZE_THREAD :: bool
  has_feature :: "bool option"
  has_include :: "(string \<Rightarrow> bool) option"
  HAVE_C11_STDATOMIC :: "int option"
  HAVE_C11_THREADS :: "int option"
  MULLE_THREAD_USE_MINTOMIC :: bool
  MULLE_THREAD_USE_PTHREADS :: bool
  is_clang :: bool
  GNUC :: "int option"
  STDC_VERSION :: int
  STDC_NO_ATOMICS :: bool
  STDC_NO_THREADS :: bool
  DragonFly :: bool
  COSMOPOLITAN :: bool
  WIN32 :: bool

datatype atomics = C11_atomics | Mintomic_atomics

datatype threads = C11_threads | Windows_threads | Pthreads

text \<open>An identifier in an \<open>#if\<close> that isn't a macro counts as 0.\<close>

definition pp_true :: "int option \<Rightarrow> bool" where
  "pp_true v \<longleftrightarrow> (case v of None \<Rightarrow> False | Some n \<Rightarrow> n \<noteq> 0)"

subsection \<open>The atomics\<close>

definition detect_tsan :: "macros \<Rightarrow> macros" where
  "detect_tsan c =
     (if \<not> MULLE_THREAD_TSAN c
      then if SANITIZE_THREAD c then c\<lparr>MULLE_THREAD_TSAN := True\<rparr>
           else if has_feature c \<noteq> None
           then if the (has_feature c) then c\<lparr>MULLE_THREAD_TSAN := True\<rparr> else c
           else c
      else c)"

text \<open>\<open>None\<close>: the preprocessor stops, because \<open>__has_include\<close> is used and isn't there.\<close>

definition detect_stdatomic :: "macros \<Rightarrow> macros option" where
  "detect_stdatomic c =
     (if HAVE_C11_STDATOMIC c = None
      then if is_clang c
           then (case has_include c of
               None \<Rightarrow> None
             | Some exists \<Rightarrow>
                 Some (if exists ''stdatomic.h'' then c\<lparr>HAVE_C11_STDATOMIC := Some 1\<rparr> else c))
           else Some (if 201112 \<le> STDC_VERSION c \<and> \<not> STDC_NO_ATOMICS c
             then c\<lparr>HAVE_C11_STDATOMIC := Some 1\<rparr> else c)
      else Some c)"

definition choose_atomics :: "macros \<Rightarrow> atomics" where
  "choose_atomics c =
     (if pp_true (HAVE_C11_STDATOMIC c) \<and> \<not> MULLE_THREAD_USE_MINTOMIC c
      then C11_atomics else Mintomic_atomics)"

text \<open>\<open>mulle-atomic.h\<close> as a whole: the macros it leaves behind and its choice.\<close>

definition mulle_atomic_h :: "macros \<Rightarrow> (macros \<times> atomics) option" where
  "mulle_atomic_h c = map_option (\<lambda>d. (d, choose_atomics d)) (detect_stdatomic (detect_tsan c))"

subsection \<open>The threads\<close>

definition force_pthreads :: "macros \<Rightarrow> macros" where
  "force_pthreads c =
     (let c1 = (if DragonFly c then c\<lparr>MULLE_THREAD_USE_PTHREADS := True\<rparr> else c);
          c2 = (if COSMOPOLITAN c1 \<and> \<not> MULLE_THREAD_USE_PTHREADS c1
            then c1\<lparr>MULLE_THREAD_USE_PTHREADS := True\<rparr> else c1)
      in if MULLE_THREAD_TSAN c2 \<and> \<not> MULLE_THREAD_USE_PTHREADS c2
         then c2\<lparr>MULLE_THREAD_USE_PTHREADS := True\<rparr> else c2)"

definition detect_threads :: "macros \<Rightarrow> macros option" where
  "detect_threads c =
     (if \<not> WIN32 c \<and> HAVE_C11_THREADS c = None
      then if has_include c \<noteq> None \<or> is_clang c \<or> (\<exists>v \<in> set_option (GNUC c). 5 \<le> v)
           then (case has_include c of
               None \<Rightarrow> None
             | Some exists \<Rightarrow>
                 Some (if exists ''threads.h'' then c\<lparr>HAVE_C11_THREADS := Some 1\<rparr> else c))
           else Some (if 201112 \<le> STDC_VERSION c \<and> \<not> STDC_NO_THREADS c
             then c\<lparr>HAVE_C11_THREADS := Some 1\<rparr> else c)
      else Some c)"

definition choose_threads :: "macros \<Rightarrow> threads" where
  "choose_threads c =
     (if pp_true (HAVE_C11_THREADS c) \<and> \<not> MULLE_THREAD_USE_PTHREADS c then C11_threads
      else if WIN32 c then Windows_threads else Pthreads)"

text \<open>\<open>mulle-thread.h\<close>, which includes \<open>mulle-atomic.h\<close> first.\<close>

definition mulle_thread_h :: "macros \<Rightarrow> (atomics \<times> threads) option" where
  "mulle_thread_h c =
     (case mulle_atomic_h c of
        None \<Rightarrow> None
      | Some (d, atomics) \<Rightarrow>
          map_option (\<lambda>e. (atomics, choose_threads e)) (detect_threads (force_pthreads d)))"

text \<open>The end of \<open>mulle-thread.c\<close>: whether it includes \<open>mintomic_gcc.c\<close>.\<close>

definition includes_mintomic_gcc :: "macros \<Rightarrow> bool" where
  "includes_mintomic_gcc c \<longleftrightarrow> STDC_VERSION c < 201112 \<or> STDC_NO_ATOMICS c"

subsection \<open>Properties\<close>

lemma detect_tsan_simps [simp]:
  "MULLE_THREAD_TSAN (detect_tsan c) \<longleftrightarrow>
     MULLE_THREAD_TSAN c \<or> SANITIZE_THREAD c \<or> has_feature c = Some True"
  "MULLE_THREAD_USE_PTHREADS (detect_tsan c) = MULLE_THREAD_USE_PTHREADS c"
  "MULLE_THREAD_USE_MINTOMIC (detect_tsan c) = MULLE_THREAD_USE_MINTOMIC c"
  "HAVE_C11_THREADS (detect_tsan c) = HAVE_C11_THREADS c"
  "HAVE_C11_STDATOMIC (detect_tsan c) = HAVE_C11_STDATOMIC c"
  "has_include (detect_tsan c) = has_include c" "is_clang (detect_tsan c) = is_clang c"
  "GNUC (detect_tsan c) = GNUC c" "STDC_VERSION (detect_tsan c) = STDC_VERSION c"
  "STDC_NO_ATOMICS (detect_tsan c) = STDC_NO_ATOMICS c"
  "STDC_NO_THREADS (detect_tsan c) = STDC_NO_THREADS c"
  "DragonFly (detect_tsan c) = DragonFly c" "COSMOPOLITAN (detect_tsan c) = COSMOPOLITAN c"
  "WIN32 (detect_tsan c) = WIN32 c"
  by (auto simp: detect_tsan_def)

lemma detect_stdatomic_keeps:
  assumes "detect_stdatomic c = Some d"
  shows "MULLE_THREAD_TSAN d = MULLE_THREAD_TSAN c \<and> DragonFly d = DragonFly c \<and>
    COSMOPOLITAN d = COSMOPOLITAN c \<and> MULLE_THREAD_USE_PTHREADS d = MULLE_THREAD_USE_PTHREADS c \<and>
    WIN32 d = WIN32 c \<and> MULLE_THREAD_USE_MINTOMIC d = MULLE_THREAD_USE_MINTOMIC c"
  using assms by (auto simp: detect_stdatomic_def split: if_splits option.splits)

lemma force_pthreads_simps [simp]:
  "MULLE_THREAD_USE_PTHREADS (force_pthreads c) \<longleftrightarrow> MULLE_THREAD_USE_PTHREADS c \<or> DragonFly c \<or>
     COSMOPOLITAN c \<or> MULLE_THREAD_TSAN c"
  "WIN32 (force_pthreads c) = WIN32 c"
  by (auto simp: force_pthreads_def Let_def)

lemma detect_threads_keeps:
  "detect_threads c = Some d \<Longrightarrow> MULLE_THREAD_USE_PTHREADS d = MULLE_THREAD_USE_PTHREADS c \<and> WIN32 d = WIN32 c"
  by (auto simp: detect_threads_def split: if_splits option.splits)

text \<open>C32: a build with the thread sanitizer, however it is detected, and one for DragonFly or
  Cosmopolitan or with \<open>MULLE_THREAD_USE_PTHREADS\<close>, never gets the threads of C11: it gets
  those of Windows on Windows and pthreads elsewhere.\<close>

theorem sanitized_build_avoids_c11_threads:
  assumes "mulle_thread_h c = Some (atomics, threads)"
    and "MULLE_THREAD_TSAN c \<or> SANITIZE_THREAD c \<or> has_feature c = Some True \<or> DragonFly c \<or>
      COSMOPOLITAN c \<or> MULLE_THREAD_USE_PTHREADS c"
  shows "threads = (if WIN32 c then Windows_threads else Pthreads)"
proof -
  obtain d e where d: "detect_stdatomic (detect_tsan c) = Some d"
    and e: "detect_threads (force_pthreads d) = Some e" "threads = choose_threads e"
    using assms(1) by (auto simp: mulle_thread_h_def mulle_atomic_h_def split: option.splits)
  from detect_stdatomic_keeps [OF d] detect_threads_keeps [OF e(1)] e(2) assms(2) show ?thesis
    by (auto simp: choose_threads_def)
qed

text \<open>A compiler like gcc or clang on a current system, with nothing defined by the user.\<close>

definition plain_build :: macros where
  "plain_build = \<lparr>MULLE_THREAD_TSAN = False, SANITIZE_THREAD = False, has_feature = None,
     has_include = Some (\<lambda>h. True), HAVE_C11_STDATOMIC = None, HAVE_C11_THREADS = None,
     MULLE_THREAD_USE_MINTOMIC = False, MULLE_THREAD_USE_PTHREADS = False, is_clang = False,
     GNUC = Some 13, STDC_VERSION = 201710, STDC_NO_ATOMICS = False, STDC_NO_THREADS = False,
     DragonFly = False, COSMOPOLITAN = False, WIN32 = False\<rparr>"

theorem sanitized_build_avoids_c11_threads_witness:
  "mulle_thread_h plain_build = Some (C11_atomics, C11_threads) \<and>
   mulle_thread_h (plain_build\<lparr>SANITIZE_THREAD := True\<rparr>) = Some (C11_atomics, Pthreads)"
proof -
  have "map_option (\<lambda>(a, t). a = C11_atomics) (mulle_thread_h (plain_build\<lparr>SANITIZE_THREAD := True\<rparr>)) = Some True"
    and "mulle_thread_h plain_build = Some (C11_atomics, C11_threads)"
    by code_simp+
  then show ?thesis
    using sanitized_build_avoids_c11_threads [of "plain_build\<lparr>SANITIZE_THREAD := True\<rparr>"]
    by (auto simp: plain_build_def)
qed

text \<open>The functions of mintomic are compiled in exactly for the builds whose atomics use
  them, if the compiler isn't clang and the user leaves the choice to the headers.\<close>

theorem mintomic_included_when_used:
  assumes "mulle_thread_h c = Some (atomics, threads)" and "\<not> is_clang c"
    and "HAVE_C11_STDATOMIC c = None" and "\<not> MULLE_THREAD_USE_MINTOMIC c"
  shows "includes_mintomic_gcc c \<longleftrightarrow> atomics = Mintomic_atomics"
  using assms
  by (auto simp: mulle_thread_h_def mulle_atomic_h_def choose_atomics_def includes_mintomic_gcc_def
    detect_stdatomic_def pp_true_def split: option.splits if_splits)

theorem mintomic_included_when_used_witness:
  "\<exists>t. mulle_thread_h (plain_build\<lparr>STDC_VERSION := 199901\<rparr>) = Some (Mintomic_atomics, t) \<and>
     includes_mintomic_gcc (plain_build\<lparr>STDC_VERSION := 199901\<rparr>)"
proof -
  have "mulle_thread_h (plain_build\<lparr>STDC_VERSION := 199901\<rparr>) = Some (Mintomic_atomics, C11_threads)"
    by code_simp
  from mintomic_included_when_used [OF this] this show ?thesis by (simp add: plain_build_def)
qed

text \<open>Otherwise the two conditions disagree, both ways. A C11 build that asks for mintomic
  gets its header and not its functions, and so does clang without \<open>stdatomic.h\<close>; clang in C99
  mode gets the atomics of C11 and compiles the functions all the same.\<close>

theorem mintomic_condition_disagrees:
  "(let c = plain_build\<lparr>MULLE_THREAD_USE_MINTOMIC := True\<rparr> in
      mulle_thread_h c = Some (Mintomic_atomics, C11_threads) \<and> \<not> includes_mintomic_gcc c) \<and>
   (let c = plain_build\<lparr>is_clang := True, has_include := Some (\<lambda>h. h \<noteq> ''stdatomic.h'')\<rparr> in
      mulle_thread_h c = Some (Mintomic_atomics, C11_threads) \<and> \<not> includes_mintomic_gcc c) \<and>
   (let c = plain_build\<lparr>is_clang := True, STDC_VERSION := 199901\<rparr> in
      mulle_thread_h c = Some (C11_atomics, C11_threads) \<and> includes_mintomic_gcc c)"
  by (intro conjI) code_simp+

end
