(* ===== verification/Version_Check.thy ===== *)
theory Version_Check
  imports Config
begin

text \<open>
  The version of the library and its check of the version of mulle-c11
  (\<open>src/mulle-thread.h\<close>, \<open>src/reflect/_mulle-thread-versioncheck.h\<close>), the linkage of its
  functions (\<open>src/generic/include.h\<close>) and the detection of \<open><pthread.h>\<close>
  (\<open>src/reflect/_mulle-thread-include.h\<close>), as functions of the macros.
\<close>

subsection \<open>Version numbers\<close>

text \<open>\<open>(major << 20) | (minor << 8) | patch\<close>; in an \<open>#if\<close> all numbers have 64 bits.\<close>

definition version_number :: "nat \<Rightarrow> nat \<Rightarrow> nat \<Rightarrow> 64 word" where
  "version_number major minor patch =
     push_bit 20 (of_nat major) OR push_bit 8 (of_nat minor) OR of_nat patch"

definition MULLE__THREAD_VERSION :: "64 word" where
  "MULLE__THREAD_VERSION = version_number 4 11 0"

record version_macros =
  MULLE__C11_VERSION :: "64 word option"
  MULLE__C11_VERSION_MIN :: "64 word option"
  MULLE__C11_VERSION_MAX :: "64 word option"

datatype pp_verdict = Compiles | Too_old | Too_new

definition or_else :: "'a option \<Rightarrow> 'a \<Rightarrow> 'a" where
  "or_else v d = (case v of None \<Rightarrow> d | Some x \<Rightarrow> x)"

text \<open>The file as a whole: the bounds can be given from the outside; without a version of
  mulle-c11 nothing is checked.\<close>

definition versioncheck :: "version_macros \<Rightarrow> pp_verdict" where
  "versioncheck c =
     (case MULLE__C11_VERSION c of
        None \<Rightarrow> Compiles
      | Some v \<Rightarrow>
          (let lo = or_else (MULLE__C11_VERSION_MIN c) (version_number 4 9 1);
               hi = or_else (MULLE__C11_VERSION_MAX c) (version_number 5 0 0)
           in if v < lo \<or> hi \<le> v then (if v < lo then Too_old else Too_new) else Compiles))"

text \<open>The end of \<open>mulle-thread.h\<close>: the file is included if the compiler can tell that it is
  there.\<close>

definition mulle_thread_h_versioncheck :: "(string \<Rightarrow> bool) option \<Rightarrow> version_macros \<Rightarrow> pp_verdict" where
  "mulle_thread_h_versioncheck has_incl c =
     (case has_incl of
        None \<Rightarrow> Compiles
      | Some exists \<Rightarrow> if exists ''_mulle-thread-versioncheck.h'' then versioncheck c else Compiles)"

subsection \<open>Linkage and pthreads\<close>

datatype linkage = MULLE_C_GLOBAL | MULLE_C_EXTERN_GLOBAL | Plain_extern

record linkage_macros =
  MULLE__THREAD_BUILD :: bool
  MULLE__CORE_BUILD :: bool
  MULLE_THREAD_INCLUDE_DYNAMIC :: bool
  MULLE_INCLUDE_DYNAMIC :: bool
  MULLE_THREAD_INCLUDE_STATIC :: bool

definition MULLE__THREAD_GLOBAL :: "linkage_macros \<Rightarrow> linkage" where
  "MULLE__THREAD_GLOBAL c =
     (if MULLE__THREAD_BUILD c \<or> MULLE__CORE_BUILD c then MULLE_C_GLOBAL
      else if MULLE_THREAD_INCLUDE_DYNAMIC c \<or>
        (MULLE_INCLUDE_DYNAMIC c \<and> \<not> MULLE_THREAD_INCLUDE_STATIC c)
      then MULLE_C_EXTERN_GLOBAL
      else Plain_extern)"

definition HAVE_LIB_PTHREAD :: "bool \<Rightarrow> bool \<Rightarrow> (string \<Rightarrow> bool) option \<Rightarrow> bool" where
  "HAVE_LIB_PTHREAD android win32 has_incl \<longleftrightarrow>
     \<not> android \<and> \<not> win32 \<and> (case has_incl of None \<Rightarrow> False | Some exists \<Rightarrow> exists ''pthread.h'')"

subsection \<open>Versions are ordered by their fields\<close>

definition version_fields :: "nat \<Rightarrow> nat \<Rightarrow> nat \<Rightarrow> bool" where
  "version_fields major minor patch \<longleftrightarrow> major < 2 ^ 44 \<and> minor < 2 ^ 12 \<and> patch < 2 ^ 8"

definition version_before :: "nat \<times> nat \<times> nat \<Rightarrow> nat \<times> nat \<times> nat \<Rightarrow> bool" where
  "version_before v w \<longleftrightarrow> (case (v, w) of ((a, b, c), (a', b', c')) \<Rightarrow>
     a < a' \<or> (a = a' \<and> (b < b' \<or> (b = b' \<and> c < c'))))"

lemma push_or_add:
  assumes "b < 2 ^ n"
  shows "push_bit n a OR b = 2 ^ n * a + (b :: nat)"
proof -
  have "\<not> bit (push_bit n a) i \<or> \<not> bit b i" for i
  proof (cases "i < n")
    case False
    have "bit b i \<longleftrightarrow> bit (take_bit n b) i" using assms by (simp add: take_bit_nat_eq_self)
    with False show ?thesis by (simp add: bit_take_bit_iff)
  qed (simp add: bit_push_bit_iff)
  then have "push_bit n a + b = push_bit n a OR b" by (intro disjunctive_add) auto
  then show ?thesis by (simp add: push_bit_eq_mult mult.commute)
qed

lemma unat_version_number:
  assumes "version_fields a b c"
  shows "unat (version_number a b c) = 2 ^ 20 * a + 2 ^ 8 * b + c"
proof -
  have v: "version_number a b c = of_nat (push_bit 20 a OR (push_bit 8 b OR c))"
    by (simp add: version_number_def of_nat_or_eq of_nat_push_bit)
  have 1: "push_bit 8 b OR c = 2 ^ 8 * b + c"
    using assms by (intro push_or_add) (simp add: version_fields_def)
  have "2 ^ 8 * b + c < 2 ^ 20" using assms by (simp add: version_fields_def)
  then have "push_bit 20 a OR (2 ^ 8 * b + c) = 2 ^ 20 * a + (2 ^ 8 * b + c)" by (rule push_or_add)
  moreover have "2 ^ 20 * a + (2 ^ 8 * b + c) < 2 ^ 64" using assms by (simp add: version_fields_def)
  ultimately have "unat (of_nat (2 ^ 20 * a + (2 ^ 8 * b + c)) :: 64 word) = 2 ^ 20 * a + (2 ^ 8 * b + c)"
    by (simp only: unat_of_nat) simp
  then show ?thesis
    unfolding v 1 \<open>push_bit 20 a OR (2 ^ 8 * b + c) = 2 ^ 20 * a + (2 ^ 8 * b + c)\<close>
    by (simp only: add.assoc)
qed

lemma version_number_less:
  assumes "version_fields a b c" and "version_fields a' b' c'"
  shows "version_number a b c < version_number a' b' c' \<longleftrightarrow> version_before (a, b, c) (a', b', c')"
  using assms
  by (simp add: word_less_nat_alt unat_version_number version_before_def)
    (simp add: version_fields_def; arith)

lemma version_number_inject:
  assumes "version_fields a b c" and "version_fields a' b' c'"
  shows "version_number a b c = version_number a' b' c' \<longleftrightarrow> a = a' \<and> b = b' \<and> c = c'"
proof -
  have "version_number a b c = version_number a' b' c' \<longleftrightarrow>
      \<not> version_before (a, b, c) (a', b', c') \<and> \<not> version_before (a', b', c') (a, b, c)"
    by (simp add: assms order_eq_iff version_number_less [symmetric] linorder_not_less conj_commute)
  then show ?thesis by (auto simp: version_before_def)
qed

text \<open>The check of the version accepts exactly the versions of mulle-c11 from 4.9.1 to the
  last one before 5.0.0, in the order of their fields and not only of their numbers, as long as
  the fields have room; it rejects all others, and a build that gives its own bounds gets those.\<close>

theorem versioncheck_orders_versions:
  assumes "version_fields a b c" and "version_fields a1 b1 c1" and "version_fields a2 b2 c2"
  shows "versioncheck \<lparr>MULLE__C11_VERSION = Some (version_number a b c),
      MULLE__C11_VERSION_MIN = None, MULLE__C11_VERSION_MAX = None\<rparr> =
     (if version_before (a, b, c) (4, 9, 1) then Too_old
      else if version_before (a, b, c) (5, 0, 0) then Compiles else Too_new) \<and>
    versioncheck \<lparr>MULLE__C11_VERSION = Some (version_number a b c),
      MULLE__C11_VERSION_MIN = Some (version_number a1 b1 c1),
      MULLE__C11_VERSION_MAX = Some (version_number a2 b2 c2)\<rparr> =
     (if version_before (a, b, c) (a1, b1, c1) then Too_old
      else if version_before (a, b, c) (a2, b2, c2) then Compiles else Too_new)"
proof -
  have "version_fields 4 9 1" "version_fields 5 0 0" by (simp_all add: version_fields_def)
  then show ?thesis
    using assms
    by (simp add: versioncheck_def or_else_def Let_def version_number_less linorder_not_less [symmetric])
qed

theorem versioncheck_orders_versions_witness:
  "versioncheck \<lparr>MULLE__C11_VERSION = Some (version_number 4 10 0),
     MULLE__C11_VERSION_MIN = None, MULLE__C11_VERSION_MAX = None\<rparr> = Compiles"
proof -
  have "version_fields 4 10 0" by (simp add: version_fields_def)
  from versioncheck_orders_versions [OF this this this] show ?thesis by (simp add: version_before_def)
qed

text \<open>Where a field has no room, the order is lost: 4.4096.0 is the number of 5.0.0, and 5.4096.0
  is that number too.\<close>

lemma version_fields_overflow:
  "version_number 4 4096 0 = version_number 5 0 0" "version_number 5 4096 0 = version_number 5 0 0"
  by code_simp+

text \<open>The library's own version is 4.11.0.\<close>

lemma library_version:
  "version_number a b c = MULLE__THREAD_VERSION \<and> version_fields a b c \<longleftrightarrow> a = 4 \<and> b = 11 \<and> c = 0"
proof -
  have "version_fields 4 11 0" by (simp add: version_fields_def)
  then show ?thesis
    by (auto simp: MULLE__THREAD_VERSION_def version_number_inject)
qed

text \<open>The linkage: a build of the library itself exports, a client imports only from a dynamic
  library, and the macro of this library overrides the general one.\<close>

lemma linkage_of_clients:
  "\<not> MULLE__THREAD_BUILD c \<Longrightarrow> \<not> MULLE__CORE_BUILD c \<Longrightarrow>
     MULLE__THREAD_GLOBAL c \<noteq> MULLE_C_GLOBAL \<and>
     (MULLE_THREAD_INCLUDE_STATIC c \<and> \<not> MULLE_THREAD_INCLUDE_DYNAMIC c \<longrightarrow>
        MULLE__THREAD_GLOBAL c = Plain_extern)"
  by (simp add: MULLE__THREAD_GLOBAL_def)

end
