(* ===== verification/Thread_Return.thy ===== *)
theory Thread_Return
  imports Thread_Api
begin

text \<open>
  The end of a thread function: \<open>mulle_thread_return\<close> in the three backends
  (\<open>src/mulle-thread-pthreads.h\<close>, \<open>src/mulle-thread-c11.h\<close>, \<open>src/mulle-thread-windows.h\<close>),
  compared with \<open>mulle_thread_exit\<close>. To return from the function a thread was started with is
  to end the thread with that value, as the systems document it.
\<close>

definition pthreads_mulle_thread_return :: "'s pthread_thread_api \<Rightarrow> tid \<Rightarrow> 's \<Rightarrow> 's" where
  "pthreads_mulle_thread_return P t s = pthread_exit P t NULL s"

definition c11_mulle_thread_return :: "'s thrd_api \<Rightarrow> tid \<Rightarrow> 's \<Rightarrow> 's" where
  "c11_mulle_thread_return T t s = thrd_exit T t 0 s"

definition win_return_thread ::
  "bool \<Rightarrow> destructor \<Rightarrow> tss_global \<Rightarrow> tls \<Rightarrow> 's windows_thread_api \<Rightarrow> tid \<Rightarrow> 's \<Rightarrow> tss_fault + (tls \<times> 's)"
where
  "win_return_thread ndebug run g store W t s =
     (case win_mulle_thread_return ndebug run g store of
        Inl e \<Rightarrow> Inl e
      | Inr (code, store') \<Rightarrow> Inr (store', endthreadex W t code s))"

text \<open>Returning is exiting with 0, except on Windows without a key.\<close>

lemma return_is_exit:
  "pthreads_mulle_thread_return P t s = pthreads_mulle_thread_exit P t 0 s"
  "c11_mulle_thread_return T t s' = c11_mulle_thread_exit T t 0 s'"
  by (simp_all add: pthreads_mulle_thread_return_def pthreads_mulle_thread_exit_def
    c11_mulle_thread_return_def c11_mulle_thread_exit_def)

lemma win_return_with_keys:
  assumes "2 \<le> sint (inited g)"
  shows "win_return_thread nd run g store W t s = win_exit_thread nd run g store W t 0 s"
  using assms
  by (simp add: win_return_thread_def win_mulle_thread_return_def win_exit_thread_def
    win_mulle_thread_exit_def mulle_thread_windows_destroy_tss_if_needed_def
    split: sum.splits)

lemma win_return_without_keys:
  assumes "\<not> 2 \<le> sint (inited g)"
  shows "win_return_thread nd run g store W t s = Inr (store, endthreadex W t 0 s)"
  using assms
  by (simp add: win_return_thread_def win_mulle_thread_return_def
    mulle_thread_windows_destroy_tss_if_needed_def)

lemma win_return_works:
  assumes "2 \<le> sint (inited g) \<Longrightarrow> lock_live g"
  shows "win_return_thread nd run g store W t s =
    Inr (if 2 \<le> sint (inited g) then destructor_table_execute_destructors run (g_table g) store else store,
      endthreadex W t 0 s)"
proof (cases "2 \<le> sint (inited g)")
  case True
  then have "inited g \<noteq> 0" by auto
  with exit_thread_with_key [OF this assms [OF True], where rval = 0] True show ?thesis
    by (simp add: win_return_with_keys)
qed (simp add: win_return_without_keys)

context windows_thread_laws
begin

lemma returned_thread_is_joined:
  assumes "win_mulle_thread_create nd W f arg u = Inr (0, k, u1)" and "own t = k"
  shows "\<exists>u2. win_mulle_thread_join W k (endthreadex W t v u1) = Some (v, u2) \<and> status u2 = status u"
proof -
  obtain i where "beginthreadex W f arg u = (k, i, u1)" "k \<noteq> NULL"
    using assms(1) by (auto simp: win_mulle_thread_create_def c_assert_eq_Inr split: prod.splits if_splits)
  from ms_begin [OF this] have n: "status u k = No_handle" and s1: "status u1 = (status u)(k := Running)"
    by simp_all
  have e: "status (endthreadex W t v u1) = (status u)(k := Ended v)"
    using ms_end [of u1 t v] s1 assms(2) by simp
  then have k: "status (endthreadex W t v u1) k = Ended v" by simp
  obtain u2 where u2: "WaitForSingleObject W k (endthreadex W t v u1) = Some (0, u2)"
      "status u2 = (status u)(k := Ended v)"
    using ms_wait_ended [OF k] e by auto
  then have "GetExitCodeThread W k u2 = Some v" by (intro ms_exit_code) simp
  then have "win_mulle_thread_join W k (endthreadex W t v u1) = Some (v, snd (CloseHandle W k u2))"
    using u2 by (simp add: win_mulle_thread_join_def)
  moreover have "((status u)(k := Ended v))(k := No_handle) = status u" using n by (auto simp: fun_eq_iff)
  ultimately show ?thesis by (simp add: ms_close u2(2))
qed

end

text \<open>A thread that ends by \<open>mulle_thread_return\<close> is joined with 0 in all three backends, and
  nothing is left of it. On Windows it first runs its destructors if the counter says that
  there are keys; with none it needs no lock and leaves its storage alone.\<close>

theorem thread_return_joins_zero:
  assumes "pthread_thread_laws P st" and "pthreads_mulle_thread_create nd P f arg s = Inr (0, h, s1)"
    and "pthreads_mulle_thread_self P t = h"
    and "thrd_laws T ct" and "c11_mulle_thread_create nd T f arg c = Inr (0, j, c1)"
    and "c11_mulle_thread_self T t = j"
    and "windows_thread_laws W wt own" and "win_mulle_thread_create nd W f arg u = Inr (0, k, u1)"
    and "own t = k" and "2 \<le> sint (inited g) \<Longrightarrow> lock_live g"
  shows "(\<exists>s2. pthreads_mulle_thread_join P h (pthreads_mulle_thread_return P t s1) = Some (0, s2) \<and> st s2 = st s) \<and>
    (\<exists>c2. c11_mulle_thread_join T j (c11_mulle_thread_return T t c1) = Some (0, c2) \<and> ct c2 = ct c) \<and>
    (\<exists>u2 u3. win_return_thread nd run g store W t u1 =
        Inr (if 2 \<le> sint (inited g) then destructor_table_execute_destructors run (g_table g) store else store, u2) \<and>
      win_mulle_thread_join W k u2 = Some (0, u3) \<and> wt u3 = wt u)"
  using pthread_thread_laws.posix_joined [OF assms(1-3), of 0]
    thrd_laws.c_joined [OF assms(4-6), of 0]
    windows_thread_laws.returned_thread_is_joined [OF assms(7-9), of 0]
    win_return_works [OF assms(10), of nd run store W t u1]
  by (auto simp: return_is_exit)

theorem thread_return_joins_zero_witness:
  "\<exists>u2 u3. win_return_thread False (\<lambda>f v m. m) tss_global_start \<lparr>tls_values = (\<lambda>k. 7), tls_calls = []\<rparr>
      reference_windows_threads 5 (6, (\<lambda>h. No_handle)(5 := Running)) =
     Inr (\<lparr>tls_values = (\<lambda>k. 7), tls_calls = []\<rparr>, u2) \<and>
   win_mulle_thread_join reference_windows_threads 5 u2 = Some (0, u3) \<and> snd u3 = (\<lambda>h. No_handle)"
proof -
  have 1: "pthreads_mulle_thread_create False reference_pthread_threads 0 0 (5, \<lambda>h. No_handle) =
      Inr (0, 5, (6, (\<lambda>h. No_handle)(5 := Running)))"
    "pthreads_mulle_thread_self reference_pthread_threads 5 = 5"
    by (simp_all add: pthreads_mulle_thread_create_def pthreads_mulle_thread_get_id_def
      pthreads_mulle_thread_self_def reference_pthread_threads_def ref_new_def)
  have 2: "c11_mulle_thread_create False reference_thrd 0 0 (5, \<lambda>h. No_handle) =
      Inr (0, 5, (6, (\<lambda>h. No_handle)(5 := Running)))"
    "c11_mulle_thread_self reference_thrd 5 = 5"
    by (simp_all add: c11_mulle_thread_create_def c11_mulle_thread_get_id_def
      c11_mulle_thread_self_def reference_thrd_def ref_new_def)
  have 3: "win_mulle_thread_create False reference_windows_threads 0 0 (5, \<lambda>h. No_handle) =
      Inr (0, 5, (6, (\<lambda>h. No_handle)(5 := Running)))"
    by (simp add: win_mulle_thread_create_def reference_windows_threads_def ref_new_def)
  have n: "\<not> 2 \<le> sint (inited tss_global_start)" by (simp add: tss_global_start_def)
  then have g: "2 \<le> sint (inited tss_global_start) \<Longrightarrow> lock_live tss_global_start" by simp
  from thread_return_joins_zero [OF reference_posix_threads.pthread_thread_laws_axioms 1
      reference_c_threads.thrd_laws_axioms 2 reference_windows.windows_thread_laws_axioms 3 refl g,
      of "\<lambda>f v m. m" "\<lparr>tls_values = (\<lambda>k. 7), tls_calls = []\<rparr>"] n
  show ?thesis by auto
qed

end
