(* ===== verification/Once_Order.thy ===== *)
theory Once_Order
  imports Once_Properties
begin

text \<open>
  Synchronisation by the once flag, on the C11 backend. The memory log records every access
  with its memory order, in the order of execution; \<open>os_rets\<close> records how long the log was
  when \<open>init\<close> returned. The claim is that a caller that returns from a blocking once function
  has synchronised with the initialization: after the return of \<open>init\<close> comes the
  sequentially consistent exchange that publishes DONE, and after that a sequentially
  consistent load of DONE by the caller, unless it is the publisher itself.
\<close>

definition publishes :: "nat \<Rightarrow> event \<Rightarrow> tid \<Rightarrow> bool" where
  "publishes ob e u \<longleftrightarrow> e = Rmw u (ob, 0) memory_order_seq_cst MULLE_THREAD_ONCE_BUSY MULLE_THREAD_ONCE_DONE"

definition sees :: "nat \<Rightarrow> event \<Rightarrow> tid \<Rightarrow> bool" where
  "sees ob e t \<longleftrightarrow> e = Load t (ob, 0) memory_order_seq_cst MULLE_THREAD_ONCE_DONE"

text \<open>\<open>r\<close> is the return of \<open>init\<close>, \<open>i\<close> the position of the publishing exchange by \<open>u\<close>.\<close>

definition published :: "event list \<Rightarrow> nat \<Rightarrow> nat list \<Rightarrow> nat \<Rightarrow> tid \<Rightarrow> bool" where
  "published l ob rets i u \<longleftrightarrow> (\<forall>r \<in> set rets. r \<le> i) \<and> i < length l \<and> publishes ob (l ! i) u"

definition synced :: "event list \<Rightarrow> nat \<Rightarrow> nat list \<Rightarrow> tid \<Rightarrow> bool" where
  "synced l ob rets t \<longleftrightarrow> (\<exists>i u. published l ob rets i u \<and>
     (u = t \<or> (\<exists>j<length l. i < j \<and> sees ob (l ! j) t)))"

lemma published_append: "published l ob rets i u \<Longrightarrow> published (l @ es) ob rets i u"
  by (auto simp: published_def nth_append)

lemma synced_append: "synced l ob rets t \<Longrightarrow> synced (l @ es) ob rets t"
  unfolding synced_def
  by (elim exE conjE disjE) (force intro: published_append simp: nth_append)+

text \<open>The activations that have to be synchronised.\<close>

definition past_wait :: "frame \<Rightarrow> bool" where
  "past_wait fr \<longleftrightarrow> blocking (fr_fn fr) \<and>
     (fr_pc fr \<in> {P_wait_barrier, P_ret} \<or>
      (fr_pc fr \<in> {P_barrier, P_publish} \<and> fr_actual fr \<noteq> MULLE_THREAD_ONCE_DATA))"

definition order_inv :: "once_sys \<Rightarrow> bool" where
  "order_inv s \<longleftrightarrow>
     (\<forall>ob. (\<forall>r \<in> set (os_rets s ob). r \<le> length (log (os_mem s))) \<and>
        (flag_of s ob = MULLE_THREAD_ONCE_DONE \<longrightarrow>
          (\<exists>i u. published (log (os_mem s)) ob (os_rets s ob) i u))) \<and>
     (\<forall>t. \<forall>fr \<in> set (os_stk s t). past_wait fr \<longrightarrow>
        synced (log (os_mem s)) (fr_obj fr) (os_rets s (fr_obj fr)) t)"

text \<open>What a step adds to the log where it matters.\<close>

lemma once_fn_step_log:
  assumes "once_fn_step c11_backend nd t fr m = (fr', m')"
    and "frame_ok (cells m (once_addr fr)) fr" and "fr_pc fr \<noteq> P_ret"
    and "owner_frame (fr_obj fr) fr \<Longrightarrow> cells m (once_addr fr) = MULLE_THREAD_ONCE_BUSY"
  shows "\<exists>es. log m' = log m @ es \<and>
    (past_wait fr' \<and> \<not> past_wait fr \<longrightarrow>
       (cells m (once_addr fr) = MULLE_THREAD_ONCE_DONE \<and> es \<noteq> [] \<and> sees (fr_obj fr) (last es) t) \<or>
       (cells m (once_addr fr) = MULLE_THREAD_ONCE_BUSY \<and> es \<noteq> [] \<and> publishes (fr_obj fr) (last es) t)) \<and>
    (cells m (once_addr fr) \<noteq> MULLE_THREAD_ONCE_DONE \<and> cells m' (once_addr fr) = MULLE_THREAD_ONCE_DONE \<longrightarrow>
       es \<noteq> [] \<and> publishes (fr_obj fr) (last es) t)"
  using assms
  by (cases "fr_pc fr"; cases "fr_fn fr")
    (auto simp: once_fn_defs Let_def past_wait_def frame_ok_def blocking_def owner_frame_def
      atomic_api_defs c11_backend_def c11_pointer_defs stdatomic_defs sees_def publishes_def
      once_addr_def once_init_eq_data split: if_splits)

lemma nth_append_last: "es \<noteq> [] \<Longrightarrow> (l @ es) ! (length l + length es - 1) = last es"
  using last_conv_nth [of "l @ es"] by simp

lemma published_last:
  assumes "\<forall>r \<in> set rets. r \<le> length l" and "es \<noteq> []" and "publishes ob (last es) u"
  shows "\<exists>i. published (l @ es) ob rets i u"
proof (intro exI)
  have "(l @ es) ! (length l + length es - 1) = last es"
    using nth_append_last [OF assms(2)] .
  then show "published (l @ es) ob rets (length l + length es - 1) u"
    using assms by (cases es) (auto simp: published_def)
qed

lemma synced_sees:
  assumes "published l ob rets i u" and "es \<noteq> []" and "sees ob (last es) t"
  shows "synced (l @ es) ob rets t"
proof -
  have "(l @ es) ! (length l + length es - 1) = last es"
    using nth_append_last [OF assms(2)] .
  moreover have "i < length l + length es - 1" "length l + length es - 1 < length (l @ es)"
    using assms(1,2) by (cases es; simp add: published_def)+
  ultimately show ?thesis
    using published_append [OF assms(1), of es] assms(3) unfolding synced_def by metis
qed

lemma past_wait_done: "past_wait fr \<Longrightarrow> frame_ok w fr \<Longrightarrow> w = MULLE_THREAD_ONCE_DONE"
  by (auto simp: past_wait_def frame_ok_def)

lemma order_inv_stk:
  assumes "order_inv s" and "\<And>t fr. fr \<in> set (f t) \<Longrightarrow> past_wait fr \<Longrightarrow> fr \<in> set (os_stk s t)"
  shows "order_inv (s\<lparr>os_stk := f\<rparr>)"
  using assms by (auto simp: order_inv_def)

lemma order_step:
  assumes inv: "once_inv s" and ord: "order_inv s" and st: "os_stk s t = fr # rest"
    and pc: "fr_pc fr \<noteq> P_ret" and step: "once_fn_step c11_backend nd t fr (os_mem s) = (fr', m')"
  shows "order_inv (after_step t fr rest fr' m' s)" (is "order_inv ?s")
proof -
  define ob where "ob = fr_obj fr"
  define l where "l = log (os_mem s)"
  have addr: "once_addr fr = (ob, 0)" by (simp add: once_addr_def ob_def)
  have ok: "frame_ok (flag_of s ob) fr"
    using c11.frame_ok_top [OF inv st] by (simp add: ob_def)
  have own: "owner_frame ob fr \<Longrightarrow> flag_of s ob = MULLE_THREAD_ONCE_BUSY"
    using c11.owner_top [OF inv st] .
  have ref: "same_call fr fr'" "\<forall>a. a \<noteq> (ob, 0) \<longrightarrow> cells m' a = cells (os_mem s) a"
    "once_trans (blocking (fr_fn fr)) (fr_pc fr) (fr_actual fr) (flag_of s ob)
      (fr_pc fr') (fr_actual fr') (cells m' (ob, 0))"
    using c11.once_fn_step_refines [OF step _ pc] ok by (auto simp: flag_of_def addr)
  obtain es where es: "log m' = l @ es"
    and past: "past_wait fr' \<Longrightarrow> \<not> past_wait fr \<Longrightarrow>
       (flag_of s ob = MULLE_THREAD_ONCE_DONE \<and> es \<noteq> [] \<and> sees ob (last es) t) \<or>
       (flag_of s ob = MULLE_THREAD_ONCE_BUSY \<and> es \<noteq> [] \<and> publishes ob (last es) t)"
    and pub: "flag_of s ob \<noteq> MULLE_THREAD_ONCE_DONE \<Longrightarrow> cells m' (ob, 0) = MULLE_THREAD_ONCE_DONE \<Longrightarrow>
       es \<noteq> [] \<and> publishes ob (last es) t"
    using once_fn_step_log [OF step _ pc] ok own
    by (auto simp: flag_of_def addr l_def simp flip: ob_def)
  have rets: "os_rets ?s ob' = os_rets s ob' \<or>
      (ob' = ob \<and> flag_of s ob = MULLE_THREAD_ONCE_BUSY \<and> fr_pc fr = P_in_init \<and>
        os_rets ?s ob' = os_rets s ob' @ [length (log m')])" for ob'
    using ok own by (auto simp: after_step_def frame_ok_def owner_frame_def ob_def)
  have in_init: "fr_pc fr' = P_barrier \<and> cells m' (ob, 0) = flag_of s ob \<and> \<not> past_wait fr'"
    if "fr_pc fr = P_in_init"
    using ref(1,3) ok that by (auto simp: once_trans_simps past_wait_def frame_ok_def)
  have old: "(\<forall>r \<in> set (os_rets s ob'). r \<le> length l)" "flag_of s ob' = MULLE_THREAD_ONCE_DONE \<Longrightarrow>
      (\<exists>i u. published l ob' (os_rets s ob') i u)" for ob'
    using ord by (auto simp: order_inv_def l_def)
  have A: "\<forall>r \<in> set (os_rets ?s ob'). r \<le> length (log (os_mem ?s))" for ob'
  proof -
    have "os_mem ?s = m'" by (simp add: after_step_def)
    then show ?thesis using rets [of ob'] old(1) [of ob'] es by force
  qed
  have B: "\<exists>i u. published (log (os_mem ?s)) ob' (os_rets ?s ob') i u"
    if "flag_of ?s ob' = MULLE_THREAD_ONCE_DONE" for ob'
  proof (cases "flag_of s ob' = MULLE_THREAD_ONCE_DONE")
    case True
    then have "os_rets ?s ob' = os_rets s ob'" using rets [of ob'] by auto
    moreover have "log (os_mem ?s) = l @ es" using es by (simp add: after_step_def)
    ultimately show ?thesis using old(2) [OF True] published_append by metis
  next
    case False
    then have eq: "ob' = ob"
      using that ref(2) [rule_format, of "(ob', 0)"] by (auto simp: flag_of_def after_step_def)
    have "cells m' (ob, 0) = MULLE_THREAD_ONCE_DONE"
      using that eq by (simp add: flag_of_def after_step_def)
    with False eq in_init have "fr_pc fr \<noteq> P_in_init" "es \<noteq> [] \<and> publishes ob (last es) t"
      using pub by auto
    with published_last [OF old(1) [of ob]] obtain i where
      "published (l @ es) ob (os_rets s ob) i t" by blast
    then show ?thesis
      using es eq \<open>fr_pc fr \<noteq> P_in_init\<close> by (auto simp: after_step_def)
  qed
  have keep: "os_rets ?s (fr_obj g) = os_rets s (fr_obj g)" if "past_wait g" "g \<in> set (os_stk s t')" for g t'
  proof -
    have "frame_ok (flag_of s (fr_obj g)) g"
      using inv that by (auto simp: once_inv_def stack_ok_def)
    then have "flag_of s (fr_obj g) = MULLE_THREAD_ONCE_DONE" using past_wait_done that by blast
    with rets [of "fr_obj g"] show ?thesis by auto
  qed
  have C: "synced (log (os_mem ?s)) (fr_obj g) (os_rets ?s (fr_obj g)) t'"
    if "past_wait g" "g \<in> set (os_stk ?s t')" for g t'
  proof (cases "g \<in> set (os_stk s t')")
    case True
    then have "synced l (fr_obj g) (os_rets s (fr_obj g)) t'"
      using ord that by (auto simp: order_inv_def l_def)
    with keep [OF that(1) True] show ?thesis by (simp add: after_step_def es synced_append)
  next
    case False
    with that st have g: "g = fr'" "t' = t" by (auto simp: after_step_def split: if_splits)
    have ob: "fr_obj fr' = ob" using ref(1) by (simp add: same_call_def ob_def)
    have pi: "fr_pc fr \<noteq> P_in_init" using in_init that(1) g by auto
    then have rets': "os_rets ?s ob = os_rets s ob" by (simp add: after_step_def)
    show ?thesis
    proof (cases "past_wait fr")
      case True
      then have "synced l ob (os_rets s ob) t"
        using ord st by (auto simp: order_inv_def l_def ob_def)
      then show ?thesis by (simp add: g ob rets') (simp add: after_step_def es synced_append)
    next
      case False
      from past [OF that(1) [unfolded g] False] have "synced (l @ es) ob (os_rets s ob) t"
        using old(2) [of ob] synced_sees published_last [OF old(1)] unfolding synced_def by metis
      then show ?thesis by (simp add: g ob rets') (simp add: after_step_def es)
    qed
  qed
  show ?thesis using A B C unfolding order_inv_def by blast
qed

lemma once_reach_order: "once_reach c11_backend nd s \<Longrightarrow> order_inv s"
proof (induction rule: once_reach.induct)
  case (reach_start s)
  then show ?case by (auto simp: once_start_def order_inv_def flag_of_def once_init_eq_data)
next
  case (reach_step s mv s')
  note inv = c11.once_reach_inv [OF reach_step.hyps(1)]
  show ?case
  proof (cases mv)
    case (Invoke t f ob ui)
    with reach_step.hyps(2) have "s' = s\<lparr>os_stk := (os_stk s)(t := new_frame f ob ui # os_stk s t)\<rparr>"
      by (auto split: if_splits)
    moreover have "\<not> past_wait (new_frame f ob ui)" by (simp add: past_wait_def)
    ultimately show ?thesis
      by (simp only:, intro order_inv_stk [OF reach_step.IH]) (auto split: if_splits)
  next
    case (Step t)
    with reach_step have "once_exec c11_backend nd (Step t) s = Some s'" by simp
    then show ?thesis
    proof (cases rule: once_exec_StepE)
      case (1 fr rest)
      show ?thesis
        unfolding 1(3) by (rule order_inv_stk [OF reach_step.IH]) (use 1(1) in \<open>auto split: if_splits\<close>)
    next
      case (2 fr rest fr' m')
      with order_step [OF inv reach_step.IH 2(1,2,4)] show ?thesis by simp
    qed
  qed
qed

text \<open>C10: the happens-before edge of one-time initialization. When a blocking once function
  returns to thread \<open>t\<close>, the log holds, after the return of \<open>init\<close>, a sequentially consistent
  exchange of the flag from BUSY to DONE, made by \<open>t\<close> itself or followed by a sequentially
  consistent load of DONE by \<open>t\<close>.\<close>

theorem once_return_synchronizes:
  assumes "once_reach c11_backend nd s" and "os_stk s t = fr # rest"
    and "fr_pc fr = P_ret" and "fr_fn fr \<in> {Once, Once_call, Once_do}"
  shows "\<exists>r i u. os_rets s (fr_obj fr) = [r] \<and> r \<le> i \<and> i < length (log (os_mem s)) \<and>
    log (os_mem s) ! i = Rmw u (once_addr fr) memory_order_seq_cst
      MULLE_THREAD_ONCE_BUSY MULLE_THREAD_ONCE_DONE \<and>
    (u = t \<or> (\<exists>j<length (log (os_mem s)). i < j \<and>
      log (os_mem s) ! j = Load t (once_addr fr) memory_order_seq_cst MULLE_THREAD_ONCE_DONE))"
proof -
  have b: "blocking (fr_fn fr)" using assms(4) by (simp add: blocking_def)
  obtain r where r: "os_rets s (fr_obj fr) = [r]"
    using c11.once_ret_done [OF c11.once_reach_inv [OF assms(1)] assms(2,3) b]
    by (auto simp: length_Suc_conv)
  have "synced (log (os_mem s)) (fr_obj fr) (os_rets s (fr_obj fr)) t"
    using once_reach_order [OF assms(1)] assms(2,3) b by (auto simp: order_inv_def past_wait_def)
  then show ?thesis
    by (auto simp: r synced_def published_def publishes_def sees_def once_addr_def)
qed

theorem once_return_synchronizes_witness:
  "\<exists>s. once_run c11_backend False example_final once_init_sys = Some s \<and>
     (\<exists>i u. log (os_mem s) ! i = Rmw u (0, 0) memory_order_seq_cst
        MULLE_THREAD_ONCE_BUSY MULLE_THREAD_ONCE_DONE)"
proof -
  have fn: "map_option (\<lambda>s. map (\<lambda>fr. (fr_fn fr, fr_obj fr)) (os_stk s 2))
      (once_run c11_backend False example_final once_init_sys) = Some [(Once_call, 0)]"
    by code_simp
  obtain s where s: "once_reach c11_backend False s" "example_view s = ([P_ret], [P_ret], 1, 1, 1)"
    "once_run c11_backend False example_final once_init_sys = Some s"
    by (rule example_final_reach)
  obtain fr where fr: "os_stk s 2 = [fr]" "fr_pc fr = P_ret" "fr_fn fr = Once_call" "fr_obj fr = 0"
    using s(2,3) fn by (auto simp: example_view_def)
  show ?thesis
    using once_return_synchronizes [OF s(1) fr(1,2)] fr(3,4) s(3) by (auto simp: once_addr_def)
qed

end
