(* ===== verification/Once_Recursive_Order.thy ===== *)
theory Once_Recursive_Order
  imports Once_Order Once_Recursive_Properties
begin

text \<open>
  Synchronisation by the recursive once flag, on the C11 backend, with the log of accesses and
  the edge of theory \<open>Once_Order\<close>. A call that returns into its own unfinished \<open>init\<close> needs
  none; every other one has synchronised with the initialization.
\<close>

text \<open>The activations that have seen that the flag is DONE.\<close>

definition rec_past :: "rec_frame \<Rightarrow> bool" where
  "rec_past fr \<longleftrightarrow> rf_pc fr = R_wait_barrier \<or>
     (rf_pc fr \<in> {R_clear_tid, R_barrier, R_publish} \<and> rf_actual fr \<noteq> MULLE_THREAD_ONCE_DATA)"

definition rec_to_sync :: "rec_frame list \<Rightarrow> bool" where
  "rec_to_sync st \<longleftrightarrow> (case st of [] \<Rightarrow> False
     | fr # rest \<Rightarrow> rec_past fr \<or> (rf_pc fr = R_ret \<and> rec_owned (rf_obj fr) rest = 0))"

definition rec_order_inv :: "rec_sys \<Rightarrow> bool" where
  "rec_order_inv s \<longleftrightarrow>
     (\<forall>ob. (\<forall>r \<in> set (rs_rets s ob). r \<le> length (log (rs_mem s))) \<and>
        (rec_flag s ob = MULLE_THREAD_ONCE_DONE \<longrightarrow>
          (\<exists>i u. published (log (rs_mem s)) ob (rs_rets s ob) i u))) \<and>
     (\<forall>t. rec_to_sync (rs_stk s t) \<longrightarrow>
        synced (log (rs_mem s)) (rf_obj (hd (rs_stk s t))) (rs_rets s (rf_obj (hd (rs_stk s t)))) t)"

lemma rec_order_top:
  assumes "rec_order_inv s" and "rs_stk s t = fr # rest" and "rec_to_sync (fr # rest)"
  shows "synced (log (rs_mem s)) (rf_obj fr) (rs_rets s (rf_obj fr)) t"
  using assms unfolding rec_order_inv_def by (metis list.sel(1))

text \<open>What a step adds to the log where it matters.\<close>

lemma rec_fn_step_log:
  assumes "rec_fn_step c11_backend nd t fr m = (fr', m')"
    and "rec_frame_ok (cells m (rf_obj fr, 0)) fr" and "rf_pc fr \<notin> {R_ret, R_abort}"
    and "rec_owner (rf_obj fr) fr \<Longrightarrow> cells m (rf_obj fr, 0) = MULLE_THREAD_ONCE_BUSY"
  shows "\<exists>es. log m' = log m @ es \<and>
    ((rec_past fr' \<or> rf_pc fr' = R_ret) \<and> \<not> rec_past fr \<and> rf_pc fr \<noteq> R_read_tid \<longrightarrow>
       (cells m (rf_obj fr, 0) = MULLE_THREAD_ONCE_DONE \<and> es \<noteq> [] \<and> sees (rf_obj fr) (last es) t) \<or>
       (cells m (rf_obj fr, 0) = MULLE_THREAD_ONCE_BUSY \<and> es \<noteq> [] \<and> publishes (rf_obj fr) (last es) t)) \<and>
    (cells m (rf_obj fr, 0) \<noteq> MULLE_THREAD_ONCE_DONE \<and> cells m' (rf_obj fr, 0) = MULLE_THREAD_ONCE_DONE \<longrightarrow>
       es \<noteq> [] \<and> publishes (rf_obj fr) (last es) t)"
  using assms
  by (cases "rf_pc fr"; cases "rf_fn fr")
    (auto simp: rec_fn_defs Let_def rec_past_def rec_frame_ok_def rec_owner_def
      atomic_api_defs c11_backend_def c11_pointer_defs stdatomic_defs sees_def publishes_def
      rec_state_def rec_thread_id_def once_init_eq_data split: if_splits)


lemma rec_to_sync_done:
  assumes "rec_inv s" and "rec_to_sync (rs_stk s t)"
  shows "rec_flag s (rf_obj (hd (rs_stk s t))) = MULLE_THREAD_ONCE_DONE"
proof (cases "rs_stk s t")
  case (Cons fr rest)
  have "rec_stack_ok s (fr # rest)" using assms(1) Cons by (simp add: rec_inv_def) (metis Cons)
  with assms(2) Cons show ?thesis
    by (auto simp: rec_to_sync_def rec_past_def rec_stack_ok_def rec_frame_ok_def rec_top_ok_def)
qed (use assms(2) in \<open>simp add: rec_to_sync_def\<close>)

text \<open>A call that returns after its first access is one from inside \<open>init\<close>.\<close>

lemma rec_read_tid_nested:
  assumes inv: "rec_inv s" and st: "rs_stk s t = fr # rest" and pc: "rf_pc fr = R_read_tid"
    and step: "rec_fn_step c11_backend nd t fr (rs_mem s) = (fr', m')"
  shows "\<not> rec_to_sync (fr' # rest)"
proof
  assume sync: "rec_to_sync (fr' # rest)"
  have ref: "rec_same_call fr fr'"
    "rec_trans t (rf_pc fr) (rf_actual fr) (rec_flag s (rf_obj fr)) (rec_id s (rf_obj fr))
      (rf_pc fr') (rf_actual fr') (cells m' (rec_state fr)) (cells m' (rec_thread_id fr))"
    using c11.rec_fn_step_refines [OF step] pc
    by (auto simp: rec_flag_def rec_id_def rec_state_def rec_thread_id_def)
  have fi: "rec_flag_inv s (rf_obj fr)" and t: "t \<noteq> 0"
    using inv st by (auto simp: rec_inv_def)
  have ret: "rf_pc fr' = R_ret" "rec_id s (rf_obj fr) = t"
    and zero: "rec_owned (rf_obj fr) rest = 0"
    using ref sync pc by (auto simp: rec_trans_simps rec_to_sync_def rec_past_def rec_same_call_def)
  have "rec_owned (rf_obj fr) (rs_stk s t) = 0"
    using zero pc st by (simp add: rec_owner_def)
  moreover have "rec_flag s (rf_obj fr) = MULLE_THREAD_ONCE_BUSY"
    using fi ret(2) t by (auto simp: rec_flag_inv_def)
  then obtain u g where g: "g \<in> set (rs_stk s u)" "rec_owner (rf_obj fr) g"
    using fi rec_owned_nonzero [of "rf_obj fr"] unfolding rec_flag_inv_def
    by (metis once_flags_distinct(2,5) zero_neq_one)
  moreover have "u = t"
    using rec_flag_inv_owner(4) [OF fi g] ret(2) t by (auto simp: rec_id_at_def split: if_splits)
  ultimately show False by (auto simp: rec_owned_zero_iff)
qed

lemma rec_order_stk:
  assumes "rec_order_inv s"
    and "\<And>u. rec_to_sync (f u) \<Longrightarrow> rec_to_sync (rs_stk s u) \<and> rf_obj (hd (f u)) = rf_obj (hd (rs_stk s u))"
  shows "rec_order_inv (s\<lparr>rs_stk := f\<rparr>)"
  using assms by (fastforce simp: rec_order_inv_def)

lemma rec_order_step:
  assumes inv: "rec_inv s" and ord: "rec_order_inv s" and st: "rs_stk s t = fr # rest"
    and pc: "rf_pc fr \<notin> {R_ret, R_abort}"
    and step: "rec_fn_step c11_backend nd t fr (rs_mem s) = (fr', m')"
  shows "rec_order_inv (rec_after t fr rest fr' m' s)" (is "rec_order_inv ?s")
proof -
  define ob where "ob = rf_obj fr"
  define l where "l = log (rs_mem s)"
  have sok: "rec_stack_ok s (fr # rest)" using inv st by (metis rec_inv_def)
  have fi: "rec_flag_inv s ob" using inv by (simp add: rec_inv_def)
  have ok: "rec_frame_ok (rec_flag s ob) fr" using sok by (simp add: rec_stack_ok_def ob_def)
  have own: "rec_flag s ob = MULLE_THREAD_ONCE_BUSY" if "rec_owner ob fr"
    using rec_flag_inv_owner(1) [OF fi _ that, of t] st by simp
  have ref: "rec_same_call fr fr'" "\<forall>a. a \<noteq> (ob, 0) \<longrightarrow> a \<noteq> (ob, 1) \<longrightarrow> cells m' a = cells (rs_mem s) a"
    "rec_trans t (rf_pc fr) (rf_actual fr) (rec_flag s ob) (rec_id s ob)
      (rf_pc fr') (rf_actual fr') (cells m' (ob, 0)) (cells m' (ob, 1))"
    using c11.rec_fn_step_refines [OF step pc]
    by (auto simp: rec_flag_def rec_id_def rec_state_def rec_thread_id_def ob_def)
  obtain es where es: "log m' = l @ es"
    and past: "rec_past fr' \<or> rf_pc fr' = R_ret \<Longrightarrow> \<not> rec_past fr \<Longrightarrow> rf_pc fr \<noteq> R_read_tid \<Longrightarrow>
       (rec_flag s ob = MULLE_THREAD_ONCE_DONE \<and> es \<noteq> [] \<and> sees ob (last es) t) \<or>
       (rec_flag s ob = MULLE_THREAD_ONCE_BUSY \<and> es \<noteq> [] \<and> publishes ob (last es) t)"
    and pub: "rec_flag s ob \<noteq> MULLE_THREAD_ONCE_DONE \<Longrightarrow> cells m' (ob, 0) = MULLE_THREAD_ONCE_DONE \<Longrightarrow>
       es \<noteq> [] \<and> publishes ob (last es) t"
    using rec_fn_step_log [OF step _ pc] ok own
    by (auto simp: rec_flag_def l_def simp flip: ob_def)
  have mem: "rs_mem ?s = m'" by (simp add: rec_after_def)
  have in_init: "cells m' (ob, 0) = MULLE_THREAD_ONCE_BUSY \<and> rec_flag s ob = MULLE_THREAD_ONCE_BUSY \<and>
      rf_pc fr' = R_clear_tid \<and> \<not> rec_past fr'"
    if "rf_pc fr = R_in_init"
    using ref(1,3) ok own that
    by (auto simp: rec_trans_simps rec_past_def rec_frame_ok_def rec_owner_def ob_def rec_same_call_def)
  have rets: "rs_rets ?s ob' = (if rf_pc fr = R_in_init \<and> ob' = ob
      then rs_rets s ob @ [length (l @ es)] else rs_rets s ob')" for ob'
    by (simp add: rec_after_def ob_def es)
  have old: "(\<forall>r \<in> set (rs_rets s ob'). r \<le> length l)" "rec_flag s ob' = MULLE_THREAD_ONCE_DONE \<Longrightarrow>
      (\<exists>i u. published l ob' (rs_rets s ob') i u)" for ob'
    using ord by (auto simp: rec_order_inv_def l_def)
  have A: "\<forall>r \<in> set (rs_rets ?s ob'). r \<le> length (log (rs_mem ?s))" for ob'
    unfolding rets mem es using old(1) [of ob'] old(1) [of ob] by (auto intro: trans_le_add1)
  have B: "\<exists>i u. published (log (rs_mem ?s)) ob' (rs_rets ?s ob') i u"
    if dn: "rec_flag ?s ob' = MULLE_THREAD_ONCE_DONE" for ob'
  proof (cases "ob' = ob \<and> rec_flag s ob \<noteq> MULLE_THREAD_ONCE_DONE")
    case True
    then have w: "cells m' (ob, 0) = MULLE_THREAD_ONCE_DONE"
      using dn by (simp add: rec_flag_def rec_after_def)
    with in_init have ni: "rf_pc fr \<noteq> R_in_init" by auto
    from published_last [OF old(1) [of ob]] pub True w
    obtain i where "published (l @ es) ob (rs_rets s ob) i t" by blast
    then show ?thesis using True ni rets [of ob] by (auto simp: mem es)
  next
    case False
    have same: "rec_flag s ob' = MULLE_THREAD_ONCE_DONE"
    proof (cases "ob' = ob")
      case True
      with False show ?thesis by simp
    next
      case ne: False
      then have "cells m' (ob', 0) = cells (rs_mem s) (ob', 0)" using ref(2) by simp
      with dn show ?thesis by (simp add: rec_flag_def rec_after_def)
    qed
    have "\<not> (rf_pc fr = R_in_init \<and> ob' = ob)" using same in_init by auto
    with old(2) [OF same] show ?thesis using rets [of ob'] published_append by (metis mem es)
  qed
  have C: "synced (log (rs_mem ?s)) (rf_obj (hd (rs_stk ?s u))) (rs_rets ?s (rf_obj (hd (rs_stk ?s u)))) u"
    if sync: "rec_to_sync (rs_stk ?s u)" for u
  proof (cases "u = t")
    case False
    let ?o = "rf_obj (hd (rs_stk s u))"
    have stk: "rs_stk ?s u = rs_stk s u" using False by (simp add: rec_after_def)
    have dn: "rec_flag s ?o = MULLE_THREAD_ONCE_DONE"
      using rec_to_sync_done [OF inv, of u] sync stk by simp
    then have "rs_rets ?s ?o = rs_rets s ?o" using in_init rets [of ?o] by auto
    moreover have "synced l ?o (rs_rets s ?o) u"
      using ord sync stk by (simp add: rec_order_inv_def l_def)
    ultimately show ?thesis by (simp add: stk mem es synced_append)
  next
    case True
    have stk: "rs_stk ?s t = fr' # rest" by (simp add: rec_after_def)
    have o: "rf_obj fr' = ob" using ref(1) by (simp add: rec_same_call_def ob_def)
    have sync': "rec_to_sync (fr' # rest)" using sync True stk by simp
    then have p: "rec_past fr' \<or> rf_pc fr' = R_ret" by (simp add: rec_to_sync_def) blast
    with in_init have ni: "rf_pc fr \<noteq> R_in_init" by auto
    have rd: "rf_pc fr \<noteq> R_read_tid"
      using rec_read_tid_nested [OF inv st _ step] sync' by blast
    have "synced (l @ es) ob (rs_rets s ob) t"
    proof (cases "rec_past fr")
      case True
      then have "synced l ob (rs_rets s ob) t"
        using rec_order_top [OF ord st] by (simp add: rec_to_sync_def l_def ob_def)
      then show ?thesis by (rule synced_append)
    next
      case False
      from past [OF p False rd] show ?thesis
        using old(2) [of ob] synced_sees published_last [OF old(1)] unfolding synced_def by metis
    qed
    then show ?thesis using True ni rets [of ob] by (simp add: stk o mem es)
  qed
  show ?thesis using A B C unfolding rec_order_inv_def by blast
qed


lemma rec_reach_order: "rec_reach c11_backend nd s \<Longrightarrow> rec_order_inv s"
proof (induction rule: rec_reach.induct)
  case (rec_reach_start s)
  then show ?case
    by (auto simp: rec_start_def rec_order_inv_def rec_flag_def rec_to_sync_def once_init_eq_data
      MULLE_THREAD_ONCE_RECURSIVE_INIT_def)
next
  case (rec_reach_step s mv s')
  note inv = c11.rec_reach_inv [OF rec_reach_step.hyps(1)]
  show ?case
  proof (cases mv)
    case (R_invoke t e)
    with rec_reach_step.hyps(2) have "s' = s\<lparr>rs_stk := (rs_stk s)(t := entry_frame e # rs_stk s t)\<rparr>"
      by (auto split: if_splits)
    then show ?thesis
      by (simp only:, intro rec_order_stk [OF rec_reach_step.IH])
        (auto simp: rec_to_sync_def rec_past_def split: if_splits)
  next
    case (R_step t)
    with rec_reach_step have "rec_exec c11_backend nd (R_step t) s = Some s'" by simp
    then show ?thesis
    proof (cases rule: rec_exec_StepE)
      case (1 fr rest)
      have "rec_stack_ok s (fr # rest)" using inv 1(1) by (metis rec_inv_def)
      then have no: "\<not> rec_to_sync rest"
        by (cases rest) (auto simp: rec_to_sync_def rec_past_def rec_stack_ok_def)
      show ?thesis
        unfolding 1(3) by (rule rec_order_stk [OF rec_reach_step.IH]) (use no in \<open>auto split: if_splits\<close>)
    next
      case (2 fr rest fr' m')
      with rec_order_step [OF inv rec_reach_step.IH 2(1,2,3)] show ?thesis by simp
    qed
  qed
qed

text \<open>C11: the happens-before edge of recursive one-time initialization. When a call on a
  recursive once flag, by function or macro, returns to thread \<open>t\<close>, either it was made from
  inside the unfinished \<open>init\<close> of that flag on the same thread; or the log holds, after the
  return of \<open>init\<close>, a sequentially consistent exchange of the flag from BUSY to DONE, made by
  \<open>t\<close> itself or followed by a sequentially consistent load of DONE by \<open>t\<close>.\<close>

theorem rec_return_synchronizes:
  assumes "rec_reach c11_backend nd s" and "rs_stk s t = fr # rest" and "rf_pc fr = R_ret"
    and "\<And>g. g \<in> set rest \<Longrightarrow> rf_obj g = rf_obj fr \<Longrightarrow> rf_pc g \<noteq> R_in_init"
  shows "\<exists>r i u. rs_rets s (rf_obj fr) = [r] \<and> r \<le> i \<and> i < length (log (rs_mem s)) \<and>
    log (rs_mem s) ! i = Rmw u (rec_state fr) memory_order_seq_cst
      MULLE_THREAD_ONCE_BUSY MULLE_THREAD_ONCE_DONE \<and>
    (u = t \<or> (\<exists>j<length (log (rs_mem s)). i < j \<and>
      log (rs_mem s) ! j = Load t (rec_state fr) memory_order_seq_cst MULLE_THREAD_ONCE_DONE))"
proof -
  let ?ob = "rf_obj fr"
  have inv: "rec_inv s" by (rule c11.rec_reach_inv [OF assms(1)])
  have sok: "rec_stack_ok s (fr # rest)" using inv assms(2) by (metis rec_inv_def)
  have zero: "rec_owned ?ob rest = 0"
    using sok assms(4) unfolding rec_owned_zero_iff
    by (auto simp: rec_stack_ok_def rec_owner_def)
  then have "rec_flag s ?ob = MULLE_THREAD_ONCE_DONE"
    using sok assms(3) by (simp add: rec_stack_ok_def rec_top_ok_def)
  then obtain r where r: "rs_rets s ?ob = [r]"
    using inv by (auto simp: rec_inv_def rec_flag_inv_def length_Suc_conv dest!: spec [of _ ?ob])
  have "synced (log (rs_mem s)) ?ob (rs_rets s ?ob) t"
    using rec_order_top [OF rec_reach_order [OF assms(1)] assms(2)] assms(3) zero
    by (simp add: rec_to_sync_def)
  then show ?thesis
    by (auto simp: r synced_def published_def publishes_def sees_def rec_state_def)
qed

theorem rec_return_synchronizes_witness:
  "\<exists>s. rec_run c11_backend False rec_example_end rec_init_sys = Some s \<and>
     (\<exists>i u. log (rs_mem s) ! i = Rmw u (0, 0) memory_order_seq_cst
        MULLE_THREAD_ONCE_BUSY MULLE_THREAD_ONCE_DONE)"
proof -
  obtain s fr where s: "rec_reach c11_backend False s"
    "rec_run c11_backend False rec_example_end rec_init_sys = Some s"
    "rs_stk s 1 = [fr]" "rf_pc fr = R_ret" "rf_obj fr = 0"
    by (rule rec_example_end_reach)
  from rec_return_synchronizes [OF s(1,3,4)] s(2,5) show ?thesis by (auto simp: rec_state_def)
qed

end
