(* ===== verification/Win_Mutex_Refinement.thy ===== *)
theory Win_Mutex_Refinement
  imports Win_Mutex_Invariant
begin

text \<open>
  The Windows mutex (\<open>src/mulle-thread-windows.h\<close>, \<open>src/mulle-thread-windows.c\<close>) as an
  implementation of the plain mutex of the other backends. Its calls take several steps; each
  takes effect at one of them, where the section is entered or left or a trylock is refused.
  The sequence of these points is a run of the reference mutex, call by call.
\<close>

subsection \<open>Runs of a plain mutex\<close>

text \<open>A lock or a trylock that succeeds, an unlock, and a trylock that is refused with the code it
  returns.\<close>

datatype mx_event = Mx_take tid | Mx_give tid | Mx_refuse tid int

fun mx_apply :: "'m mutex_ops \<Rightarrow> mx_event \<Rightarrow> 'm \<Rightarrow> 'm option" where
  "mx_apply M (Mx_take t) m =
     (case mo_lock M t m of None \<Rightarrow> None | Some (r, m') \<Rightarrow> if r = 0 then Some m' else None)"
| "mx_apply M (Mx_give t) m =
     (case mo_unlock M t m of (r, m') \<Rightarrow> if r = 0 then Some m' else None)"
| "mx_apply M (Mx_refuse t code) m =
     (case mo_trylock M t m of (r, m') \<Rightarrow> if r \<noteq> 0 \<and> r = code then Some m' else None)"

fun mx_run :: "'m mutex_ops \<Rightarrow> mx_event list \<Rightarrow> 'm \<Rightarrow> 'm option" where
  "mx_run M [] m = Some m"
| "mx_run M (e # es) m = (case mx_apply M e m of None \<Rightarrow> None | Some m' \<Rightarrow> mx_run M es m')"

lemma mx_run_append:
  "mx_run M (xs @ ys) m = (case mx_run M xs m of None \<Rightarrow> None | Some m' \<Rightarrow> mx_run M ys m')"
  by (induction xs arbitrary: m) (auto split: option.splits)

text \<open>The reference mutex is the thread that holds it.\<close>

abbreviation reference_mutex :: "tid option mutex_ops" where
  "reference_mutex \<equiv> pthreads_mutex reference_pthread"

lemma mx_apply_reference:
  "mx_apply reference_mutex (Mx_take t) m = (if m = None then Some (Some t) else None)"
  "mx_apply reference_mutex (Mx_give t) m = (if m = Some t then Some None else None)"
  "mx_apply reference_mutex (Mx_refuse t code) m = (if m = None \<or> code \<noteq> EBUSY then None else Some m)"
  by (simp_all add: pthreads_mutex_defs reference_pthread_def zero_or_minus_one_def EBUSY_def)

subsection \<open>Where the calls take effect\<close>

text \<open>The effect of the step of thread \<open>t\<close> that takes its activation from \<open>a\<close> to \<open>a'\<close>. A
  condition wait gives the mutex back when it goes to sleep and takes it when it wakes.\<close>

definition wm_effect :: "tid \<Rightarrow> wm_act \<Rightarrow> wm_act \<Rightarrow> mx_event list" where
  "wm_effect t a a' =
     (if wa_pc a \<in> {W_enter, W_wake} \<and> wa_pc a' \<in> {W_write, W_restore} then [Mx_take t]
      else if wa_pc a \<in> {W_leave, W_sleep} then [Mx_give t]
      else if wa_fn a = Wm_trylock \<and> wa_pc a \<in> {W_read, W_enter} \<and> wa_pc a' = W_ret
      then [Mx_refuse t (wa_result a')]
      else [])"

fun wm_move_effect :: "nat \<Rightarrow> wm_move \<Rightarrow> 'c wm_sys \<Rightarrow> 'c wm_sys \<Rightarrow> mx_event list" where
  "wm_move_effect p (Wm_call t f q) s s' = []"
| "wm_move_effect p (Wm_step t ok) s s' =
     (case (wm_acts s t, wm_acts s' t) of
        (Some a, Some a') \<Rightarrow> if wa_obj a = p then wm_effect t a a' else []
      | _ \<Rightarrow> [])"

text \<open>The effects of a run on mutex \<open>p\<close>, in order.\<close>

fun wm_effects :: "backend \<Rightarrow> 'c cs_api \<Rightarrow> bool \<Rightarrow> nat \<Rightarrow> wm_move list \<Rightarrow> 'c wm_sys \<Rightarrow> mx_event list" where
  "wm_effects B W ndebug p [] s = []"
| "wm_effects B W ndebug p (mv # mvs) s =
     (case wm_exec B W ndebug mv s of
        None \<Rightarrow> []
      | Some s' \<Rightarrow> wm_move_effect p mv s s' @ wm_effects B W ndebug p mvs s')"

definition section_holder :: "('c \<Rightarrow> (tid \<times> nat) option) \<Rightarrow> 'c wm_sys \<Rightarrow> nat \<Rightarrow> tid option" where
  "section_holder so s p = map_option fst (so (wm_section s p))"

text \<open>One step of the protocol, over its view of the mutex.\<close>

lemma wm_trans_effect:
  assumes "wm_trans nd t (wa_fn a) (wa_pc a) (i, c) (wa_pc a') (i', c')"
    and "wa_pc a = W_read \<Longrightarrow> i = t \<Longrightarrow> c \<noteq> None"
    and "wa_fn a = Wm_trylock \<Longrightarrow> wa_pc a \<in> {W_read, W_enter} \<Longrightarrow> wa_pc a' = W_ret \<Longrightarrow> wa_result a' = EBUSY"
  shows "mx_run reference_mutex (wm_effect t a a') (map_option fst c) = Some (map_option fst c')"
  using assms
  by (cases "wa_pc a") (auto simp: wm_trans_simps wm_effect_def mx_apply_reference simp del: mx_apply.simps
    split: if_splits)

lemma wm_refused_code:
  "wm_fn_step B W nd t ok a s = Some (a', s') \<Longrightarrow> wa_fn a = Wm_trylock \<Longrightarrow>
     wa_pc a \<in> {W_read, W_enter} \<Longrightarrow> wa_pc a' = W_ret \<Longrightarrow> wa_result a' = EBUSY"
  by (auto simp: wm_fn_defs split: prod.splits if_splits)

lemma wm_id_section:
  assumes "wm_obj_inv so s p" and "cells (wm_mem s) (wm_owner p) = t" and "t \<noteq> 0"
  shows "so (wm_section s p) \<noteq> None"
  using assms(1) by (cases rule: wm_obj_inv_cases) (use assms(2,3) in auto)

context windows_mutex
begin

lemma wm_exec_effect:
  assumes inv: "wm_inv section_owner s" and ex: "wm_exec B W nd mv s = Some s'"
  shows "mx_run reference_mutex (wm_move_effect p mv s s') (section_holder section_owner s p) =
    Some (section_holder section_owner s' p)"
proof (cases mv)
  case (Wm_call t f q)
  with ex show ?thesis by (auto simp: section_holder_def split: if_splits)
next
  case (Wm_step t ok)
  from ex [unfolded Wm_step] show ?thesis
  proof (cases rule: wm_exec_StepE)
    case (1 a)
    then show ?thesis by (simp add: Wm_step section_holder_def)
  next
    case (2 a a' m' c')
    define q where "q = wa_obj a"
    have oi: "wm_obj_inv section_owner s q" and t: "t \<noteq> 0"
      using inv 2(1) by (auto simp: wm_inv_def)
    have pcs: "wpc_on s t q = Some (wa_pc a)" using 2(1) by (simp add: wpc_on_def q_def)
    have enter: "wa_pc a \<in> {W_enter, W_wake} \<Longrightarrow> \<forall>n. section_owner (wm_section s (wa_obj a)) \<noteq> Some (t, n)"
      and leave: "wa_pc a \<in> {W_leave, W_sleep} \<Longrightarrow> section_owner (wm_section s (wa_obj a)) = Some (t, 1)"
      using wm_obj_section [OF oi pcs] by (simp_all add: q_def)
    note ref = wm_fn_step_refines [OF 2(3) enter leave]
    have tr: "wm_trans nd t (wa_fn a) (wa_pc a)
        (cells (wm_mem s) (wm_owner q), section_owner (wm_section s q))
        (wa_pc a') (cells m' (wm_owner q), section_owner c')"
      using ref by (simp add: wm_view_def q_def)
    have own: "wa_pc a = W_read \<Longrightarrow> cells (wm_mem s) (wm_owner q) = t \<Longrightarrow>
        section_owner (wm_section s q) \<noteq> None"
      using wm_id_section [OF oi _ t] by simp
    have run: "mx_run reference_mutex (wm_effect t a a')
        (map_option fst (section_owner (wm_section s q))) = Some (map_option fst (section_owner c'))"
      by (rule wm_trans_effect [OF tr own wm_refused_code [OF 2(3)]])
    show ?thesis
    proof (cases "q = p")
      case True
      then show ?thesis
        using run by (simp add: Wm_step 2(1,4) wm_after_def section_holder_def q_def)
    next
      case False
      then show ?thesis by (simp add: Wm_step 2(1,4) wm_after_def section_holder_def q_def)
    qed
  qed
qed

lemma wm_run_effects:
  "wm_inv section_owner s \<Longrightarrow> wm_run B W nd mvs s = Some s' \<Longrightarrow>
     mx_run reference_mutex (wm_effects B W nd p mvs s) (section_holder section_owner s p) =
     Some (section_holder section_owner s' p)"
proof (induction mvs arbitrary: s)
  case (Cons mv mvs)
  then obtain s1 where s1: "wm_exec B W nd mv s = Some s1" "wm_run B W nd mvs s1 = Some s'"
    by (auto split: option.splits)
  with Cons.IH [of s1] wm_exec_inv [OF Cons.prems(1) s1(1)] wm_exec_effect [OF Cons.prems(1) s1(1), of p]
  show ?case by (simp add: mx_run_append)
qed simp

end

context cs_laws
begin

lemmas wm_linearized = wm.wm_run_effects

end

subsection \<open>Property\<close>

text \<open>C5: the Windows mutex implements the plain mutex: in every run of any number of threads
  that lock, try, unlock and wait, the effects of the calls on a mutex, in the order in which
  they take place, are a run of the reference mutex, where each call is possible, succeeds or is
  refused with the same code, and that mutex and the critical section have the same holder at
  the end.\<close>

theorem windows_mutex_refines_plain:
  assumes "cs_laws W so" and "wm_start so s" and "wm_run c11_backend W nd mvs s = Some s'"
  shows "mx_run reference_mutex (wm_effects c11_backend W nd p mvs s) None =
    Some (section_holder so s' p)"
proof -
  have "section_holder so s p = None" using assms(2) by (simp add: wm_start_def section_holder_def)
  with cs_laws.wm_linearized [OF assms(1) wm_start_inv [OF assms(2)] assms(3), of p]
  show ?thesis by simp
qed

theorem windows_mutex_refines_plain_witness:
  "\<exists>s'. example_wm_run (wm_example @ [Wm_call 3 Wm_trylock 0, Wm_step 3 True, Wm_step 3 True,
       Wm_call 1 Wm_unlock 0, Wm_step 1 True, Wm_step 1 True, Wm_step 1 True, Wm_step 2 True])
       wm_init_sys = Some s' \<and>
     mx_run reference_mutex [Mx_take 1, Mx_refuse 3 EBUSY, Mx_give 1, Mx_take 2] None =
       Some (section_holder (\<lambda>c. c) s' 0)"
proof -
  let ?mvs = "wm_example @ [Wm_call 3 Wm_trylock 0, Wm_step 3 True, Wm_step 3 True,
    Wm_call 1 Wm_unlock 0, Wm_step 1 True, Wm_step 1 True, Wm_step 1 True, Wm_step 2 True]"
  have eff: "wm_effects c11_backend reference_cs False 0 ?mvs wm_init_sys =
      [Mx_take 1, Mx_refuse 3 EBUSY, Mx_give 1, Mx_take 2]"
    and "example_wm_run ?mvs wm_init_sys \<noteq> None = True"
    by code_simp+
  then obtain s' where s': "example_wm_run ?mvs wm_init_sys = Some s'" by auto
  have "wm_start (\<lambda>c. c) wm_init_sys" by (simp add: wm_start_def wm_init_sys_def)
  from windows_mutex_refines_plain [OF reference_cs.cs_laws_axioms this s', of 0] eff s'
  show ?thesis by simp
qed

end
