(* ===== verification/Win_Recursive_Mutex.thy ===== *)
theory Win_Recursive_Mutex
  imports Recursive_Mutex_Invariant Win_Mutex_Refinement
begin

text \<open>
  The recursive mutex (\<open>src/mulle-thread.c\<close>) as it runs on Windows, where each call of the
  plain mutex is itself a function of several steps (\<open>src/mulle-thread-windows.h\<close>): the
  composition of both models, with its invariant, and a simulation by the recursive mutex over
  a plain mutex whose calls are single steps.
\<close>

subsection \<open>The composition\<close>

text \<open>
  The embedded mutex has an owner cell and a section of its own, apart from the owner and the
  depth of the recursive mutex, so that the state is that of both models side by side. The
  recursive mutex keeps no state of a plain mutex any more.
\<close>

record 'c wr_sys =
  wr_rm :: "unit rm_sys"
  wr_wm :: "'c wm_sys"

text \<open>When a call of the Windows mutex has returned \<open>rval\<close>, the recursive mutex continues with
  that result.\<close>

definition returning :: "int \<Rightarrow> unit mutex_ops" where
  "returning rval = \<lparr>
     mo_init = (\<lambda>m. (rval, m)),
     mo_lock = (\<lambda>t m. Some (rval, m)),
     mo_trylock = (\<lambda>t m. (rval, m)),
     mo_unlock = (\<lambda>t m. (rval, m)),
     mo_done = (\<lambda>m. (rval, m))\<rparr>"

definition mutex_fn :: "rm_fn \<Rightarrow> wm_fn" where
  "mutex_fn f = (case f of Rm_lock \<Rightarrow> Wm_lock | Rm_trylock \<Rightarrow> Wm_trylock | Rm_unlock \<Rightarrow> Wm_unlock)"

text \<open>The activation is at the call of the plain mutex.\<close>

definition at_mutex :: "rm_act \<Rightarrow> bool" where
  "at_mutex a \<longleftrightarrow> ra_pc a \<in> {M_mutex, M_release}"

definition wm_set_act :: "tid \<Rightarrow> wm_act option \<Rightarrow> 'c wm_sys \<Rightarrow> 'c wm_sys" where
  "wm_set_act t act w = w\<lparr>wm_acts := (wm_acts w)(t := act)\<rparr>"

datatype wr_move = Wr_call tid rm_fn nat | Wr_step tid

text \<open>A thread at a call of the plain mutex enters it, then executes it step by step, and
  returns from it; everywhere else it executes the recursive mutex.\<close>

fun wr_exec :: "backend \<Rightarrow> 'c cs_api \<Rightarrow> bool \<Rightarrow> wr_move \<Rightarrow> 'c wr_sys \<Rightarrow> 'c wr_sys option" where
  "wr_exec B W ndebug (Wr_call t f p) s =
     map_option (\<lambda>r. s\<lparr>wr_rm := r\<rparr>) (rm_exec B (returning 0) ndebug (Rm_call t f p) (wr_rm s))"
| "wr_exec B W ndebug (Wr_step t) s =
     (case rm_acts (wr_rm s) t of
        None \<Rightarrow> None
      | Some a \<Rightarrow>
          if at_mutex a
          then (case wm_acts (wr_wm s) t of
              None \<Rightarrow> Some (s\<lparr>wr_wm :=
                wm_set_act t (Some (wm_entry (mutex_fn (ra_fn a)) (ra_obj a))) (wr_wm s)\<rparr>)
            | Some b \<Rightarrow>
                if wa_pc b = W_ret
                then map_option (\<lambda>r. s\<lparr>wr_rm := r, wr_wm := wm_set_act t None (wr_wm s)\<rparr>)
                  (rm_exec B (returning (wa_result b)) ndebug (Rm_step t) (wr_rm s))
                else map_option (\<lambda>w. s\<lparr>wr_wm := w\<rparr>)
                  (wm_exec B W ndebug (Wm_step t True) (wr_wm s)))
          else map_option (\<lambda>r. s\<lparr>wr_rm := r\<rparr>)
            (rm_exec B (returning 0) ndebug (Rm_step t) (wr_rm s)))"

fun wr_run :: "backend \<Rightarrow> 'c cs_api \<Rightarrow> bool \<Rightarrow> wr_move list \<Rightarrow> 'c wr_sys \<Rightarrow> 'c wr_sys option" where
  "wr_run B W ndebug [] s = Some s"
| "wr_run B W ndebug (mv # mvs) s =
     (case wr_exec B W ndebug mv s of None \<Rightarrow> None | Some s' \<Rightarrow> wr_run B W ndebug mvs s')"

text \<open>At the start all mutexes have been initialized and no thread is inside a function.\<close>

definition wr_start :: "('c \<Rightarrow> (tid \<times> nat) option) \<Rightarrow> 'c wr_sys \<Rightarrow> bool" where
  "wr_start so s \<longleftrightarrow> rm_start (\<lambda>m. None) (wr_rm s) \<and> wm_start so (wr_wm s)"

inductive wr_reach ::
  "backend \<Rightarrow> 'c cs_api \<Rightarrow> ('c \<Rightarrow> (tid \<times> nat) option) \<Rightarrow> bool \<Rightarrow> 'c wr_sys \<Rightarrow> bool" for B W so nd
where
  wr_reach_start: "wr_start so s \<Longrightarrow> wr_reach B W so nd s"
| wr_reach_step: "wr_reach B W so nd s \<Longrightarrow> wr_exec B W nd mv s = Some s' \<Longrightarrow> wr_reach B W so nd s'"

text \<open>The calls the clients make in a run, in order.\<close>

fun wr_calls :: "wr_move list \<Rightarrow> (tid \<times> rm_fn \<times> nat) list" where
  "wr_calls [] = []"
| "wr_calls (Wr_call t f p # mvs) = (t, f, p) # wr_calls mvs"
| "wr_calls (Wr_step t # mvs) = wr_calls mvs"

fun rm_calls :: "rm_move list \<Rightarrow> (tid \<times> rm_fn \<times> nat) list" where
  "rm_calls [] = []"
| "rm_calls (Rm_call t f p # mvs) = (t, f, p) # rm_calls mvs"
| "rm_calls (Rm_step t # mvs) = rm_calls mvs"

lemma wr_calls_append: "wr_calls (xs @ ys) = wr_calls xs @ wr_calls ys"
  by (induction xs rule: wr_calls.induct) simp_all

lemma rm_calls_append: "rm_calls (xs @ ys) = rm_calls xs @ rm_calls ys"
  by (induction xs rule: rm_calls.induct) simp_all

lemma wr_run_reach:
  "wr_reach B W so nd s \<Longrightarrow> wr_run B W nd mvs s = Some s' \<Longrightarrow> wr_reach B W so nd s'"
  by (induction mvs arbitrary: s)
    (auto split: option.splits intro: wr_reach_step simp del: wr_exec.simps)

subsection \<open>The abstraction\<close>

text \<open>
  A call of the Windows mutex takes effect where the section is entered or left or the trylock
  is refused. From there on the recursive mutex counts as having returned from it.
\<close>

definition wr_advance :: "wm_act \<Rightarrow> rm_act \<Rightarrow> rm_act" where
  "wr_advance b a =
     (if wa_pc b \<in> {W_write, W_ret}
      then (case ra_fn a of
          Rm_lock \<Rightarrow> at_pc L_assert a
        | Rm_trylock \<Rightarrow>
            if wa_pc b = W_ret \<and> wa_result b \<noteq> 0 then at_pc M_ret (a\<lparr>ra_result := - 1\<rparr>)
            else at_pc M_write a
        | Rm_unlock \<Rightarrow> at_pc M_ret a)
      else a)"

definition wr_act :: "wm_act option \<Rightarrow> rm_act \<Rightarrow> rm_act" where
  "wr_act call a = (case call of None \<Rightarrow> a | Some b \<Rightarrow> wr_advance b a)"

definition wr_abs :: "('c \<Rightarrow> (tid \<times> nat) option) \<Rightarrow> 'c wr_sys \<Rightarrow> tid option rm_sys" where
  "wr_abs so s = \<lparr>rm_mem = rm_mem (wr_rm s), rm_mutex = section_holder so (wr_wm s),
     rm_acts = (\<lambda>t. map_option (wr_act (wm_acts (wr_wm s) t)) (rm_acts (wr_rm s) t)),
     rm_held = rm_held (wr_rm s)\<rparr>"

lemma wr_abs_simps [simp]:
  "rm_mem (wr_abs so s) = rm_mem (wr_rm s)" "rm_mutex (wr_abs so s) = section_holder so (wr_wm s)"
  "rm_acts (wr_abs so s) t = map_option (wr_act (wm_acts (wr_wm s) t)) (rm_acts (wr_rm s) t)"
  "rm_held (wr_abs so s) = rm_held (wr_rm s)"
  by (simp_all add: wr_abs_def)

lemma wr_act_None [simp]: "wr_act None a = a"
  by (simp add: wr_act_def)

lemma wr_advance_simps [simp]:
  "ra_fn (wr_advance b a) = ra_fn a" "ra_obj (wr_advance b a) = ra_obj a"
  by (simp_all add: wr_advance_def split: rm_fn.splits)

text \<open>The call of the plain mutex a thread is in belongs to the point of the recursive mutex it
  is at; a lock never finds its own id, so it doesn't stop.\<close>

definition wr_call_ok :: "rm_act \<Rightarrow> wm_act \<Rightarrow> bool" where
  "wr_call_ok a b \<longleftrightarrow> ra_pc a = (if ra_fn a = Rm_unlock then M_release else M_mutex) \<and>
     wa_fn b = mutex_fn (ra_fn a) \<and> wa_obj b = ra_obj a \<and> wa_pc b \<notin> {W_spin, W_abort}"

definition wr_coupled :: "('c \<Rightarrow> (tid \<times> nat) option) \<Rightarrow> 'c wr_sys \<Rightarrow> bool" where
  "wr_coupled so s \<longleftrightarrow> wm_inv so (wr_wm s) \<and>
     (\<forall>t b. wm_acts (wr_wm s) t = Some b \<longrightarrow>
       (\<exists>a. rm_acts (wr_rm s) t = Some a \<and> wr_call_ok a b))"

lemma wr_coupledD:
  assumes "wr_coupled so s" and "wm_acts (wr_wm s) t = Some b" and "rm_acts (wr_rm s) t = Some a"
  shows "wr_call_ok a b"
  using assms unfolding wr_coupled_def by fastforce

lemma wr_coupled_idle:
  assumes "wr_coupled so s" and "rm_acts (wr_rm s) t = None"
  shows "wm_acts (wr_wm s) t = None"
proof (rule ccontr)
  assume "wm_acts (wr_wm s) t \<noteq> None"
  then obtain b where "wm_acts (wr_wm s) t = Some b" by auto
  with assms show False unfolding wr_coupled_def by fastforce
qed

lemma wr_start_inv:
  assumes "wr_start so s"
  shows "wr_coupled so s \<and> rm_inv (\<lambda>m. m) (wr_abs so s)"
proof -
  have "rm_start (\<lambda>m. m) (wr_abs so s)"
    using assms by (simp add: wr_start_def rm_start_def wm_start_def section_holder_def fun_eq_iff wr_abs_def)
  moreover have "wm_acts (wr_wm s) = (\<lambda>t. None)"
    using assms by (simp add: wr_start_def wm_start_def)
  ultimately show ?thesis
    using assms rm_start_inv [of "\<lambda>m. m"] wm_start_inv [of so "wr_wm s"]
    by (simp add: wr_coupled_def wr_start_def)
qed

subsection \<open>The simulation\<close>

text \<open>The steps of the recursive mutex that don't call the plain mutex don't depend on it.\<close>

lemma rm_count_cong: "rm_held s = rm_held s' \<Longrightarrow> rm_count t a s = rm_count t a s'"
  by (simp add: rm_count_def Let_def)

lemma rm_fn_step_apart:
  "\<not> at_mutex a \<Longrightarrow> rm_fn_step B M nd t a (m, x) =
     map_option (\<lambda>(a', m', y). (a', m', x)) (rm_fn_step B M' nd t a (m, y))"
  by (cases "ra_fn a"; cases "ra_pc a") (simp_all add: rm_fn_defs at_mutex_def case_prod_beta)

text \<open>The return from the call: the recursive mutex goes where it counts as being already.\<close>

lemma rm_fn_step_returning:
  assumes "wr_call_ok a b" and "wa_pc b = W_ret"
  shows "rm_fn_step B (returning (wa_result b)) nd t a (m, u) = Some (wr_advance b a, m, u)"
  using assms
  by (cases "ra_fn a") (simp_all add: rm_fn_defs wr_call_ok_def wr_advance_def returning_def)

text \<open>A step of the call is a step of the reference mutex, or it changes nothing of it.\<close>

lemma wr_call_step:
  assumes tr: "wm_trans nd t (wa_fn b) (wa_pc b) (i, c) (wa_pc b') (i', c')"
    and ok: "wr_call_ok a b" and own: "wa_pc b = W_read \<Longrightarrow> i \<noteq> t"
    and fail: "wa_pc b = W_assert \<Longrightarrow> i = t"
    and fo: "wa_fn b' = wa_fn b" "wa_obj b' = wa_obj b"
    and zero: "wa_pc b = W_write \<Longrightarrow> wa_result b' = 0"
    and busy: "wa_fn b = Wm_trylock \<Longrightarrow> wa_pc b \<in> {W_read, W_enter} \<Longrightarrow> wa_pc b' = W_ret \<Longrightarrow>
      wa_result b' = EBUSY"
  shows "wr_call_ok a b' \<and>
    (wr_advance b' a = wr_advance b a \<and> map_option fst c' = map_option fst c \<or>
     \<not> wa_pc b \<in> {W_write, W_ret} \<and>
     rm_fn_step B reference_mutex nd' t a (m, map_option fst c) =
       Some (wr_advance b' a, m, map_option fst c'))"
  using assms
  by (cases "ra_fn a"; cases "wa_pc b")
    (auto simp: wr_call_ok_def mutex_fn_def wm_trans_simps wr_advance_def rm_fn_defs
      pthreads_mutex_defs reference_pthread_def zero_or_minus_one_def EBUSY_def)


lemma rm_exec_afterI:
  assumes "rm_acts s t = Some a" and "ra_pc a \<noteq> M_ret"
    and "rm_fn_step B M nd t a (rm_mem s, rm_mutex s (ra_obj a)) = Some (a', m', x')"
  shows "rm_exec B M nd (Rm_step t) s = Some (rm_after t a a' m' x' s)"
  using assms by (simp add: rm_after_def)

lemma wm_zero_result:
  "wm_fn_step B W nd t ok b s = Some (b', s') \<Longrightarrow> wa_pc b = W_write \<Longrightarrow> wa_result b' = 0"
  by (cases "wa_fn b") (auto simp: wm_fn_defs split: prod.splits)

lemma wm_set_act_simps [simp]:
  "wm_mem (wm_set_act t act w) = wm_mem w" "wm_section (wm_set_act t act w) = wm_section w"
  "wm_acts (wm_set_act t act w) = (wm_acts w)(t := act)"
  "section_holder so (wm_set_act t act w) = section_holder so w"
  by (simp_all add: wm_set_act_def section_holder_def fun_eq_iff)

lemma rm_sys_eqI:
  fixes r r' :: "'m rm_sys"
  assumes "rm_mem r = rm_mem r'" and "rm_mutex r = rm_mutex r'" and "\<And>t. rm_acts r t = rm_acts r' t"
    and "rm_held r = rm_held r'"
  shows "r = r'"
proof -
  have "rm_acts r = rm_acts r'" using assms(3) by (rule ext)
  with assms show ?thesis by (cases r; cases r') simp
qed

text \<open>A thread whose own point is at the plain mutex can enter its call.\<close>

lemma wr_may_enter:
  assumes oi: "wm_obj_inv so w p" and "wm_acts w t = None"
    and "f = Rm_unlock \<Longrightarrow> section_holder so w p = Some t"
    and "t \<noteq> 0"
  shows "wm_may_call w t (mutex_fn f) p"
proof -
  have "wm_locked w t p" if "f = Rm_unlock"
    using oi
  proof (cases rule: wm_obj_inv_cases)
    case free
    then show ?thesis using assms(3) [OF that] by (simp add: section_holder_def)
  next
    case (held u)
    then have "u = t" using assms(3) [OF that] by (simp add: section_holder_def)
    with held(3) assms(2) show ?thesis by (simp add: wpc_on_def wm_inside_def)
  qed
  then show ?thesis using assms(2,4) by (cases f) (auto simp: wm_may_call_def mutex_fn_def)
qed

sublocale windows_mutex \<subseteq> plain: recursive_mutex B reference_mutex "\<lambda>m. m"
  by unfold_locales

context windows_mutex
begin

text \<open>What the simulating state says about a thread at the plain mutex.\<close>

lemma wr_at_mutex:
  assumes inv: "rm_inv (\<lambda>m. m) (wr_abs section_owner s)"
    and a: "rm_acts (wr_rm s) t = Some a" and pc: "at_mutex (wr_act (wm_acts (wr_wm s) t) a)"
    and p: "p = ra_obj a"
  shows "t \<noteq> 0" and "ra_pc (wr_act (wm_acts (wr_wm s) t) a) = (if ra_fn a = Rm_unlock then M_release else M_mutex)"
    and "(section_holder section_owner (wr_wm s) p = Some t) = (ra_fn a = Rm_unlock)"
proof -
  let ?a = "wr_act (wm_acts (wr_wm s) t) a"
  have fo: "ra_obj ?a = p" "ra_fn ?a = ra_fn a" by (simp_all add: wr_act_def p split: option.splits)
  have acts: "rm_acts (wr_abs section_owner s) t = Some ?a" by (simp add: a)
  then show t: "t \<noteq> 0" using inv by (auto simp: rm_inv_def)
  have "rm_act_ok (rm_held (wr_rm s) t p) ?a" using inv acts fo by (force simp: rm_inv_def)
  with pc show at: "ra_pc ?a = (if ra_fn a = Rm_unlock then M_release else M_mutex)"
    by (auto simp: rm_act_ok_def at_mutex_def fo split: rm_fn.splits)
  have "rm_obj_inv (\<lambda>m. m) (wr_abs section_owner s) p" using inv by (simp add: rm_inv_def)
  moreover have "pc_on (wr_abs section_owner s) t p = Some (ra_pc ?a)"
    using a fo by (simp add: pc_on_def)
  ultimately show "(section_holder section_owner (wr_wm s) p = Some t) = (ra_fn a = Rm_unlock)"
    using rm_obj_holder [of "\<lambda>m. m" "wr_abs section_owner s" p t] at by (auto split: if_splits)
qed


lemma wr_own_call:
  assumes c: "wr_coupled section_owner s" and inv: "rm_inv (\<lambda>m. m) (wr_abs section_owner s)"
    and a: "rm_acts (wr_rm s) t = Some a" and b: "wm_acts (wr_wm s) t = Some b"
  shows "wa_pc b = W_read \<Longrightarrow> cells (wm_mem (wr_wm s)) (wm_owner (wa_obj b)) \<noteq> t"
    and "wa_pc b = W_assert \<Longrightarrow> cells (wm_mem (wr_wm s)) (wm_owner (wa_obj b)) = t"
proof -
  have ok: "wr_call_ok a b" by (rule wr_coupledD [OF c b a])
  have oi: "wm_obj_inv section_owner (wr_wm s) (ra_obj a)" using c by (simp add: wr_coupled_def wm_inv_def)
  have pcs: "wpc_on (wr_wm s) t (ra_obj a) = Some (wa_pc b)"
    using b ok by (simp add: wpc_on_def wr_call_ok_def)
  show "wa_pc b = W_assert \<Longrightarrow> cells (wm_mem (wr_wm s)) (wm_owner (wa_obj b)) = t"
    using wm_obj_section [OF oi pcs] ok by (simp add: wr_call_ok_def)
  assume read: "wa_pc b = W_read"
  have "wm_act_ok (wm_locked (wr_wm s) t (wa_obj b)) b"
    using c b by (auto simp: wr_coupled_def wm_inv_def)
  with read ok have fn: "ra_fn a \<noteq> Rm_unlock"
    by (auto simp: wm_act_ok_def wr_call_ok_def mutex_fn_def)
  have same: "wr_act (wm_acts (wr_wm s) t) a = a" using b read by (simp add: wr_act_def wr_advance_def)
  have "at_mutex a" using ok by (simp add: wr_call_ok_def at_mutex_def)
  with wr_at_mutex [OF inv a _ refl] same fn have
    "section_holder section_owner (wr_wm s) (ra_obj a) \<noteq> Some t" "t \<noteq> 0" by auto
  with oi ok show "cells (wm_mem (wr_wm s)) (wm_owner (wa_obj b)) \<noteq> t"
    by (cases rule: wm_obj_inv_cases)
      (auto simp: section_holder_def wr_call_ok_def dest: wm_inside_id)
qed

text \<open>A step inside the call.\<close>

lemma wr_call_simulates:
  assumes c: "wr_coupled section_owner s" and inv: "rm_inv (\<lambda>m. m) (wr_abs section_owner s)"
    and a: "rm_acts (wr_rm s) t = Some a" and b: "wm_acts (wr_wm s) t = Some b" and ret: "wa_pc b \<noteq> W_ret"
    and w: "wm_exec B W nd (Wm_step t True) (wr_wm s) = Some w"
  shows "wr_coupled section_owner (s\<lparr>wr_wm := w\<rparr>) \<and>
    (wr_abs section_owner (s\<lparr>wr_wm := w\<rparr>) = wr_abs section_owner s \<or>
     rm_exec B reference_mutex nd (Rm_step t) (wr_abs section_owner s) =
       Some (wr_abs section_owner (s\<lparr>wr_wm := w\<rparr>)))"
proof -
  define p where "p = ra_obj a"
  have ok: "wr_call_ok a b" by (rule wr_coupledD [OF c b a])
  have wi: "wm_inv section_owner (wr_wm s)" using c by (simp add: wr_coupled_def)
  from w obtain b' m' c' where step:
      "wm_fn_step B W nd t True b (wm_mem (wr_wm s), wm_section (wr_wm s) (wa_obj b)) = Some (b', m', c')"
    and w': "w = wm_after t b b' m' c' (wr_wm s)"
    using b ret by (auto elim!: wm_exec_StepE simp del: wm_exec.simps)
  have obj: "wa_obj b = p" using ok by (simp add: wr_call_ok_def p_def)
  have oi: "wm_obj_inv section_owner (wr_wm s) p" using wi by (simp add: wm_inv_def)
  have pcs: "wpc_on (wr_wm s) t p = Some (wa_pc b)" using b obj by (simp add: wpc_on_def)
  have enter: "wa_pc b \<in> {W_enter, W_wake} \<Longrightarrow>
      \<forall>n. section_owner (wm_section (wr_wm s) (wa_obj b)) \<noteq> Some (t, n)"
    and leave: "wa_pc b \<in> {W_leave, W_sleep} \<Longrightarrow>
      section_owner (wm_section (wr_wm s) (wa_obj b)) = Some (t, 1)"
    using wm_obj_section [OF oi pcs] obj by simp_all
  note ref = wm_fn_step_refines [OF step enter leave]
  have tr: "wm_trans nd t (wa_fn b) (wa_pc b)
      (cells (wm_mem (wr_wm s)) (wm_owner p), section_owner (wm_section (wr_wm s) p))
      (wa_pc b') (cells m' (wm_owner p), section_owner c')"
    using ref obj by (simp add: wm_view_def)
  have fo: "wa_fn b' = wa_fn b" "wa_obj b' = wa_obj b" using ref by simp_all
  note own = wr_own_call [OF c inv a b, unfolded obj]
  have sim: "wr_call_ok a b' \<and>
    (wr_advance b' a = wr_advance b a \<and>
       map_option fst (section_owner c') = map_option fst (section_owner (wm_section (wr_wm s) p)) \<or>
     \<not> wa_pc b \<in> {W_write, W_ret} \<and>
     rm_fn_step B reference_mutex nd t a
       (rm_mem (wr_rm s), map_option fst (section_owner (wm_section (wr_wm s) p))) =
       Some (wr_advance b' a, rm_mem (wr_rm s), map_option fst (section_owner c')))"
    by (rule wr_call_step [OF tr ok own fo wm_zero_result [OF step] wm_refused_code [OF step]])
  then have ok': "wr_call_ok a b'" by (rule conjunct1)
  have acts: "wm_acts w = (wm_acts (wr_wm s))(t := Some b')"
    and sec: "section_holder section_owner w =
      (section_holder section_owner (wr_wm s))(p := map_option fst (section_owner c'))"
    by (auto simp: w' wm_after_def section_holder_def obj fun_eq_iff)
  have coupled: "wr_coupled section_owner (s\<lparr>wr_wm := w\<rparr>)"
    unfolding wr_coupled_def
  proof (intro conjI allI impI)
    show "wm_inv section_owner (wr_wm (s\<lparr>wr_wm := w\<rparr>))" using wm_exec_inv [OF wi w] by simp
    fix u d
    assume "wm_acts (wr_wm (s\<lparr>wr_wm := w\<rparr>)) u = Some d"
    then show "\<exists>a. rm_acts (wr_rm (s\<lparr>wr_wm := w\<rparr>)) u = Some a \<and> wr_call_ok a d"
      using c a ok' by (cases "u = t") (simp_all add: wr_coupled_def acts)
  qed
  from sim [THEN conjunct2] show ?thesis
  proof (elim conjE disjE)
    assume same: "wr_advance b' a = wr_advance b a"
      "map_option fst (section_owner c') = map_option fst (section_owner (wm_section (wr_wm s) p))"
    have "wr_abs section_owner (s\<lparr>wr_wm := w\<rparr>) = wr_abs section_owner s"
      by (rule rm_sys_eqI) (auto simp: acts sec same a b wr_act_def section_holder_def fun_eq_iff)
    with coupled show ?thesis by simp
  next
    assume pc: "\<not> wa_pc b \<in> {W_write, W_ret}"
      and fs: "rm_fn_step B reference_mutex nd t a
        (rm_mem (wr_rm s), map_option fst (section_owner (wm_section (wr_wm s) p))) =
        Some (wr_advance b' a, rm_mem (wr_rm s), map_option fst (section_owner c'))"
    have "wr_act (wm_acts (wr_wm s) t) a = a" using b pc by (simp add: wr_act_def wr_advance_def)
    then have at: "rm_acts (wr_abs section_owner s) t = Some a" by (simp add: a)
    have nret: "ra_pc a \<noteq> M_ret" using ok by (simp add: wr_call_ok_def)
    have cnt: "rm_count t a (wr_abs section_owner s) = rm_held (wr_rm s)"
      using ok by (simp add: wr_call_ok_def rm_count_def Let_def)
    have "rm_exec B reference_mutex nd (Rm_step t) (wr_abs section_owner s) =
        Some (wr_abs section_owner (s\<lparr>wr_wm := w\<rparr>))"
    proof -
      have ex: "rm_exec B reference_mutex nd (Rm_step t) (wr_abs section_owner s) =
          Some (rm_after t a (wr_advance b' a) (rm_mem (wr_rm s)) (map_option fst (section_owner c'))
            (wr_abs section_owner s))"
        using fs by (intro rm_exec_afterI [OF at nret]) (simp add: section_holder_def p_def)
      have "rm_after t a (wr_advance b' a) (rm_mem (wr_rm s)) (map_option fst (section_owner c'))
            (wr_abs section_owner s) = wr_abs section_owner (s\<lparr>wr_wm := w\<rparr>)"
        by (rule rm_sys_eqI) (auto simp: rm_after_def acts sec a cnt p_def wr_act_def)
      with ex show ?thesis by simp
    qed
    with coupled show ?thesis by simp
  qed
qed


text \<open>A step of the recursive mutex itself, apart from its calls.\<close>

lemma wr_own_simulates:
  assumes c: "wr_coupled section_owner s" and a: "rm_acts (wr_rm s) t = Some a" and at: "\<not> at_mutex a"
    and r: "rm_exec B (returning 0) nd (Rm_step t) (wr_rm s) = Some r"
  shows "wr_coupled section_owner (s\<lparr>wr_rm := r\<rparr>) \<and>
    rm_exec B reference_mutex nd (Rm_step t) (wr_abs section_owner s) =
      Some (wr_abs section_owner (s\<lparr>wr_rm := r\<rparr>))"
proof -
  have none: "wm_acts (wr_wm s) t = None"
  proof (rule ccontr)
    assume "wm_acts (wr_wm s) t \<noteq> None"
    then obtain b where "wm_acts (wr_wm s) t = Some b" by auto
    from wr_coupledD [OF c this a] at show False by (auto simp: wr_call_ok_def at_mutex_def split: if_splits)
  qed
  have abs_a: "rm_acts (wr_abs section_owner s) t = Some a" by (simp add: a none)
  have others: "u \<noteq> t \<Longrightarrow> rm_acts r u = rm_acts (wr_rm s) u" for u
    using r by (cases rule: rm_exec_StepE) (auto simp: rm_after_def)
  have coupled: "wr_coupled section_owner (s\<lparr>wr_rm := r\<rparr>)"
    unfolding wr_coupled_def
  proof (intro conjI allI impI)
    show "wm_inv section_owner (wr_wm (s\<lparr>wr_rm := r\<rparr>))" using c by (simp add: wr_coupled_def)
    fix u d
    assume "wm_acts (wr_wm (s\<lparr>wr_rm := r\<rparr>)) u = Some d"
    then show "\<exists>a. rm_acts (wr_rm (s\<lparr>wr_rm := r\<rparr>)) u = Some a \<and> wr_call_ok a d"
      using c none others by (cases "u = t") (simp_all add: wr_coupled_def)
  qed
  have "rm_exec B reference_mutex nd (Rm_step t) (wr_abs section_owner s) =
      Some (wr_abs section_owner (s\<lparr>wr_rm := r\<rparr>))"
    using r
  proof (cases rule: rm_exec_StepE)
    case (1 b)
    have "wr_abs section_owner (s\<lparr>wr_rm := r\<rparr>) =
        wr_abs section_owner s\<lparr>rm_acts := (rm_acts (wr_abs section_owner s))(t := None)\<rparr>"
      by (rule rm_sys_eqI) (simp_all add: 1(3))
    with abs_a 1(1,2) a show ?thesis by (simp del: wr_abs_simps)
  next
    case (2 b b' m' u)
    have b: "b = a" using 2(1) a by simp
    have fs: "rm_fn_step B reference_mutex nd t a
        (rm_mem (wr_abs section_owner s), rm_mutex (wr_abs section_owner s) (ra_obj a)) =
        Some (b', m', section_holder section_owner (wr_wm s) (ra_obj a))"
      using 2(3) rm_fn_step_apart [OF at, of B reference_mutex nd t "rm_mem (wr_rm s)"
        "section_holder section_owner (wr_wm s) (ra_obj a)" "returning 0" "()"]
      by (simp add: b)
    have "rm_after t a b' m' (section_holder section_owner (wr_wm s) (ra_obj a)) (wr_abs section_owner s) =
        wr_abs section_owner (s\<lparr>wr_rm := r\<rparr>)"
      by (rule rm_sys_eqI)
        (auto simp: 2(4) b rm_after_def none intro!: rm_count_cong)
    with rm_exec_afterI [OF abs_a _ fs] 2(2) show ?thesis by (simp add: b)
  qed
  with coupled show ?thesis by simp
qed

text \<open>Entering the call and returning from it.\<close>

lemma wr_enter_simulates:
  assumes c: "wr_coupled section_owner s" and inv: "rm_inv (\<lambda>m. m) (wr_abs section_owner s)"
    and a: "rm_acts (wr_rm s) t = Some a" and at: "at_mutex a" and none: "wm_acts (wr_wm s) t = None"
    and s': "s' = s\<lparr>wr_wm := wm_set_act t (Some (wm_entry (mutex_fn (ra_fn a)) (ra_obj a))) (wr_wm s)\<rparr>"
  shows "wr_coupled section_owner s' \<and> wr_abs section_owner s' = wr_abs section_owner s"
proof -
  let ?b = "wm_entry (mutex_fn (ra_fn a)) (ra_obj a)"
  have wi: "wm_inv section_owner (wr_wm s)" using c by (simp add: wr_coupled_def)
  then have oi: "wm_obj_inv section_owner (wr_wm s) (ra_obj a)" by (simp add: wm_inv_def)
  have "wr_act (wm_acts (wr_wm s) t) a = a" by (simp add: none)
  with wr_at_mutex [OF inv a _ refl] at have h: "t \<noteq> 0"
      "ra_pc a = (if ra_fn a = Rm_unlock then M_release else M_mutex)"
      "(section_holder section_owner (wr_wm s) (ra_obj a) = Some t) = (ra_fn a = Rm_unlock)"
    by simp_all
  have "wm_may_call (wr_wm s) t (mutex_fn (ra_fn a)) (ra_obj a)"
    by (rule wr_may_enter [OF oi none _ h(1)]) (use h(3) in simp)
  then have "wm_exec B W nd (Wm_call t (mutex_fn (ra_fn a)) (ra_obj a)) (wr_wm s) = Some (wr_wm s')"
    by (simp add: s' wm_set_act_def)
  then have wi': "wm_inv section_owner (wr_wm s')" by (rule wm_call_inv [OF wi])
  have ok: "wr_call_ok a ?b"
    using h(2) by (cases "ra_fn a") (simp_all add: wr_call_ok_def wm_entry_def mutex_fn_def)
  have "wr_coupled section_owner s'"
    unfolding wr_coupled_def
  proof (intro conjI allI impI)
    show "wm_inv section_owner (wr_wm s')" by (rule wi')
    fix u d
    assume "wm_acts (wr_wm s') u = Some d"
    then show "\<exists>a. rm_acts (wr_rm s') u = Some a \<and> wr_call_ok a d"
      using c a ok by (cases "u = t") (simp_all add: wr_coupled_def s')
  qed
  moreover have "wr_advance ?b a = a"
    by (cases "ra_fn a") (simp_all add: wr_advance_def wm_entry_def mutex_fn_def)
  then have "wr_abs section_owner s' = wr_abs section_owner s"
    by (intro rm_sys_eqI) (auto simp: s' wr_act_def a none)
  ultimately show ?thesis by simp
qed

lemma wr_return_simulates:
  assumes c: "wr_coupled section_owner s" and a: "rm_acts (wr_rm s) t = Some a"
    and b: "wm_acts (wr_wm s) t = Some b" and ret: "wa_pc b = W_ret"
    and r: "rm_exec B (returning (wa_result b)) nd (Rm_step t) (wr_rm s) = Some r"
    and s': "s' = s\<lparr>wr_rm := r, wr_wm := wm_set_act t None (wr_wm s)\<rparr>"
  shows "wr_coupled section_owner s' \<and> wr_abs section_owner s' = wr_abs section_owner s"
proof -
  have ok: "wr_call_ok a b" by (rule wr_coupledD [OF c b a])
  have wi: "wm_inv section_owner (wr_wm s)" using c by (simp add: wr_coupled_def)
  have nret: "ra_pc a \<noteq> M_ret" using ok by (simp add: wr_call_ok_def)
  have r': "r = rm_after t a (wr_advance b a) (rm_mem (wr_rm s)) () (wr_rm s)"
    using r rm_exec_afterI [OF a nret, of B "returning (wa_result b)" nd]
      rm_fn_step_returning [OF ok ret, of B nd t "rm_mem (wr_rm s)" "()"] by simp
  have cnt: "rm_count t a (wr_rm s) = rm_held (wr_rm s)"
    using ok by (simp add: wr_call_ok_def rm_count_def Let_def)
  have "wm_inv section_owner (wr_wm s')"
    using wm_return_inv [OF wi b ret] by (simp add: s' wm_set_act_def)
  then have "wr_coupled section_owner s'"
    using c by (auto simp: wr_coupled_def s' r' rm_after_def)
  moreover have "wr_abs section_owner s' = wr_abs section_owner s"
    by (rule rm_sys_eqI) (auto simp: s' r' rm_after_def cnt a b wr_act_def)
  ultimately show ?thesis by simp
qed


lemma wr_call_move_simulates:
  assumes c: "wr_coupled section_owner s"
    and r: "rm_exec B (returning 0) nd (Rm_call t f p) (wr_rm s) = Some r"
  shows "wr_coupled section_owner (s\<lparr>wr_rm := r\<rparr>) \<and>
    rm_exec B reference_mutex nd (Rm_call t f p) (wr_abs section_owner s) =
      Some (wr_abs section_owner (s\<lparr>wr_rm := r\<rparr>))"
proof -
  have may: "rm_may_call (wr_rm s) t f p"
    and r': "r = (wr_rm s)\<lparr>rm_acts := (rm_acts (wr_rm s))(t := Some (rm_entry f p))\<rparr>"
    using r by (auto split: if_splits)
  have idle: "rm_acts (wr_rm s) t = None" using may by (simp add: rm_may_call_def)
  have none: "wm_acts (wr_wm s) t = None" by (rule wr_coupled_idle [OF c idle])
  have "wr_coupled section_owner (s\<lparr>wr_rm := r\<rparr>)"
    unfolding wr_coupled_def
  proof (intro conjI allI impI)
    show "wm_inv section_owner (wr_wm (s\<lparr>wr_rm := r\<rparr>))" using c by (simp add: wr_coupled_def)
    fix u d
    assume "wm_acts (wr_wm (s\<lparr>wr_rm := r\<rparr>)) u = Some d"
    then show "\<exists>a. rm_acts (wr_rm (s\<lparr>wr_rm := r\<rparr>)) u = Some a \<and> wr_call_ok a d"
      using c none by (cases "u = t") (simp_all add: wr_coupled_def r')
  qed
  moreover have "rm_may_call (wr_abs section_owner s) t f p"
    using may by (simp add: rm_may_call_def)
  moreover have "wr_abs section_owner (s\<lparr>wr_rm := r\<rparr>) = wr_abs section_owner s\<lparr>rm_acts :=
      (rm_acts (wr_abs section_owner s))(t := Some (rm_entry f p))\<rparr>"
    by (rule rm_sys_eqI) (auto simp: r' none)
  ultimately show ?thesis by (simp del: wr_abs_simps)
qed

lemma wr_exec_simulates:
  assumes c: "wr_coupled section_owner s" and inv: "rm_inv (\<lambda>m. m) (wr_abs section_owner s)"
    and ex: "wr_exec B W nd mv s = Some s'"
  shows "wr_coupled section_owner s' \<and>
    (\<exists>mvs. rm_run B reference_mutex nd mvs (wr_abs section_owner s) = Some (wr_abs section_owner s') \<and>
      length mvs \<le> 1 \<and> rm_calls mvs = wr_calls [mv])"
proof (cases mv)
  case (Wr_call t f p)
  then obtain r where r: "rm_exec B (returning 0) nd (Rm_call t f p) (wr_rm s) = Some r"
      "s' = s\<lparr>wr_rm := r\<rparr>"
    using ex by (auto simp del: rm_exec.simps)
  from wr_call_move_simulates [OF c r(1)] show ?thesis
    unfolding r(2) Wr_call by (intro conjI exI [of _ "[Rm_call t f p]"]) (simp_all del: rm_exec.simps)
next
  case (Wr_step t)
  have stutter: ?thesis if "wr_coupled section_owner s' \<and> wr_abs section_owner s' = wr_abs section_owner s"
    using that Wr_step by (intro conjI exI [of _ "[]"]) simp_all
  have step: ?thesis if "wr_coupled section_owner s'" and
    "rm_exec B reference_mutex nd (Rm_step t) (wr_abs section_owner s) = Some (wr_abs section_owner s')"
    using that Wr_step by (intro conjI exI [of _ "[Rm_step t]"]) (simp_all del: rm_exec.simps)
  obtain a where a: "rm_acts (wr_rm s) t = Some a"
    using ex Wr_step by (auto split: option.splits)
  show ?thesis
  proof (cases "at_mutex a")
    case False
    then obtain r where r: "rm_exec B (returning 0) nd (Rm_step t) (wr_rm s) = Some r"
        "s' = s\<lparr>wr_rm := r\<rparr>"
      using ex Wr_step a by (auto simp del: rm_exec.simps)
    from wr_own_simulates [OF c a False r(1)] step show ?thesis by (simp add: r(2))
  next
    case True
    show ?thesis
    proof (cases "wm_acts (wr_wm s) t")
      case None
      have "s' = s\<lparr>wr_wm := wm_set_act t (Some (wm_entry (mutex_fn (ra_fn a)) (ra_obj a))) (wr_wm s)\<rparr>"
        using ex Wr_step a True None by simp
      from wr_enter_simulates [OF c inv a True None this] show ?thesis by (rule stutter)
    next
      case (Some b)
      show ?thesis
      proof (cases "wa_pc b = W_ret")
        case ret: True
        then obtain r where r: "rm_exec B (returning (wa_result b)) nd (Rm_step t) (wr_rm s) = Some r"
            "s' = s\<lparr>wr_rm := r, wr_wm := wm_set_act t None (wr_wm s)\<rparr>"
          using ex Wr_step a True Some by (auto simp del: rm_exec.simps)
        from wr_return_simulates [OF c a Some ret r] show ?thesis by (rule stutter)
      next
        case nret: False
        then obtain w where w: "wm_exec B W nd (Wm_step t True) (wr_wm s) = Some w" "s' = s\<lparr>wr_wm := w\<rparr>"
          using ex Wr_step a True Some by (auto simp del: wm_exec.simps)
        from wr_call_simulates [OF c inv a Some nret w(1)] stutter step show ?thesis
          by (auto simp: w(2) simp del: rm_exec.simps)
      qed
    qed
  qed
qed

lemma wr_run_simulates:
  assumes "wr_coupled section_owner s" and "rm_inv (\<lambda>m. m) (wr_abs section_owner s)"
    and "wr_run B W nd mvs s = Some s'"
  shows "wr_coupled section_owner s' \<and> rm_inv (\<lambda>m. m) (wr_abs section_owner s') \<and>
    (\<exists>rms. rm_run B reference_mutex nd rms (wr_abs section_owner s) = Some (wr_abs section_owner s') \<and>
      length rms \<le> length mvs \<and> rm_calls rms = wr_calls mvs)"
  using assms
proof (induction mvs arbitrary: s)
  case Nil
  then show ?case by (auto intro: exI [of _ "[]"])
next
  case (Cons mv mvs)
  then obtain s1 where s1: "wr_exec B W nd mv s = Some s1" "wr_run B W nd mvs s1 = Some s'"
    by (auto split: option.splits)
  from wr_exec_simulates [OF Cons.prems(1,2) s1(1)] obtain xs where
    c: "wr_coupled section_owner s1" and
    xs: "rm_run B reference_mutex nd xs (wr_abs section_owner s) = Some (wr_abs section_owner s1)"
      "length xs \<le> 1" "rm_calls xs = wr_calls [mv]" by blast
  from Cons.IH [OF c plain.rm_run_inv [OF Cons.prems(2) xs(1)] s1(2)] obtain ys where
    ys: "wr_coupled section_owner s'" "rm_inv (\<lambda>m. m) (wr_abs section_owner s')"
      "rm_run B reference_mutex nd ys (wr_abs section_owner s1) = Some (wr_abs section_owner s')"
      "length ys \<le> length mvs" "rm_calls ys = wr_calls mvs" by blast
  have "rm_run B reference_mutex nd (xs @ ys) (wr_abs section_owner s) = Some (wr_abs section_owner s')"
    using xs(1) ys(3) by (simp add: rm_run_append)
  moreover have "rm_calls (xs @ ys) = wr_calls (mv # mvs)"
    using xs(3) ys(5) wr_calls_append [of "[mv]" mvs] by (simp add: rm_calls_append del: wr_calls.simps)
  ultimately show ?case using xs(2) ys by (intro conjI exI [of _ "xs @ ys"]) auto
qed

lemma wr_reach_inv:
  "wr_reach B W section_owner nd s \<Longrightarrow>
     wr_coupled section_owner s \<and> rm_inv (\<lambda>m. m) (wr_abs section_owner s)"
proof (induction rule: wr_reach.induct)
  case (wr_reach_start s)
  then show ?case by (rule wr_start_inv)
next
  case (wr_reach_step s mv s')
  then have "wr_run B W nd [mv] s = Some s'" by simp
  with wr_reach_step.IH wr_run_simulates [of s nd "[mv]" s'] show ?case by blast
qed


text \<open>Where a thread can't go on.\<close>

lemma wr_call_blocks:
  assumes c: "wr_coupled section_owner s"
    and a: "rm_acts (wr_rm s) t = Some a" and b: "wm_acts (wr_wm s) t = Some b" and ret: "wa_pc b \<noteq> W_ret"
    and none: "wm_exec B W nd (Wm_step t True) (wr_wm s) = None"
  shows "ra_fn a = Rm_lock \<and> wa_pc b = W_enter \<and>
    (\<exists>u. u \<noteq> t \<and> section_holder section_owner (wr_wm s) (ra_obj a) = Some u)"
proof -
  have ok: "wr_call_ok a b" by (rule wr_coupledD [OF c b a])
  have act: "wm_act_ok (wm_locked (wr_wm s) t (wa_obj b)) b"
    and oi: "wm_obj_inv section_owner (wr_wm s) (wa_obj b)"
    using c b by (auto simp: wr_coupled_def wm_inv_def)
  let ?c = "wm_section (wr_wm s) (wa_obj b)"
  have at: "wa_fn b = Wm_lock \<and> wa_pc b = W_enter \<and> EnterCriticalSection W t ?c = None"
    using none b ret ok act
    by (cases "ra_fn a"; cases "wa_pc b")
      (auto simp: wm_fn_defs wm_act_ok_def wr_call_ok_def mutex_fn_def case_prod_beta split: option.splits if_splits)
  have "section_owner ?c \<noteq> None"
  proof
    assume "section_owner ?c = None"
    from cs_enter_free [OF this, of t] at show False by auto
  qed
  then obtain u n where u: "section_owner ?c = Some (u, n)" by auto
  have "wpc_on (wr_wm s) t (wa_obj b) = Some W_enter" using b at by (simp add: wpc_on_def)
  with wm_obj_section [OF oi] have "\<forall>n. section_owner ?c \<noteq> Some (t, n)" by simp
  with u ok have "\<exists>u. u \<noteq> t \<and> section_holder section_owner (wr_wm s) (ra_obj a) = Some u"
    by (auto simp: section_holder_def wr_call_ok_def)
  with at ok show ?thesis by (cases "ra_fn a") (auto simp: wr_call_ok_def mutex_fn_def)
qed

lemma wr_blocks:
  assumes c: "wr_coupled section_owner s" and inv: "rm_inv (\<lambda>m. m) (wr_abs section_owner s)"
    and a: "rm_acts (wr_rm s) t = Some a" and none: "wr_exec B W nd (Wr_step t) s = None"
  shows "\<exists>b u. wm_acts (wr_wm s) t = Some b \<and> ra_fn a = Rm_lock \<and> wa_pc b = W_enter \<and> u \<noteq> t \<and>
    section_holder section_owner (wr_wm s) (ra_obj a) = Some u"
proof (cases "at_mutex a")
  case False
  have "wm_acts (wr_wm s) t = None"
    using wr_coupledD [OF c _ a] False
    by (cases "wm_acts (wr_wm s) t") (auto simp: wr_call_ok_def at_mutex_def split: if_splits)
  then have "rm_act_ok (rm_held (wr_rm s) t (ra_obj a)) a"
    using inv a unfolding rm_inv_def by fastforce
  moreover have "rm_exec B (returning 0) nd (Rm_step t) (wr_rm s) = None"
    using none a False by (simp del: rm_exec.simps)
  ultimately have False
    using a False
    by (cases "ra_fn a"; cases "ra_pc a")
      (auto simp: rm_fn_defs rm_act_ok_def at_mutex_def case_prod_beta split: if_splits)
  then show ?thesis ..
next
  case True
  then obtain b where b: "wm_acts (wr_wm s) t = Some b"
    using none a by (auto split: option.splits)
  have ok: "wr_call_ok a b" by (rule wr_coupledD [OF c b a])
  have ret: "wa_pc b \<noteq> W_ret"
  proof
    assume r: "wa_pc b = W_ret"
    have "ra_pc a \<noteq> M_ret" using ok by (simp add: wr_call_ok_def)
    from rm_exec_afterI [OF a this] rm_fn_step_returning [OF ok r] none a True b r show False by simp
  qed
  have "wm_exec B W nd (Wm_step t True) (wr_wm s) = None"
    using none a True b ret by (simp del: wm_exec.simps)
  from wr_call_blocks [OF c a b ret this] b show ?thesis by blast
qed

lemma wr_held_section:
  assumes c: "wr_coupled section_owner s" and inv: "rm_inv (\<lambda>m. m) (wr_abs section_owner s)"
    and held: "0 < rm_held (wr_rm s) t p"
  shows "section_owner (wm_section (wr_wm s) p) = Some (t, 1) \<and> (\<forall>u. u \<noteq> t \<longrightarrow> rm_held (wr_rm s) u p = 0)"
proof -
  have oi: "rm_obj_inv (\<lambda>m. m) (wr_abs section_owner s) p" using inv by (simp add: rm_inv_def)
  have h: "section_holder section_owner (wr_wm s) p = Some t"
    using rm_held_holder [OF oi, of t] held by fastforce
  have others: "\<forall>u. u \<noteq> t \<longrightarrow> rm_held (wr_rm s) u p = 0"
    using rm_held_holder [OF oi] h by simp
  have "wm_obj_inv section_owner (wr_wm s) p" using c by (simp add: wr_coupled_def wm_inv_def)
  then have "section_owner (wm_section (wr_wm s) p) = Some (t, 1)"
    using h by (cases rule: wm_obj_inv_cases) (auto simp: section_holder_def)
  with others show ?thesis by simp
qed

end

lemma wr_not_aborted:
  assumes c: "wr_coupled so s" and inv: "rm_inv (\<lambda>m. m) (wr_abs so s)"
    and a: "rm_acts (wr_rm s) t = Some a"
  shows "ra_pc a \<noteq> M_abort"
proof
  assume ab: "ra_pc a = M_abort"
  have "wm_acts (wr_wm s) t = None"
    using wr_coupledD [OF c _ a] ab
    by (cases "wm_acts (wr_wm s) t") (auto simp: wr_call_ok_def split: if_splits)
  then have "pc_on (wr_abs so s) t (ra_obj a) = Some M_abort" using a ab by (simp add: pc_on_def)
  with rm_obj_holder [of "\<lambda>m. m" "wr_abs so s" "ra_obj a"] inv show False by (auto simp: rm_inv_def)
qed

subsection \<open>Properties\<close>

lemma reference_windows: "windows_mutex c11_backend reference_cs (\<lambda>c. c)"
  by unfold_locales

definition wr_init_sys :: "(tid \<times> nat) option wr_sys" where
  "wr_init_sys = \<lparr>wr_rm = \<lparr>rm_mem = \<lparr>cells = (\<lambda>_. 0), log = []\<rparr>, rm_mutex = (\<lambda>p. ()),
     rm_acts = (\<lambda>t. None), rm_held = (\<lambda>t p. 0)\<rparr>, wr_wm = wm_init_sys\<rparr>"

lemma wr_init_start: "wr_start (\<lambda>c. c) wr_init_sys"
  by (simp add: wr_start_def wr_init_sys_def rm_start_def wm_start_def wm_init_sys_def)

text \<open>Example: thread 1 locks twice; thread 2 tries and is refused, and then locks and blocks.\<close>

definition wr_example :: "wr_move list" where
  "wr_example = Wr_call 1 Rm_lock 0 # replicate 10 (Wr_step 1) @
     Wr_call 1 Rm_lock 0 # replicate 3 (Wr_step 1) @
     Wr_call 2 Rm_trylock 0 # replicate 6 (Wr_step 2) @
     Wr_call 2 Rm_lock 0 # replicate 3 (Wr_step 2)"

abbreviation example_wr_run :: "wr_move list \<Rightarrow> (tid \<times> nat) option wr_sys \<Rightarrow> (tid \<times> nat) option wr_sys option" where
  "example_wr_run \<equiv> wr_run c11_backend reference_cs False"

definition wr_example_view ::
  "(tid \<times> nat) option wr_sys \<Rightarrow> nat \<times> rm_act option \<times> rm_act option \<times> wm_pc option \<times> bool"
where
  "wr_example_view s = (rm_held (wr_rm s) 1 0, rm_acts (wr_rm s) 1, rm_acts (wr_rm s) 2,
     map_option wa_pc (wm_acts (wr_wm s) 2), wr_exec c11_backend reference_cs False (Wr_step 2) s = None)"

lemma wr_example_value:
  "map_option wr_example_view (example_wr_run wr_example wr_init_sys) =
     Some (2, None, Some \<lparr>ra_fn = Rm_lock, ra_obj = 0, ra_pc = M_mutex, ra_result = 0\<rparr>, Some W_enter, True)"
  by code_simp

lemma wr_example_reach:
  obtains s where "wr_reach c11_backend reference_cs (\<lambda>c. c) False s"
    "example_wr_run wr_example wr_init_sys = Some s" "rm_held (wr_rm s) 1 0 = 2"
    "rm_acts (wr_rm s) 2 = Some \<lparr>ra_fn = Rm_lock, ra_obj = 0, ra_pc = M_mutex, ra_result = 0\<rparr>"
    "wr_exec c11_backend reference_cs False (Wr_step 2) s = None"
proof -
  obtain s where s: "example_wr_run wr_example wr_init_sys = Some s"
    "wr_example_view s = (2, None, Some \<lparr>ra_fn = Rm_lock, ra_obj = 0, ra_pc = M_mutex, ra_result = 0\<rparr>,
       Some W_enter, True)"
    using wr_example_value by blast
  then show ?thesis
    using that [OF wr_run_reach [OF wr_reach_start [OF wr_init_start] s(1)] s(1)]
    unfolding wr_example_view_def prod.inject by (simp del: wr_exec.simps)
qed

text \<open>C7: on Windows, where the calls of the plain mutex take several steps and other threads
  run in between, the recursive mutex does what it does over a plain mutex whose calls are
  atomic: for every run there is a run of the latter, with the same calls by the clients in the
  same order, that leads to the same owner, depth, holder and results.\<close>

theorem windows_recursive_mutex_refines:
  assumes "windows_mutex B W so" and "wr_start so s" and "wr_run B W nd mvs s = Some s'"
  shows "\<exists>rms. rm_run B reference_mutex nd rms (wr_abs so s) = Some (wr_abs so s') \<and>
    rm_calls rms = wr_calls mvs \<and> length rms \<le> length mvs"
  using windows_mutex.wr_run_simulates [OF assms(1) _ _ assms(3)] wr_start_inv [OF assms(2)] by blast

theorem windows_recursive_mutex_refines_witness:
  "\<exists>s' rms. example_wr_run wr_example wr_init_sys = Some s' \<and>
     example_rm_run rms (wr_abs (\<lambda>c. c) wr_init_sys) = Some (wr_abs (\<lambda>c. c) s') \<and>
     rm_calls rms = [(1, Rm_lock, 0), (1, Rm_lock, 0), (2, Rm_trylock, 0), (2, Rm_lock, 0)]"
proof -
  obtain s where s: "example_wr_run wr_example wr_init_sys = Some s" by (rule wr_example_reach)
  have "wr_calls wr_example = [(1, Rm_lock, 0), (1, Rm_lock, 0), (2, Rm_trylock, 0), (2, Rm_lock, 0)]"
    by code_simp
  with windows_recursive_mutex_refines [OF reference_windows wr_init_start s] s
  show ?thesis by auto
qed

text \<open>C23: a recursive mutex on Windows is held by one thread at a time, and that thread has
  entered the critical section exactly once, however often it has locked; the embedded mutex
  never finds its own thread in front of it, so that its trap for recursive locks stays shut,
  and no assertion fails.\<close>

theorem windows_recursive_mutex_excludes:
  assumes "windows_mutex B W so" and "wr_reach B W so nd s"
  shows "(\<forall>t p. 0 < rm_held (wr_rm s) t p \<longrightarrow> so (wm_section (wr_wm s) p) = Some (t, 1) \<and>
      (\<forall>u. u \<noteq> t \<longrightarrow> rm_held (wr_rm s) u p = 0)) \<and>
    (\<forall>t b. wm_acts (wr_wm s) t = Some b \<longrightarrow> wa_pc b \<notin> {W_spin, W_abort}) \<and>
    (\<forall>t a. rm_acts (wr_rm s) t = Some a \<longrightarrow> ra_pc a \<noteq> M_abort)"
proof (intro conjI allI impI)
  have inv: "wr_coupled so s" "rm_inv (\<lambda>m. m) (wr_abs so s)"
    using windows_mutex.wr_reach_inv [OF assms] by simp_all
  note held = windows_mutex.wr_held_section [OF assms(1) inv]
  show "so (wm_section (wr_wm s) p) = Some (t, 1)" if "0 < rm_held (wr_rm s) t p" for t p
    using held [OF that] by simp
  show "rm_held (wr_rm s) u p = 0" if "0 < rm_held (wr_rm s) t p" "u \<noteq> t" for t p u
    using held [OF that(1)] that(2) by simp
  show "wa_pc b \<notin> {W_spin, W_abort}" if "wm_acts (wr_wm s) t = Some b" for t b
    using inv(1) that unfolding wr_coupled_def wr_call_ok_def by blast
  show "ra_pc a \<noteq> M_abort" if "rm_acts (wr_rm s) t = Some a" for t a
    by (rule wr_not_aborted [OF inv that])
qed

theorem windows_recursive_mutex_excludes_witness:
  "\<exists>s. example_wr_run wr_example wr_init_sys = Some s \<and> rm_held (wr_rm s) 1 0 = 2 \<and>
     wm_section (wr_wm s) 0 = Some (1, 1) \<and> rm_held (wr_rm s) 2 0 = 0"
proof -
  obtain s where s: "wr_reach c11_backend reference_cs (\<lambda>c. c) False s"
    "example_wr_run wr_example wr_init_sys = Some s" "rm_held (wr_rm s) 1 0 = 2"
    by (rule wr_example_reach)
  have "0 < rm_held (wr_rm s) 1 0" by (simp add: s)
  with windows_recursive_mutex_excludes [OF reference_windows s(1)]
  have "wm_section (wr_wm s) 0 = Some (1, 1) \<and> rm_held (wr_rm s) 2 0 = 0" by fastforce
  with s show ?thesis by blast
qed

text \<open>C24: on Windows too, a thread blocks in a recursive mutex only in \<open>lock\<close>, in front of the
  critical section, while another thread is in it; in particular a thread that holds the mutex
  never blocks.\<close>

theorem windows_recursive_mutex_blocks_on_others:
  assumes "windows_mutex B W so" and "wr_reach B W so nd s" and "rm_acts (wr_rm s) t = Some a"
    and "wr_exec B W nd (Wr_step t) s = None"
  shows "\<exists>b u. wm_acts (wr_wm s) t = Some b \<and> ra_fn a = Rm_lock \<and> wa_pc b = W_enter \<and> u \<noteq> t \<and>
    section_holder so (wr_wm s) (ra_obj a) = Some u \<and> rm_held (wr_rm s) t (ra_obj a) = 0"
proof -
  have inv: "wr_coupled so s" "rm_inv (\<lambda>m. m) (wr_abs so s)"
    using windows_mutex.wr_reach_inv [OF assms(1,2)] by simp_all
  from windows_mutex.wr_blocks [OF assms(1) inv assms(3,4)] obtain b u where
    u: "wm_acts (wr_wm s) t = Some b" "ra_fn a = Rm_lock" "wa_pc b = W_enter" "u \<noteq> t"
      "section_holder so (wr_wm s) (ra_obj a) = Some u" by blast
  with windows_mutex.wr_held_section [OF assms(1) inv, of t "ra_obj a"]
  have "rm_held (wr_rm s) t (ra_obj a) = 0"
    by (cases "rm_held (wr_rm s) t (ra_obj a)") (auto simp: section_holder_def)
  with u show ?thesis by blast
qed

theorem windows_recursive_mutex_blocks_on_others_witness:
  "\<exists>s b u. example_wr_run wr_example wr_init_sys = Some s \<and> wm_acts (wr_wm s) 2 = Some b \<and>
     wa_pc b = W_enter \<and> u \<noteq> 2 \<and> section_holder (\<lambda>c. c) (wr_wm s) 0 = Some u"
proof -
  obtain s where s: "wr_reach c11_backend reference_cs (\<lambda>c. c) False s"
    "example_wr_run wr_example wr_init_sys = Some s"
    "rm_acts (wr_rm s) 2 = Some \<lparr>ra_fn = Rm_lock, ra_obj = 0, ra_pc = M_mutex, ra_result = 0\<rparr>"
    "wr_exec c11_backend reference_cs False (Wr_step 2) s = None"
    by (rule wr_example_reach)
  from windows_recursive_mutex_blocks_on_others [OF reference_windows s(1,3,4)] s(2)
  show ?thesis by auto
qed

end
