(* ===== verification/Recursive_Mutex_Refinement.thy ===== *)
theory Recursive_Mutex_Refinement
  imports Win_Recursive_Mutex
begin

text \<open>
  The recursive mutex (\<open>src/mulle-thread.c\<close>) as an implementation of a reentrant lock: its
  calls take several steps each; every call takes effect at one of them, and the effects in
  their order are a run of the lock, which is its owner and a count. By the simulation of
  theory \<open>Win_Recursive_Mutex\<close> this holds on Windows too.
\<close>

subsection \<open>The reentrant lock\<close>

text \<open>A lock or a trylock that succeeds, an unlock, and a trylock that is refused with the code it
  returns.\<close>

datatype rl_event = Rl_lock tid | Rl_unlock tid | Rl_refuse tid int

type_synonym rlock = "(tid \<times> nat) option"

fun rl_apply :: "rl_event \<Rightarrow> rlock \<Rightarrow> rlock option" where
  "rl_apply (Rl_lock t) None = Some (Some (t, 1))"
| "rl_apply (Rl_lock t) (Some (u, n)) = (if u = t then Some (Some (t, n + 1)) else None)"
| "rl_apply (Rl_unlock t) None = None"
| "rl_apply (Rl_unlock t) (Some (u, n)) =
     (if u = t then Some (if n \<le> 1 then None else Some (t, n - 1)) else None)"
| "rl_apply (Rl_refuse t code) None = None"
| "rl_apply (Rl_refuse t code) (Some (u, n)) = (if u \<noteq> t \<and> code = - 1 then Some (Some (u, n)) else None)"

fun rl_run :: "rl_event list \<Rightarrow> rlock \<Rightarrow> rlock option" where
  "rl_run [] l = Some l"
| "rl_run (e # es) l = (case rl_apply e l of None \<Rightarrow> None | Some l' \<Rightarrow> rl_run es l')"

lemma rl_run_append:
  "rl_run (xs @ ys) l = (case rl_run xs l of None \<Rightarrow> None | Some l' \<Rightarrow> rl_run ys l')"
  by (induction xs arbitrary: l) (auto split: option.splits)

subsection \<open>Where the calls take effect\<close>

text \<open>The first lock takes effect where the plain mutex is taken, the last unlock where it is
  given back, the ones between at the change of the depth; \<open>n\<close> is how often the thread holds
  the mutex.\<close>

definition rm_effect :: "tid \<Rightarrow> nat \<Rightarrow> rm_act \<Rightarrow> rm_act \<Rightarrow> rl_event list" where
  "rm_effect t n a a' =
     (if ra_pc a = M_mutex
      then if ra_pc a' = M_ret then [Rl_refuse t (ra_result a')] else [Rl_lock t]
      else if ra_pc a = M_inc \<and> 0 < n then [Rl_lock t]
      else if ra_pc a = M_dec \<and> ra_pc a' = M_ret then [Rl_unlock t]
      else if ra_pc a = M_release then [Rl_unlock t]
      else [])"

fun rm_move_effect :: "nat \<Rightarrow> rm_move \<Rightarrow> 'm rm_sys \<Rightarrow> 'm rm_sys \<Rightarrow> rl_event list" where
  "rm_move_effect p (Rm_call t f q) s s' = []"
| "rm_move_effect p (Rm_step t) s s' =
     (case (rm_acts s t, rm_acts s' t) of
        (Some a, Some a') \<Rightarrow> if ra_obj a = p then rm_effect t (rm_held s t p) a a' else []
      | _ \<Rightarrow> [])"

fun rm_effects ::
  "backend \<Rightarrow> 'm mutex_ops \<Rightarrow> bool \<Rightarrow> nat \<Rightarrow> rm_move list \<Rightarrow> 'm rm_sys \<Rightarrow> rl_event list"
where
  "rm_effects B M ndebug p [] s = []"
| "rm_effects B M ndebug p (mv # mvs) s =
     (case rm_exec B M ndebug mv s of
        None \<Rightarrow> []
      | Some s' \<Rightarrow> rm_move_effect p mv s s' @ rm_effects B M ndebug p mvs s')"

text \<open>The lock a state stands for: a thread on its way in or out counts as holding it once.\<close>

definition rl_abs :: "('m \<Rightarrow> tid option) \<Rightarrow> 'm rm_sys \<Rightarrow> nat \<Rightarrow> rlock" where
  "rl_abs holder s p = map_option (\<lambda>u. (u, max 1 (rm_held s u p))) (holder (rm_mutex s p))"

lemma rm_refused_code:
  "rm_fn_step B M nd t a s = Some (a', s') \<Longrightarrow> ra_pc a = M_mutex \<Longrightarrow> ra_pc a' = M_ret \<Longrightarrow>
     ra_result a' = - 1"
  by (cases "ra_fn a") (auto simp: rm_fn_defs split: prod.splits option.splits if_splits)

text \<open>One step on the mutex, from its view before to its view after.\<close>

lemma rm_trans_effect:
  assumes tr: "rm_trans nd t f (ra_pc a) (i, d, h) (ra_pc a') (i', d', h')"
    and inv: "(h = None \<and> rm_outside (Some (ra_pc a)) n) \<or>
      (h = Some t \<and> rm_inside t (Some (ra_pc a)) i d n) \<or>
      (\<exists>u. h = Some u \<and> u \<noteq> t \<and> rm_outside (Some (ra_pc a)) n \<and> (i = NULL \<or> i = u))"
    and t: "t \<noteq> 0" and n: "int n \<le> rm_max_depth"
    and code: "ra_pc a = M_mutex \<Longrightarrow> ra_pc a' = M_ret \<Longrightarrow> ra_result a' = - 1"
    and n': "n' = (if ra_pc a = M_inc then n + 1 else if ra_pc a = M_dec then n - 1 else n)"
  shows "rl_run (rm_effect t n a a') (map_option (\<lambda>u. (u, max 1 (if u = t then n else k u))) h) =
    Some (map_option (\<lambda>u. (u, max 1 (if u = t then n' else k u))) h')"
  using assms sint_of_nat_small [OF n]
  by (cases "ra_pc a") (auto simp: rm_trans_simps rm_effect_def rm_inside_def rm_outside_def)


context recursive_mutex
begin

lemma rm_exec_effect:
  assumes inv: "rm_inv holder s" and ex: "rm_exec B M nd mv s = Some s'"
  shows "rl_run (rm_move_effect p mv s s') (rl_abs holder s p) = Some (rl_abs holder s' p)"
proof (cases mv)
  case (Rm_call t f q)
  with ex show ?thesis by (auto simp: rl_abs_def split: if_splits)
next
  case (Rm_step t)
  from ex [unfolded Rm_step] show ?thesis
  proof (cases rule: rm_exec_StepE)
    case (1 a)
    then show ?thesis by (simp add: Rm_step rl_abs_def)
  next
    case (2 a a' m' mutex')
    define q where "q = ra_obj a"
    have oi: "rm_obj_inv holder s q" and t: "t \<noteq> 0" and n: "int (rm_held s t q) \<le> rm_max_depth"
      using inv 2(1) by (auto simp: rm_inv_def)
    have pcs: "pc_on s t q = Some (ra_pc a)" using 2(1) by (simp add: pc_on_def q_def)
    have enter: "ra_pc a = M_mutex \<Longrightarrow> holder (rm_mutex s (ra_obj a)) \<noteq> Some t"
      and release: "ra_pc a = M_release \<Longrightarrow> holder (rm_mutex s (ra_obj a)) = Some t"
      using rm_obj_holder [OF oi pcs] by (simp_all add: q_def)
    have tr: "rm_trans nd t (ra_fn a) (ra_pc a)
        (cells (rm_mem s) (rm_thread_id q), cells (rm_mem s) (rm_depth q), holder (rm_mutex s q))
        (ra_pc a') (cells m' (rm_thread_id q), cells m' (rm_depth q), holder mutex')"
      using rm_fn_step_refines [OF 2(3) enter release] by (simp add: rm_view_def q_def)
    have view: "(holder (rm_mutex s q) = None \<and> rm_outside (Some (ra_pc a)) (rm_held s t q)) \<or>
      (holder (rm_mutex s q) = Some t \<and> rm_inside t (Some (ra_pc a)) (cells (rm_mem s) (rm_thread_id q))
        (cells (rm_mem s) (rm_depth q)) (rm_held s t q)) \<or>
      (\<exists>u. holder (rm_mutex s q) = Some u \<and> u \<noteq> t \<and> rm_outside (Some (ra_pc a)) (rm_held s t q) \<and>
        (cells (rm_mem s) (rm_thread_id q) = NULL \<or> cells (rm_mem s) (rm_thread_id q) = u))"
      using oi
    proof (cases rule: rm_obj_inv_cases)
      case free
      then show ?thesis using pcs by metis
    next
      case (held u)
      then show ?thesis using pcs rm_inside_id [OF held(3)] by (cases "u = t") metis+
    qed
    have abs: "rl_abs holder s q = map_option (\<lambda>u. (u, max 1 (if u = t then rm_held s t q else rm_held s u q)))
        (holder (rm_mutex s q))"
      "rl_abs holder s' q = map_option (\<lambda>u. (u, max 1 (if u = t
         then (if ra_pc a = M_inc then rm_held s t q + 1 else if ra_pc a = M_dec then rm_held s t q - 1
           else rm_held s t q) else rm_held s u q))) (holder mutex')"
      using rm_count_self [of t a s]
      by (auto simp: rl_abs_def 2(4) rm_after_def q_def rm_count_other intro!: option.map_cong0)
    have run: "rl_run (rm_effect t (rm_held s t q) a a') (rl_abs holder s q) = Some (rl_abs holder s' q)"
      unfolding abs
      by (rule rm_trans_effect [OF tr view t n rm_refused_code [OF 2(3)] refl])
    show ?thesis
    proof (cases "q = p")
      case True
      then show ?thesis using run by (simp add: Rm_step 2(1,4) rm_after_def q_def)
    next
      case False
      then show ?thesis
        by (auto simp: Rm_step 2(1,4) rm_after_def q_def rl_abs_def rm_count_other)
    qed
  qed
qed

lemma rm_run_effects:
  "rm_inv holder s \<Longrightarrow> rm_run B M nd mvs s = Some s' \<Longrightarrow>
     rl_run (rm_effects B M nd p mvs s) (rl_abs holder s p) = Some (rl_abs holder s' p)"
proof (induction mvs arbitrary: s)
  case (Cons mv mvs)
  then obtain s1 where s1: "rm_exec B M nd mv s = Some s1" "rm_run B M nd mvs s1 = Some s'"
    by (auto split: option.splits)
  with Cons.IH [of s1] rm_exec_inv [OF Cons.prems(1) s1(1)] rm_exec_effect [OF Cons.prems(1) s1(1), of p]
  show ?case by (simp add: rl_run_append)
qed simp

end

context windows_mutex
begin

lemma wr_run_effects:
  assumes "wr_coupled section_owner s" and "rm_inv (\<lambda>m. m) (wr_abs section_owner s)"
    and "wr_run B W nd mvs s = Some s'"
  shows "\<exists>rms. rm_run B reference_mutex nd rms (wr_abs section_owner s) = Some (wr_abs section_owner s') \<and>
    rm_calls rms = wr_calls mvs \<and>
    rl_run (rm_effects B reference_mutex nd p rms (wr_abs section_owner s))
      (rl_abs (\<lambda>m. m) (wr_abs section_owner s) p) = Some (rl_abs (\<lambda>m. m) (wr_abs section_owner s') p)"
  using wr_run_simulates [OF assms] plain.rm_run_effects [OF assms(2)] by blast

end

subsection \<open>Properties\<close>

text \<open>C6: the recursive mutex implements a reentrant lock, over any atomics and any plain mutex
  that keep their contracts: in every run of any number of threads the effects of the calls on
  a mutex, in the order in which they take place, are a run of the lock. Every lock finds it
  free or its own, every unlock is by the owner, a trylock is refused with -1 only while
  another thread owns it; and at the end the lock is the holder of the plain mutex with the
  number of its locks.\<close>

theorem recursive_mutex_refines_lock:
  assumes "recursive_mutex B M holder" and "rm_start holder s" and "rm_run B M nd mvs s = Some s'"
  shows "rl_run (rm_effects B M nd p mvs s) None = Some (rl_abs holder s' p)"
proof -
  have "rl_abs holder s p = None" using assms(2) by (simp add: rm_start_def rl_abs_def)
  with recursive_mutex.rm_run_effects [OF assms(1) rm_start_inv [OF assms(2)] assms(3), of p]
  show ?thesis by simp
qed

lemma reference_recursive: "recursive_mutex c11_backend reference_mutex (\<lambda>m. m)"
  by unfold_locales

text \<open>Example: thread 1 locks twice, unlocks twice and lets thread 2 in; thread 3 is refused.\<close>

definition rl_example :: "rm_move list" where
  "rl_example = rm_example @ [Rm_call 3 Rm_trylock 0, Rm_step 3, Rm_step 3,
     Rm_call 1 Rm_unlock 0, Rm_step 1, Rm_step 1, Rm_step 1,
     Rm_call 1 Rm_unlock 0, Rm_step 1, Rm_step 1, Rm_step 1, Rm_step 1, Rm_step 2]"

lemma rl_example_effects:
  "rm_effects c11_backend reference_mutex False 0 rl_example rm_init_sys =
     [Rl_lock 1, Rl_lock 1, Rl_refuse 3 (- 1), Rl_unlock 1, Rl_unlock 1, Rl_lock 2]"
  by code_simp

theorem recursive_mutex_refines_lock_witness:
  "\<exists>s'. example_rm_run rl_example rm_init_sys = Some s' \<and>
     rl_run [Rl_lock 1, Rl_lock 1, Rl_refuse 3 (- 1), Rl_unlock 1, Rl_unlock 1, Rl_lock 2] None =
       Some (rl_abs (\<lambda>m. m) s' 0)"
proof -
  have "example_rm_run rl_example rm_init_sys \<noteq> None = True" by code_simp
  then obtain s' where s': "example_rm_run rl_example rm_init_sys = Some s'" by auto
  have "rm_start (\<lambda>m. m) rm_init_sys" by (simp add: rm_start_def rm_init_sys_def)
  from recursive_mutex_refines_lock [OF reference_recursive this s', of 0] s'
    rl_example_effects
  show ?thesis by simp
qed

text \<open>The same through the Windows mutex: the run that simulates one on Windows is a run of the
  lock.\<close>

lemma windows_recursive_mutex_is_lock:
  assumes "windows_mutex B W so" and "wr_start so s" and "wr_run B W nd mvs s = Some s'"
  shows "\<exists>rms. rm_run B reference_mutex nd rms (wr_abs so s) = Some (wr_abs so s') \<and>
    rm_calls rms = wr_calls mvs \<and>
    rl_run (rm_effects B reference_mutex nd p rms (wr_abs so s)) None = Some (rl_abs (\<lambda>m. m) (wr_abs so s') p)"
proof -
  note inv = wr_start_inv [OF assms(2)]
  have "section_holder so (wr_wm s) p = None"
    using assms(2) by (simp add: wr_start_def wm_start_def section_holder_def)
  then have "rl_abs (\<lambda>m. m) (wr_abs so s) p = None" by (simp add: rl_abs_def)
  with windows_mutex.wr_run_effects [OF assms(1) _ _ assms(3), of p] inv show ?thesis by auto
qed

end
