(* ===== verification/Win_Tss_Concurrent.thy ===== *)
theory Win_Tss_Concurrent
  imports Win_Tss
begin

text \<open>
  Thread specific storage on Windows used by many threads at once
  (\<open>src/mulle-thread-windows.c\<close>): creating and freeing keys and ending threads, as an
  interleaving. One step is one interlocked operation, one call of the critical section, one
  assertion, or what is done to the table inside the section, which other threads can't see
  before the section is left. Destructors run inside the section; theory \<open>Win_Tss_Callback\<close> lets
  them call back.
\<close>

subsection \<open>The functions step by step\<close>

text \<open>The points of \<open>mulle_thread_windows_add_tss\<close> (A), \<open>mulle_thread_windows_remove_tss\<close> (X),
  and \<open>mulle_thread_windows_destroy_tss\<close> with its check (E); and of the two functions over the
  counter. \<open>Returned\<close> holds the result.\<close>

datatype tc_pc =
  T_init tg_pc | A_enter | A_add | A_leave int | A_check int
| X_assert | X_enter | X_remove | X_leave | T_done tg_pc
| E_check | E_assert | E_enter | E_run | E_leave
| Returned int | Faulted tss_fault

record tc_shared =
  sh_global :: tss_global
  sh_owner :: "tid option"

text \<open>\<open>EnterCriticalSection( &global.lock)\<close>: undefined if the section doesn't exist.\<close>

definition tc_enter :: "tid \<Rightarrow> tc_pc \<Rightarrow> tc_shared \<Rightarrow> (tc_pc \<times> tc_shared) option" where
  "tc_enter t next_pc s =
     (if \<not> lock_live (sh_global s) then Some (Faulted Dead_section, s)
      else if sh_owner s = None then Some (next_pc, s\<lparr>sh_owner := Some t\<rparr>)
      else None)"

definition tc_assert :: "bool \<Rightarrow> bool \<Rightarrow> tc_pc \<Rightarrow> tc_pc" where
  "tc_assert ndebug c next_pc = (if ndebug \<or> c then next_pc else Faulted Tss_assertion)"

definition add_tss_step ::
  "bool \<Rightarrow> (nat \<Rightarrow> bool) \<Rightarrow> tid \<Rightarrow> dword \<Rightarrow> ptr \<Rightarrow> tc_pc \<Rightarrow> tc_shared \<Rightarrow> (tc_pc \<times> tc_shared) option"
where
  "add_tss_step ndebug may_alloc t key f pc s =
     (case pc of
        T_init ipc \<Rightarrow>
          (if ipc = I_ret then Some (A_enter, s)
           else (case mulle_thread_tss_init ipc (sh_global s) of
               (ipc', g) \<Rightarrow> Some (T_init ipc', s\<lparr>sh_global := g\<rparr>)))
      | A_enter \<Rightarrow> tc_enter t A_add s
      | A_add \<Rightarrow>
          (case destructor_table_add_destructor_for_key ndebug may_alloc (g_table (sh_global s)) f key of
             Inl e \<Rightarrow> Some (Faulted Tss_assertion, s)
           | Inr (rval, table) \<Rightarrow>
               Some (A_leave rval, s\<lparr>sh_global := (sh_global s)\<lparr>g_table := table\<rparr>\<rparr>))
      | A_leave rval \<Rightarrow> Some (A_check rval, s\<lparr>sh_owner := None\<rparr>)
      | A_check rval \<Rightarrow> Some (tc_assert ndebug (rval = 0) (Returned rval), s)
      | _ \<Rightarrow> None)"

definition remove_tss_step ::
  "bool \<Rightarrow> tid \<Rightarrow> dword \<Rightarrow> tc_pc \<Rightarrow> tc_shared \<Rightarrow> (tc_pc \<times> tc_shared) option"
where
  "remove_tss_step ndebug t key pc s =
     (case pc of
        X_assert \<Rightarrow> Some (tc_assert ndebug (inited (sh_global s) \<noteq> 0) X_enter, s)
      | X_enter \<Rightarrow> tc_enter t X_remove s
      | X_remove \<Rightarrow>
          Some (X_leave, s\<lparr>sh_global := (sh_global s)
            \<lparr>g_table := destructor_table_remove_destructor_for_key (g_table (sh_global s)) key\<rparr>\<rparr>)
      | X_leave \<Rightarrow> Some (T_done D_dec, s\<lparr>sh_owner := None\<rparr>)
      | T_done dpc \<Rightarrow>
          (if dpc = D_ret then Some (Returned 0, s)
           else if dpc = D_abort then Some (Faulted Tss_assertion, s)
           else (case mulle_thread_tss_done ndebug dpc (sh_global s) of
               (dpc', g) \<Rightarrow> Some (T_done dpc', s\<lparr>sh_global := g\<rparr>)))
      | _ \<Rightarrow> None)"

definition destroy_tss_step ::
  "bool \<Rightarrow> destructor \<Rightarrow> tid \<Rightarrow> tc_pc \<Rightarrow> tc_shared \<times> tls \<Rightarrow> (tc_pc \<times> tc_shared \<times> tls) option"
where
  "destroy_tss_step ndebug run t pc sv =
     (case sv of (s, values) \<Rightarrow>
      (case pc of
         E_check \<Rightarrow> Some (if 2 \<le> sint (inited (sh_global s)) then E_assert else Returned 0, s, values)
       | E_assert \<Rightarrow> Some (tc_assert ndebug (inited (sh_global s) \<noteq> 0) E_enter, s, values)
       | E_enter \<Rightarrow> map_option (\<lambda>(pc', s'). (pc', s', values)) (tc_enter t E_run s)
       | E_run \<Rightarrow>
           Some (E_leave, s, destructor_table_execute_destructors run (g_table (sh_global s)) values)
       | E_leave \<Rightarrow> Some (Returned 0, s\<lparr>sh_owner := None\<rparr>, values)
       | _ \<Rightarrow> None))"

lemmas tc_step_defs =
  add_tss_step_def remove_tss_step_def destroy_tss_step_def tc_enter_def tc_assert_def

subsection \<open>Threads\<close>

text \<open>
  A thread creates a key with index \<open>key\<close>, which \<open>TlsAlloc\<close> gave it and no one else, frees a
  key whose creation has returned, or ends by \<open>mulle_thread_return\<close> or \<open>mulle_thread_exit\<close>.
\<close>

datatype tc_call = Do_create dword ptr | Do_free dword | Do_return | Do_exit

text \<open>What has become of an index, as history: given out by \<open>TlsAlloc\<close>, counted, in the table,
  in use, being freed, out of the table, no longer counted.\<close>

datatype key_state = Unused | Reserved | Counted | Listed | In_use | Freeing | Unlisted | Uncounted

record tc_act =
  ta_call :: tc_call
  ta_pc :: tc_pc

record tc_sys =
  tc_sh :: tc_shared
  tc_tls :: "tid \<Rightarrow> tls"
  tc_act :: "tid \<Rightarrow> tc_act option"
  tc_used :: "dword list"
  tc_key :: "dword \<Rightarrow> key_state"
  tc_fun :: "dword \<Rightarrow> ptr"

definition tc_first_pc :: "tc_call \<Rightarrow> tc_pc" where
  "tc_first_pc c = (case c of
     Do_create key f \<Rightarrow> T_init I_inc | Do_free key \<Rightarrow> X_assert | Do_return \<Rightarrow> E_check | Do_exit \<Rightarrow> E_assert)"

definition tc_may_call :: "tc_sys \<Rightarrow> tid \<Rightarrow> tc_call \<Rightarrow> bool" where
  "tc_may_call s t c \<longleftrightarrow> tc_act s t = None \<and>
     (case c of
        Do_create key f \<Rightarrow> key \<noteq> 0 \<and> key \<noteq> TLS_OUT_OF_INDEXES \<and> tc_key s key = Unused \<and>
          length (tc_used s) < 1088
      | Do_free key \<Rightarrow> tc_key s key = In_use
      | _ \<Rightarrow> True)"

definition tc_begin :: "tid \<Rightarrow> tc_call \<Rightarrow> tc_sys \<Rightarrow> tc_sys" where
  "tc_begin t c s =
     (let s1 = s\<lparr>tc_act := (tc_act s)(t := Some \<lparr>ta_call = c, ta_pc = tc_first_pc c\<rparr>)\<rparr> in
      case c of
        Do_create key f \<Rightarrow> s1\<lparr>tc_used := key # tc_used s, tc_key := (tc_key s)(key := Reserved),
          tc_fun := (tc_fun s)(key := f)\<rparr>
      | Do_free key \<Rightarrow> s1\<lparr>tc_key := (tc_key s)(key := Freeing)\<rparr>
      | _ \<Rightarrow> s1)"

text \<open>The return of a call; after that of \<open>mulle_thread_windows_remove_tss\<close> \<open>TlsFree\<close> gives the
  index back.\<close>

definition tc_end :: "tid \<Rightarrow> tc_call \<Rightarrow> tc_sys \<Rightarrow> tc_sys" where
  "tc_end t c s =
     (let s1 = s\<lparr>tc_act := (tc_act s)(t := None)\<rparr> in
      case c of
        Do_create key f \<Rightarrow> s1\<lparr>tc_key := (tc_key s)(key := In_use)\<rparr>
      | Do_free key \<Rightarrow> s1\<lparr>tc_key := (tc_key s)(key := Unused), tc_used := remove1 key (tc_used s)\<rparr>
      | _ \<Rightarrow> s1)"

definition tc_step ::
  "bool \<Rightarrow> (nat \<Rightarrow> bool) \<Rightarrow> destructor \<Rightarrow> tid \<Rightarrow> tc_call \<Rightarrow> tc_pc \<Rightarrow> tc_shared \<times> tls \<Rightarrow>
     (tc_pc \<times> tc_shared \<times> tls) option"
where
  "tc_step ndebug may_alloc run t c pc sv =
     (case c of
        Do_create key f \<Rightarrow>
          map_option (\<lambda>(pc', s'). (pc', s', snd sv)) (add_tss_step ndebug may_alloc t key f pc (fst sv))
      | Do_free key \<Rightarrow> map_option (\<lambda>(pc', s'). (pc', s', snd sv)) (remove_tss_step ndebug t key pc (fst sv))
      | _ \<Rightarrow> destroy_tss_step ndebug run t pc sv)"

text \<open>The history of the key a call is about.\<close>

definition tc_note :: "tc_call \<Rightarrow> tc_pc \<Rightarrow> (dword \<Rightarrow> key_state) \<Rightarrow> dword \<Rightarrow> key_state" where
  "tc_note c pc ks =
     (case c of
        Do_create key f \<Rightarrow>
          (if pc = T_init I_inc then ks(key := Counted) else if pc = A_add then ks(key := Listed) else ks)
      | Do_free key \<Rightarrow>
          (if pc = X_remove then ks(key := Unlisted)
           else if pc = T_done D_dec then ks(key := Uncounted) else ks)
      | _ \<Rightarrow> ks)"

datatype tc_move = Tc_call tid tc_call | Tc_step tid

fun tc_exec ::
  "bool \<Rightarrow> (nat \<Rightarrow> bool) \<Rightarrow> destructor \<Rightarrow> tc_move \<Rightarrow> tc_sys \<Rightarrow> tc_sys option"
where
  "tc_exec ndebug may_alloc run (Tc_call t c) s =
     (if tc_may_call s t c then Some (tc_begin t c s) else None)"
| "tc_exec ndebug may_alloc run (Tc_step t) s =
     (case tc_act s t of
        None \<Rightarrow> None
      | Some a \<Rightarrow>
          (case ta_pc a of
             Returned rval \<Rightarrow> Some (tc_end t (ta_call a) s)
           | _ \<Rightarrow>
             (case tc_step ndebug may_alloc run t (ta_call a) (ta_pc a) (tc_sh s, tc_tls s t) of
                None \<Rightarrow> None
              | Some (pc', sh', values') \<Rightarrow> Some (s\<lparr>
                  tc_sh := sh', tc_tls := (tc_tls s)(t := values'),
                  tc_act := (tc_act s)(t := Some (a\<lparr>ta_pc := pc'\<rparr>)),
                  tc_key := tc_note (ta_call a) (ta_pc a) (tc_key s)\<rparr>))))"

fun tc_run ::
  "bool \<Rightarrow> (nat \<Rightarrow> bool) \<Rightarrow> destructor \<Rightarrow> tc_move list \<Rightarrow> tc_sys \<Rightarrow> tc_sys option"
where
  "tc_run ndebug may_alloc run [] s = Some s"
| "tc_run ndebug may_alloc run (mv # mvs) s =
     (case tc_exec ndebug may_alloc run mv s of
        None \<Rightarrow> None | Some s' \<Rightarrow> tc_run ndebug may_alloc run mvs s')"

definition tc_start :: tc_sys where
  "tc_start = \<lparr>tc_sh = \<lparr>sh_global = tss_global_start, sh_owner = None\<rparr>,
     tc_tls = (\<lambda>t. \<lparr>tls_values = (\<lambda>k. NULL), tls_calls = []\<rparr>), tc_act = (\<lambda>t. None),
     tc_used = [], tc_key = (\<lambda>k. Unused), tc_fun = (\<lambda>k. NULL)\<rparr>"

subsection \<open>The invariant while one key stays\<close>

definition counted_state :: "key_state \<Rightarrow> bool" where
  "counted_state k \<longleftrightarrow> k \<in> {Counted, Listed, In_use, Freeing, Unlisted}"

definition listed_state :: "key_state \<Rightarrow> bool" where
  "listed_state k \<longleftrightarrow> k \<in> {Listed, In_use, Freeing}"

lemma key_state_simps [simp]:
  "\<not> counted_state Unused" "\<not> counted_state Reserved" "counted_state Counted" "counted_state Listed"
  "counted_state In_use" "counted_state Freeing" "counted_state Unlisted" "\<not> counted_state Uncounted"
  "\<not> listed_state Unused" "\<not> listed_state Reserved" "\<not> listed_state Counted" "listed_state Listed"
  "listed_state In_use" "listed_state Freeing" "\<not> listed_state Unlisted" "\<not> listed_state Uncounted"
  by (simp_all add: counted_state_def listed_state_def)

definition tc_count :: "dword list \<Rightarrow> (dword \<Rightarrow> key_state) \<Rightarrow> nat" where
  "tc_count used ks = length (filter (\<lambda>k. counted_state (ks k)) used)"

definition in_section :: "tc_pc \<Rightarrow> bool" where
  "in_section pc \<longleftrightarrow> (case pc of
     A_add \<Rightarrow> True | A_leave r \<Rightarrow> True | X_remove \<Rightarrow> True | X_leave \<Rightarrow> True | E_run \<Rightarrow> True | E_leave \<Rightarrow> True
   | _ \<Rightarrow> False)"

text \<open>The points of a call that goes well, and the state of its key there.\<close>

inductive tc_at :: "tc_call \<Rightarrow> tc_pc \<Rightarrow> key_state \<Rightarrow> bool" where
  "tc_at (Do_create key f) (T_init I_inc) Reserved"
| "pc \<in> {T_init I_ret, A_enter, A_add} \<Longrightarrow> tc_at (Do_create key f) pc Counted"
| "pc \<in> {A_leave 0, A_check 0, Returned 0} \<Longrightarrow> tc_at (Do_create key f) pc Listed"
| "pc \<in> {X_assert, X_enter, X_remove} \<Longrightarrow> tc_at (Do_free key) pc Freeing"
| "pc \<in> {X_leave, T_done D_dec} \<Longrightarrow> tc_at (Do_free key) pc Unlisted"
| "pc \<in> {T_done D_ret, Returned 0} \<Longrightarrow> tc_at (Do_free key) pc Uncounted"
| "pc \<in> {E_check, E_assert, E_enter, E_run, E_leave, Returned 0} \<Longrightarrow> tc_at Do_return pc k"
| "pc \<in> {E_check, E_assert, E_enter, E_run, E_leave, Returned 0} \<Longrightarrow> tc_at Do_exit pc k"

inductive_simps tc_at_simps:
  "tc_at (Do_create key f) pc k" "tc_at (Do_free key) pc k" "tc_at Do_return pc k" "tc_at Do_exit pc k"

definition call_key :: "tc_call \<Rightarrow> dword option" where
  "call_key c = (case c of Do_create key f \<Rightarrow> Some key | Do_free key \<Rightarrow> Some key | _ \<Rightarrow> None)"

lemma call_key_simps [simp]:
  "call_key (Do_create key f) = Some key" "call_key (Do_free key) = Some key"
  "call_key Do_return = None" "call_key Do_exit = None"
  by (simp_all add: call_key_def)

definition tc_act_ok :: "tc_sys \<Rightarrow> tc_act \<Rightarrow> bool" where
  "tc_act_ok s a \<longleftrightarrow>
     (case call_key (ta_call a) of
        None \<Rightarrow> tc_at (ta_call a) (ta_pc a) Unused
      | Some key \<Rightarrow> key \<noteq> 0 \<and> tc_at (ta_call a) (ta_pc a) (tc_key s key) \<and>
          (case ta_call a of Do_create key f \<Rightarrow> tc_fun s key = f | _ \<Rightarrow> True))"

definition tc_keys_inv :: "dword \<Rightarrow> tc_sys \<Rightarrow> bool" where
  "tc_keys_inv k0 s \<longleftrightarrow> distinct (tc_used s) \<and> length (tc_used s) \<le> 1088 \<and>
     (\<forall>k. k \<in> set (tc_used s) \<longleftrightarrow> tc_key s k \<noteq> Unused) \<and> tc_key s k0 = In_use \<and> tc_key s 0 = Unused"

text \<open>What is shared: the section exists, the counter is one more than the number of keys
  counted, and the table stands for the destructors of the keys listed.\<close>

definition table_agrees ::
  "(dword \<Rightarrow> key_state) \<Rightarrow> (dword \<Rightarrow> ptr) \<Rightarrow> destructor_table option \<Rightarrow> bool"
where
  "table_agrees ks fn p \<longleftrightarrow> table_opt_ok p \<and>
     (\<forall>k. destructors p k = (if listed_state (ks k) \<and> fn k \<noteq> NULL then Some (fn k) else None))"

definition tc_shared_ok ::
  "dword list \<Rightarrow> (dword \<Rightarrow> key_state) \<Rightarrow> (dword \<Rightarrow> ptr) \<Rightarrow> tc_shared \<Rightarrow> bool"
where
  "tc_shared_ok used ks fn sh \<longleftrightarrow> lock_live (sh_global sh) \<and>
     inited (sh_global sh) = word_of_nat (tc_count used ks + 1) \<and>
     table_agrees ks fn (g_table (sh_global sh))"

definition tc_acts_inv :: "tc_sys \<Rightarrow> bool" where
  "tc_acts_inv s \<longleftrightarrow> (\<forall>t a. tc_act s t = Some a \<longrightarrow> tc_act_ok s a) \<and>
     (\<forall>t u a b. tc_act s t = Some a \<longrightarrow> tc_act s u = Some b \<longrightarrow> call_key (ta_call a) \<noteq> None \<longrightarrow>
        call_key (ta_call a) = call_key (ta_call b) \<longrightarrow> t = u)"

definition tc_lock_inv :: "tc_sys \<Rightarrow> bool" where
  "tc_lock_inv s \<longleftrightarrow>
     (\<forall>t. sh_owner (tc_sh s) = Some t \<longleftrightarrow> (\<exists>a. tc_act s t = Some a \<and> in_section (ta_pc a)))"

definition tc_inv :: "dword \<Rightarrow> tc_sys \<Rightarrow> bool" where
  "tc_inv k0 s \<longleftrightarrow> tc_keys_inv k0 s \<and> tc_acts_inv s \<and> tc_lock_inv s \<and>
     tc_shared_ok (tc_used s) (tc_key s) (tc_fun s) (tc_sh s)"

lemma tc_count_used:
  assumes "distinct used" and "k \<in> set used" and "\<forall>x. x \<noteq> k \<longrightarrow> ks' x = ks x"
  shows "tc_count used ks' + (if counted_state (ks k) then 1 else 0) =
    tc_count used ks + (if counted_state (ks' k) then 1 else 0)"
  using assms(1,2)
proof (induction used)
  case (Cons x used)
  show ?case
  proof (cases "x = k")
    case True
    with Cons.prems have "filter (\<lambda>k. counted_state (ks' k)) used = filter (\<lambda>k. counted_state (ks k)) used"
      using assms(3) by (intro filter_cong) auto
    with True show ?thesis by (simp add: tc_count_def)
  next
    case False
    with Cons assms(3) show ?thesis by (auto simp: tc_count_def)
  qed
qed simp

lemma tc_count_cong: "\<forall>k \<in> set used. counted_state (ks' k) = counted_state (ks k) \<Longrightarrow>
    tc_count used ks' = tc_count used ks"
  unfolding tc_count_def by (metis (mono_tags, lifting) filter_cong)

lemma tc_count_bound: "length used \<le> n \<Longrightarrow> tc_count used ks \<le> n"
  unfolding tc_count_def by (meson le_trans length_filter_le)

lemma tc_count_two:
  assumes "distinct used" and "k \<in> set used" and "k' \<in> set used" and "k \<noteq> k'"
    and "counted_state (ks k)" and "counted_state (ks k')"
  shows "2 \<le> tc_count used ks"
proof -
  have "card {k, k'} \<le> card (set (filter (\<lambda>k. counted_state (ks k)) used))"
    using assms by (intro card_mono) auto
  also have "\<dots> = tc_count used ks"
    unfolding tc_count_def by (rule distinct_card) (rule distinct_filter [OF assms(1)])
  finally show ?thesis using assms(4) by simp
qed

lemma tc_count_one:
  assumes "k \<in> set used" and "counted_state (ks k)"
  shows "1 \<le> tc_count used ks"
proof -
  have "k \<in> set (filter (\<lambda>k. counted_state (ks k)) used)" using assms by simp
  then have "filter (\<lambda>k. counted_state (ks k)) used \<noteq> []" by (metis empty_iff empty_set)
  then show ?thesis unfolding tc_count_def by (metis One_nat_def Suc_leI length_greater_0_conv)
qed

text \<open>The two functions over the counter, while there is a key besides the one counted or
  uncounted: they are single steps.\<close>

lemma init_counts_up:
  assumes "inited g = word_of_nat (n + 1)" and "1 \<le> n" and "n \<le> 1088"
  shows "mulle_thread_tss_init I_inc g = (I_ret, g\<lparr>inited := word_of_nat (n + 2)\<rparr>)"
proof -
  have v: "inited g + 1 = word_of_nat (n + 2)" using assms(1) by simp
  have "word_of_nat (n + 2) \<noteq> (1 :: dword)" "word_of_nat (n + 2) \<noteq> (2 :: dword)"
    using small_word [of "n + 2" 1] small_word [of "n + 2" 2] assms(2,3) by auto
  then show ?thesis by (simp only: mulle_thread_tss_init_def tg_pc.case Let_def v if_False)
qed

lemma done_counts_down:
  assumes "inited g = word_of_nat (n + 1)" and "2 \<le> n" and "n \<le> 1088"
  shows "mulle_thread_tss_done nd D_dec g = (D_ret, g\<lparr>inited := word_of_nat n\<rparr>)"
proof -
  have v: "inited g - 1 = word_of_nat n" using assms(1) by simp
  have "word_of_nat n \<noteq> (0 :: dword)" "word_of_nat n \<noteq> (1 :: dword)"
    using small_word [of n 0] small_word [of n 1] assms(2,3) by auto
  then show ?thesis by (simp only: mulle_thread_tss_done_def tg_pc.case Let_def v if_False)
qed

lemma counter_positive:
  assumes "inited g = word_of_nat (n + 1)" and "1 \<le> n" and "n \<le> 1088"
  shows "inited g \<noteq> 0 \<and> 2 \<le> sint (inited g)"
proof -
  have "inited g = word_of_int (int n + 1)" using assms(1) by simp
  moreover have "sint (word_of_int (int n + 1) :: dword) = int n + 1"
    unfolding sint_sbintrunc' using assms(3) by (simp add: signed_take_bit_int_eq_self)
  ultimately have s: "sint (inited g) = int n + 1" by (simp only:)
  then have "inited g \<noteq> 0" by auto
  with s assms(2) show ?thesis by simp
qed

lemma map_of_remove: "map_of (filter (\<lambda>(k, f). k \<noteq> key) xs) = (map_of xs)(key := None)"
  by (induction xs) (auto simp: fun_eq_iff)

lemma table_agrees_add:
  assumes "table_agrees ks fn p" and "key \<noteq> 0" and "\<not> listed_state (ks key)" and "fn key = f"
    and "destructor_table_add_destructor_for_key nd may_alloc p f key = Inr (0, p')"
  shows "table_agrees (ks(key := Listed)) fn p'"
proof (cases "f = NULL")
  case True
  with assms show ?thesis
    by (auto simp: table_agrees_def destructor_table_add_destructor_for_key_def c_assert_eq_Inr)
next
  case False
  have "destructors p key = None" using assms(1,3) by (simp add: table_agrees_def)
  from add_registers [OF _ assms(2) False this assms(5)] assms(1)
  have "table_opt_ok p'" "registered p' = registered p @ [(key, f)]"
    by (simp_all add: table_agrees_def)
  moreover from \<open>destructors p key = None\<close>
  have "map_of (registered p @ [(key, f)]) = (map_of (registered p))(key \<mapsto> f)"
    by (auto simp: destructors_def fun_eq_iff map_add_def split: option.splits)
  ultimately show ?thesis
    using assms(1,4) False by (auto simp: table_agrees_def destructors_def)
qed

lemma table_agrees_remove:
  assumes "table_agrees ks fn p" and "key \<noteq> 0"
  shows "table_agrees (ks(key := Unlisted)) fn (destructor_table_remove_destructor_for_key p key)"
  using assms remove_unregisters [of p key]
  by (auto simp: table_agrees_def destructors_def map_of_remove)

lemma table_agrees_cong:
  "table_agrees ks fn p \<Longrightarrow> \<forall>k. listed_state (ks' k) = listed_state (ks k) \<Longrightarrow> table_agrees ks' fn p"
  by (simp add: table_agrees_def)

text \<open>What a step of thread \<open>t\<close> does to the section's owner.\<close>

definition owner_step :: "tid \<Rightarrow> tc_pc \<Rightarrow> tc_shared \<Rightarrow> tc_shared \<Rightarrow> bool" where
  "owner_step t pc' sh sh' \<longleftrightarrow> (sh_owner sh' = Some t \<longleftrightarrow> in_section pc') \<and>
     (\<forall>u. u \<noteq> t \<longrightarrow> sh_owner sh' = Some u \<longleftrightarrow> sh_owner sh = Some u)"

lemma in_section_simps [simp]:
  "\<not> in_section (T_init i)" "\<not> in_section A_enter" "in_section A_add" "in_section (A_leave r)"
  "\<not> in_section (A_check r)" "\<not> in_section X_assert" "\<not> in_section X_enter" "in_section X_remove"
  "in_section X_leave" "\<not> in_section (T_done i)" "\<not> in_section E_check" "\<not> in_section E_assert"
  "\<not> in_section E_enter" "in_section E_run" "in_section E_leave" "\<not> in_section (Returned r)"
  "\<not> in_section (Faulted e)"
  by (simp_all add: in_section_def)

lemma add_step_effect:
  assumes at: "tc_at (Do_create key f) pc (ks key)" and key: "key \<noteq> 0" "fn key = f"
    and used: "distinct used" "key \<in> set used" "length used \<le> 1088" and n: "1 \<le> tc_count used ks"
    and sh: "tc_shared_ok used ks fn sh" and own: "sh_owner sh = Some t \<longleftrightarrow> in_section pc"
    and alloc: "\<And>n. may_alloc n"
    and step: "add_tss_step nd may_alloc t key f pc sh = Some (pc', sh')"
  shows "tc_at (Do_create key f) pc' (tc_note (Do_create key f) pc ks key) \<and>
    tc_shared_ok used (tc_note (Do_create key f) pc ks) fn sh' \<and> owner_step t pc' sh sh'"
proof -
  note c = tc_shared_ok_def add_tss_step_def tc_note_def owner_step_def tc_at_simps tc_enter_def
    tc_assert_def
  from at consider "pc = T_init I_inc" "ks key = Reserved" | "pc = T_init I_ret" "ks key = Counted"
    | "pc = A_enter" "ks key = Counted" | "pc = A_add" "ks key = Counted"
    | "pc = A_leave 0" "ks key = Listed" | "pc = A_check 0" "ks key = Listed"
    | "pc = Returned 0" by (auto simp: tc_at_simps)
  then show ?thesis
  proof cases
    case 1
    have "tc_count used (ks(key := Counted)) = tc_count used ks + 1"
      using tc_count_used [OF used(1,2), of "ks(key := Counted)" ks] 1(2) by simp
    moreover have "table_agrees (ks(key := Counted)) fn (g_table (sh_global sh))"
      by (rule table_agrees_cong [of ks]) (use sh 1(2) in \<open>auto simp: tc_shared_ok_def\<close>)
    moreover have "inited (sh_global sh) = word_of_nat (tc_count used ks + 1)"
      using sh by (simp add: tc_shared_ok_def)
    note init_counts_up [OF this n tc_count_bound [OF used(3)]]
    ultimately show ?thesis using step sh own 1 by (auto simp: c add.commute)
  next
    case 4
    obtain p' where p': "destructor_table_add_destructor_for_key nd may_alloc (g_table (sh_global sh)) f key =
        Inr (0, p')"
      using add_result [of may_alloc key nd "g_table (sh_global sh)" f] alloc key(1) by blast
    have "table_agrees (ks(key := Listed)) fn p'"
      by (rule table_agrees_add [OF _ key(1) _ _ p']) (use sh 4(2) key(2) in \<open>auto simp: tc_shared_ok_def\<close>)
    moreover have "tc_count used (ks(key := Listed)) = tc_count used ks"
      using 4(2) by (intro tc_count_cong) auto
    ultimately show ?thesis using step sh own 4 p' by (auto simp: c)
  qed (use step sh own in \<open>auto simp: c split: if_splits\<close>)
qed

lemma remove_step_effect:
  assumes at: "tc_at (Do_free key) pc (ks key)" and key: "key \<noteq> 0"
    and used: "distinct used" "key \<in> set used" "length used \<le> 1088"
    and n: "1 \<le> tc_count used ks" "counted_state (ks key) \<Longrightarrow> 2 \<le> tc_count used ks"
    and sh: "tc_shared_ok used ks fn sh" and own: "sh_owner sh = Some t \<longleftrightarrow> in_section pc"
    and step: "remove_tss_step nd t key pc sh = Some (pc', sh')"
  shows "tc_at (Do_free key) pc' (tc_note (Do_free key) pc ks key) \<and>
    tc_shared_ok used (tc_note (Do_free key) pc ks) fn sh' \<and> owner_step t pc' sh sh'"
proof -
  note c = tc_shared_ok_def remove_tss_step_def tc_note_def owner_step_def tc_at_simps tc_enter_def
    tc_assert_def
  have i: "inited (sh_global sh) = word_of_nat (tc_count used ks + 1)"
    using sh by (simp add: tc_shared_ok_def)
  note bound = tc_count_bound [OF used(3), of ks]
  have nz: "inited (sh_global sh) \<noteq> 0" using counter_positive [OF i n(1) bound] by simp
  from at consider "pc = X_assert" "ks key = Freeing" | "pc = X_enter" "ks key = Freeing"
    | "pc = X_remove" "ks key = Freeing" | "pc = X_leave" "ks key = Unlisted"
    | "pc = T_done D_dec" "ks key = Unlisted" | "pc = T_done D_ret" "ks key = Uncounted"
    | "pc = Returned 0" by (auto simp: tc_at_simps)
  then show ?thesis
  proof cases
    case 3
    have "table_agrees (ks(key := Unlisted)) fn
        (destructor_table_remove_destructor_for_key (g_table (sh_global sh)) key)"
      by (rule table_agrees_remove) (use sh key in \<open>auto simp: tc_shared_ok_def\<close>)
    moreover have "tc_count used (ks(key := Unlisted)) = tc_count used ks"
      using 3(2) by (intro tc_count_cong) auto
    ultimately show ?thesis using step sh own 3 by (auto simp: c)
  next
    case 5
    have cnt: "tc_count used ks = tc_count used (ks(key := Uncounted)) + 1"
      using tc_count_used [OF used(1,2), of "ks(key := Uncounted)" ks] 5(2) by simp
    have "table_agrees (ks(key := Uncounted)) fn (g_table (sh_global sh))"
      by (rule table_agrees_cong [of ks]) (use sh 5(2) in \<open>auto simp: tc_shared_ok_def\<close>)
    with done_counts_down [OF i _ bound, of nd] n(2) show ?thesis
      using step sh own 5 cnt by (auto simp: c)
  qed (use step sh own nz in \<open>auto simp: c split: if_splits\<close>)
qed

lemma destroy_step_effect:
  assumes at: "tc_at c pc Unused" and c: "c = Do_return \<or> c = Do_exit"
    and used: "length used \<le> 1088" and n: "1 \<le> tc_count used ks"
    and sh: "tc_shared_ok used ks fn sh" and own: "sh_owner sh = Some t \<longleftrightarrow> in_section pc"
    and step: "destroy_tss_step nd run t pc (sh, v) = Some (pc', sh', v')"
  shows "tc_at c pc' Unused \<and> tc_shared_ok used ks fn sh' \<and> owner_step t pc' sh sh'"
proof -
  have i: "inited (sh_global sh) = word_of_nat (tc_count used ks + 1)"
    using sh by (simp add: tc_shared_ok_def)
  note pos = counter_positive [OF i n tc_count_bound [OF used]]
  show ?thesis
    using c at step sh own pos
    by (auto simp: tc_at_simps destroy_tss_step_def tc_shared_ok_def owner_step_def tc_enter_def
      tc_assert_def split: if_splits)
qed

end
