(* ===== verification/Win_Tss_Safety.thy ===== *)
theory Win_Tss_Safety
  imports Win_Tss_Concurrent
begin

text \<open>
  The guarantees of thread specific storage on Windows for many threads at once, as long as
  one key stays: the invariant is kept by every move.
\<close>

subsection \<open>The invariant is kept\<close>

lemma tc_acts_inv_update:
  assumes "tc_acts_inv s" and "tc_act_ok s' a'"
    and "tc_act s' = (tc_act s)(t := Some a')"
    and "\<forall>u b. u \<noteq> t \<longrightarrow> tc_act s u = Some b \<longrightarrow> tc_act_ok s' b \<and>
      (call_key (ta_call a') \<noteq> None \<longrightarrow> call_key (ta_call a') \<noteq> call_key (ta_call b))"
  shows "tc_acts_inv s'"
  using assms unfolding tc_acts_inv_def by (auto split: if_splits)

lemma tc_act_ok_cong:
  assumes "tc_act_ok s b"
    and "\<forall>k. call_key (ta_call b) = Some k \<longrightarrow> tc_key s' k = tc_key s k \<and> tc_fun s' k = tc_fun s k"
  shows "tc_act_ok s' b"
  using assms by (auto simp: tc_act_ok_def split: option.splits tc_call.splits)

lemma tc_act_key_state:
  "tc_act_ok s b \<Longrightarrow> call_key (ta_call b) = Some k \<Longrightarrow> tc_key s k \<notin> {Unused, In_use} \<and> k \<noteq> 0"
  by (cases "ta_call b") (auto simp: tc_act_ok_def tc_at_simps)

lemma tc_keys_facts:
  assumes "tc_keys_inv k0 s"
  shows "distinct (tc_used s)" and "length (tc_used s) \<le> 1088" and "tc_key s k0 = In_use"
    and "tc_key s 0 = Unused" and "k \<in> set (tc_used s) \<longleftrightarrow> tc_key s k \<noteq> Unused"
  using assms by (simp_all add: tc_keys_inv_def)

lemma tc_keys_update:
  assumes inv: "tc_keys_inv k0 s" and key: "tc_key s key \<noteq> Unused" and st: "st \<noteq> Unused"
    and k0: "key = k0 \<Longrightarrow> st = In_use"
    and s': "tc_used s' = tc_used s" "tc_key s' = (tc_key s)(key := st)"
  shows "tc_keys_inv k0 s'"
  unfolding tc_keys_inv_def s'
proof (intro conjI allI)
  show "((tc_key s)(key := st)) k0 = In_use" using k0 tc_keys_facts(3) [OF inv] by auto
  show "((tc_key s)(key := st)) 0 = Unused" using key tc_keys_facts(4) [OF inv] by auto
  show "k \<in> set (tc_used s) \<longleftrightarrow> ((tc_key s)(key := st)) k \<noteq> Unused" for k
    using key st tc_keys_facts(5) [OF inv, of k] by auto
qed (use tc_keys_facts(1,2) [OF inv] in simp_all)

lemma tc_keys_new:
  assumes inv: "tc_keys_inv k0 s" and key: "tc_key s key = Unused" "key \<noteq> 0"
    and len: "length (tc_used s) < 1088" and st: "st \<noteq> Unused"
    and s': "tc_used s' = key # tc_used s" "tc_key s' = (tc_key s)(key := st)"
  shows "tc_keys_inv k0 s'"
  unfolding tc_keys_inv_def s'
proof (intro conjI allI)
  show "((tc_key s)(key := st)) k0 = In_use" using key tc_keys_facts(3) [OF inv] by auto
  show "((tc_key s)(key := st)) 0 = Unused" using key tc_keys_facts(4) [OF inv] by auto
  show "k \<in> set (key # tc_used s) \<longleftrightarrow> ((tc_key s)(key := st)) k \<noteq> Unused" for k
    using st tc_keys_facts(5) [OF inv, of k] by auto
  show "distinct (key # tc_used s)"
    using key(1) tc_keys_facts(1) [OF inv] tc_keys_facts(5) [OF inv, of key] by simp
  show "length (key # tc_used s) \<le> 1088" using len by simp
qed

lemma tc_keys_gone:
  assumes inv: "tc_keys_inv k0 s" and key: "tc_key s key \<notin> {Unused, In_use}"
    and s': "tc_used s' = remove1 key (tc_used s)" "tc_key s' = (tc_key s)(key := Unused)"
  shows "tc_keys_inv k0 s'"
  unfolding tc_keys_inv_def s'
proof (intro conjI allI)
  show "((tc_key s)(key := Unused)) k0 = In_use" using key tc_keys_facts(3) [OF inv] by auto
  show "((tc_key s)(key := Unused)) 0 = Unused" using tc_keys_facts(4) [OF inv] by auto
  show "k \<in> set (remove1 key (tc_used s)) \<longleftrightarrow> ((tc_key s)(key := Unused)) k \<noteq> Unused" for k
    using tc_keys_facts(1) [OF inv] tc_keys_facts(5) [OF inv, of k] by auto
  show "distinct (remove1 key (tc_used s))" using tc_keys_facts(1) [OF inv] by (rule distinct_remove1)
  have "length (remove1 key (tc_used s)) \<le> length (tc_used s)" by (simp add: length_remove1)
  then show "length (remove1 key (tc_used s)) \<le> 1088" using tc_keys_facts(2) [OF inv] by linarith
qed

lemma begin_elsewhere:
  "call_key c \<noteq> Some k \<Longrightarrow> tc_key (tc_begin t c s) k = tc_key s k \<and> tc_fun (tc_begin t c s) k = tc_fun s k"
  by (cases c) (auto simp: tc_begin_def Let_def)

lemma end_elsewhere:
  "call_key c \<noteq> Some k \<Longrightarrow> tc_key (tc_end t c s) k = tc_key s k \<and> tc_fun (tc_end t c s) k = tc_fun s k"
  by (cases c) (auto simp: tc_end_def Let_def)

lemma tc_call_inv:
  assumes inv: "tc_inv k0 s" and may: "tc_may_call s t c" and keep: "c \<noteq> Do_free k0"
  shows "tc_inv k0 (tc_begin t c s)"
proof -
  let ?s = "tc_begin t c s" and ?a = "\<lparr>ta_call = c, ta_pc = tc_first_pc c\<rparr>"
  have keys: "tc_keys_inv k0 s" and acts: "tc_acts_inv s" and lock: "tc_lock_inv s"
    and sh: "tc_shared_ok (tc_used s) (tc_key s) (tc_fun s) (tc_sh s)"
    using inv by (simp_all add: tc_inv_def)
  have idle: "tc_act s t = None" using may by (simp add: tc_may_call_def)
  have act: "tc_act ?s = (tc_act s)(t := Some ?a)"
    by (cases c) (simp_all add: tc_begin_def Let_def)
  have others: "tc_act_ok ?s b \<and> (call_key c \<noteq> None \<longrightarrow> call_key c \<noteq> call_key (ta_call b))"
    if "tc_act s u = Some b" for u b
  proof -
    have ok: "tc_act_ok s b" using acts that by (auto simp: tc_acts_inv_def)
    have ne: "call_key c \<noteq> call_key (ta_call b)" if "call_key c = Some k" for k
      using tc_act_key_state [OF ok, of k] that may by (cases c) (auto simp: tc_may_call_def)
    have "tc_act_ok ?s b"
      using tc_act_ok_cong [OF ok, of ?s] begin_elsewhere [of c _ t s] ne by metis
    with ne show ?thesis by auto
  qed
  have zero: "tc_key s 0 = Unused" using keys by (simp add: tc_keys_inv_def)
  have "tc_act_ok ?s ?a"
    using may zero
    by (cases c) (auto simp: tc_act_ok_def tc_begin_def Let_def tc_may_call_def tc_first_pc_def
      tc_at_simps)
  then have "tc_acts_inv ?s"
    using others by (intro tc_acts_inv_update [OF acts _ act]) auto
  moreover have "tc_lock_inv ?s"
    using lock idle act
    by (cases c) (auto simp: tc_lock_inv_def tc_begin_def Let_def tc_first_pc_def)
  moreover have "tc_keys_inv k0 ?s"
  proof (cases c)
    case (Do_create key f)
    then show ?thesis
      using may by (intro tc_keys_new [OF keys, of key Reserved]) (auto simp: tc_begin_def Let_def tc_may_call_def)
  next
    case (Do_free key)
    then show ?thesis
      using may keep
      by (intro tc_keys_update [OF keys, of key Freeing]) (auto simp: tc_begin_def Let_def tc_may_call_def)
  qed (use keys in \<open>simp_all add: tc_keys_inv_def tc_begin_def Let_def\<close>)
  moreover have "tc_shared_ok (tc_used ?s) (tc_key ?s) (tc_fun ?s) (tc_sh ?s)"
  proof (cases c)
    case (Do_create key f)
    have new: "tc_key s key = Unused" "key \<notin> set (tc_used s)"
      using may keys Do_create by (auto simp: tc_may_call_def tc_keys_inv_def)
    then have "tc_count (key # tc_used s) ((tc_key s)(key := Reserved)) = tc_count (tc_used s) (tc_key s)"
      using tc_count_cong [of "tc_used s" "(tc_key s)(key := Reserved)" "tc_key s"]
      by (auto simp: tc_count_def)
    then show ?thesis
      using sh new by (auto simp: Do_create tc_begin_def Let_def tc_shared_ok_def table_agrees_def)
  next
    case (Do_free key)
    have "tc_key s key = In_use" using may Do_free by (simp add: tc_may_call_def)
    then have "tc_count (tc_used s) ((tc_key s)(key := Freeing)) = tc_count (tc_used s) (tc_key s)"
      by (intro tc_count_cong) auto
    then show ?thesis
      using sh \<open>tc_key s key = In_use\<close>
      by (auto simp: Do_free tc_begin_def Let_def tc_shared_ok_def table_agrees_def)
  qed (use sh in \<open>simp_all add: tc_begin_def Let_def\<close>)
  ultimately show ?thesis by (simp add: tc_inv_def)
qed

lemma tc_end_inv:
  assumes inv: "tc_inv k0 s" and a: "tc_act s t = Some a" "ta_pc a = Returned r"
  shows "tc_inv k0 (tc_end t (ta_call a) s)"
proof -
  let ?c = "ta_call a" let ?s = "tc_end t ?c s"
  have keys: "tc_keys_inv k0 s" and acts: "tc_acts_inv s" and lock: "tc_lock_inv s"
    and sh: "tc_shared_ok (tc_used s) (tc_key s) (tc_fun s) (tc_sh s)"
    using inv by (simp_all add: tc_inv_def)
  have ok: "tc_act_ok s a" using acts a(1) by (auto simp: tc_acts_inv_def)
  have act: "tc_act ?s = (tc_act s)(t := None)"
    by (cases ?c) (simp_all add: tc_end_def Let_def)
  have same: "tc_sh ?s = tc_sh s" "tc_fun ?s = tc_fun s"
    by (cases ?c; simp add: tc_end_def Let_def)+
  have others: "tc_act_ok ?s b" if "tc_act s u = Some b" "u \<noteq> t" for u b
  proof -
    have "tc_act_ok s b" using acts that by (auto simp: tc_acts_inv_def)
    moreover have "call_key ?c \<noteq> Some k" if "call_key (ta_call b) = Some k" for k
      using acts a(1) \<open>tc_act s u = Some b\<close> \<open>u \<noteq> t\<close> that by (fastforce simp: tc_acts_inv_def)
    ultimately show ?thesis
      using tc_act_ok_cong [of s b ?s] end_elsewhere [of ?c _ t s] by metis
  qed
  have "tc_acts_inv ?s"
    using acts others unfolding tc_acts_inv_def act by (auto split: if_splits)
  moreover have "tc_lock_inv ?s"
    using lock a by (auto simp: tc_lock_inv_def same act)
  moreover have "tc_keys_inv k0 ?s \<and> tc_shared_ok (tc_used ?s) (tc_key ?s) (tc_fun ?s) (tc_sh ?s)"
  proof (cases ?c)
    case (Do_create key f)
    then have k: "tc_key s key = Listed" "key \<noteq> 0"
      using ok a(2) by (auto simp: tc_act_ok_def tc_at_simps)
    have "tc_count (tc_used s) ((tc_key s)(key := In_use)) = tc_count (tc_used s) (tc_key s)"
      using k by (intro tc_count_cong) auto
    moreover have "tc_keys_inv k0 ?s"
      using k by (intro tc_keys_update [OF keys, of key In_use]) (simp_all add: Do_create tc_end_def Let_def)
    ultimately show ?thesis
      using sh k by (auto simp: Do_create tc_end_def Let_def tc_shared_ok_def table_agrees_def)
  next
    case (Do_free key)
    then have k: "tc_key s key = Uncounted" "key \<noteq> 0"
      using ok a(2) by (auto simp: tc_act_ok_def tc_at_simps)
    have d: "distinct (tc_used s)" using keys by (simp add: tc_keys_inv_def)
    have "tc_count (remove1 key (tc_used s)) ((tc_key s)(key := Unused)) =
        tc_count (remove1 key (tc_used s)) (tc_key s)"
      using d k by (intro tc_count_cong) auto
    also have "\<dots> = tc_count (tc_used s) (tc_key s)"
      using k by (simp add: tc_count_def filter_remove1)
    finally have "tc_count (remove1 key (tc_used s)) ((tc_key s)(key := Unused)) =
        tc_count (tc_used s) (tc_key s)" .
    moreover have "tc_keys_inv k0 ?s"
      using k by (intro tc_keys_gone [OF keys, of key]) (simp_all add: Do_free tc_end_def Let_def)
    ultimately show ?thesis
      using sh k by (auto simp: Do_free tc_end_def Let_def tc_shared_ok_def table_agrees_def)
  qed (use sh keys in \<open>simp_all add: tc_end_def Let_def tc_keys_inv_def\<close>)
  ultimately show ?thesis by (simp add: tc_inv_def)
qed

definition tc_after :: "tid \<Rightarrow> tc_act \<Rightarrow> tc_pc \<Rightarrow> tc_shared \<Rightarrow> tls \<Rightarrow> tc_sys \<Rightarrow> tc_sys" where
  "tc_after t a pc' sh' values' s = s\<lparr>
     tc_sh := sh', tc_tls := (tc_tls s)(t := values'),
     tc_act := (tc_act s)(t := Some (a\<lparr>ta_pc := pc'\<rparr>)),
     tc_key := tc_note (ta_call a) (ta_pc a) (tc_key s)\<rparr>"

lemma tc_after_simps [simp]:
  "tc_sh (tc_after t a pc' sh' v s) = sh'" "tc_used (tc_after t a pc' sh' v s) = tc_used s"
  "tc_fun (tc_after t a pc' sh' v s) = tc_fun s"
  "tc_act (tc_after t a pc' sh' v s) = (tc_act s)(t := Some (a\<lparr>ta_pc := pc'\<rparr>))"
  "tc_key (tc_after t a pc' sh' v s) = tc_note (ta_call a) (ta_pc a) (tc_key s)"
  by (simp_all add: tc_after_def)

lemma note_elsewhere: "call_key c \<noteq> Some k \<Longrightarrow> tc_note c pc ks k = ks k"
  by (cases c) (auto simp: tc_note_def)

lemma note_key: "call_key c = Some key \<Longrightarrow> tc_note c pc ks = ks(key := tc_note c pc ks key)"
  by (cases c) (auto simp: tc_note_def fun_eq_iff)

lemma note_nothing: "call_key c = None \<Longrightarrow> tc_note c pc ks = ks"
  by (cases c) (auto simp: tc_note_def)

lemma note_unused: "ks key \<noteq> Unused \<Longrightarrow> tc_note c pc ks key \<noteq> Unused"
  by (cases c) (auto simp: tc_note_def)

lemma tc_keys_note:
  assumes "tc_keys_inv k0 s" and "tc_act_ok s a"
  shows "tc_keys_inv k0 (tc_after t a pc' sh' v s)"
proof (cases "call_key (ta_call a)")
  case None
  then show ?thesis
    using assms(1) by (simp add: tc_keys_inv_def note_nothing)
next
  case (Some key)
  have key: "tc_key s key \<notin> {Unused, In_use}" using tc_act_key_state [OF assms(2) Some] by simp
  have "key \<noteq> k0" using key tc_keys_facts(3) [OF assms(1)] by auto
  with key show ?thesis
    by (intro tc_keys_update [OF assms(1), of key "tc_note (ta_call a) (ta_pc a) (tc_key s) key"])
      (simp_all add: note_unused note_key [OF Some, symmetric])
qed

lemma tc_assemble:
  assumes inv: "tc_inv k0 s" and a: "tc_act s t = Some a"
    and at: "tc_act_ok (tc_after t a pc' sh' v s) (a\<lparr>ta_pc := pc'\<rparr>)"
    and sh: "tc_shared_ok (tc_used s) (tc_note (ta_call a) (ta_pc a) (tc_key s)) (tc_fun s) sh'"
    and own: "owner_step t pc' (tc_sh s) sh'"
  shows "tc_inv k0 (tc_after t a pc' sh' v s)"
proof -
  let ?s = "tc_after t a pc' sh' v s"
  have keys: "tc_keys_inv k0 s" and acts: "tc_acts_inv s" and lock: "tc_lock_inv s"
    using inv by (simp_all add: tc_inv_def)
  have ok: "tc_act_ok s a" using acts a by (auto simp: tc_acts_inv_def)
  have others: "tc_act_ok ?s b \<and> (call_key (ta_call a) \<noteq> None \<longrightarrow> call_key (ta_call a) \<noteq> call_key (ta_call b))"
    if "tc_act s u = Some b" "u \<noteq> t" for u b
  proof -
    have "tc_act_ok s b" using acts that by (auto simp: tc_acts_inv_def)
    moreover have ne: "call_key (ta_call a) \<noteq> None \<longrightarrow> call_key (ta_call a) \<noteq> call_key (ta_call b)"
      using acts a that unfolding tc_acts_inv_def by metis
    ultimately show ?thesis
      using tc_act_ok_cong [of s b ?s] note_elsewhere [of "ta_call a" _ "ta_pc a" "tc_key s"]
      by (metis option.distinct(1) tc_after_simps(3,5))
  qed
  have "tc_acts_inv ?s"
    using others by (intro tc_acts_inv_update [OF acts at, of t]) auto
  moreover have "tc_lock_inv ?s"
    using lock own unfolding tc_lock_inv_def owner_step_def by auto
  ultimately show ?thesis
    using tc_keys_note [OF keys ok] sh by (simp add: tc_inv_def)
qed

lemma tc_step_inv:
  assumes inv: "tc_inv k0 s" and a: "tc_act s t = Some a"
    and alloc: "\<And>n. may_alloc n"
    and step: "tc_step nd may_alloc run t (ta_call a) (ta_pc a) (tc_sh s, v) = Some (pc', sh', v')"
  shows "tc_inv k0 (tc_after t a pc' sh' v' s)"
proof -
  have keys: "tc_keys_inv k0 s" and acts: "tc_acts_inv s" and lock: "tc_lock_inv s"
    and sh: "tc_shared_ok (tc_used s) (tc_key s) (tc_fun s) (tc_sh s)"
    using inv by (simp_all add: tc_inv_def)
  have ok: "tc_act_ok s a" using acts a by (auto simp: tc_acts_inv_def)
  have own: "sh_owner (tc_sh s) = Some t \<longleftrightarrow> in_section (ta_pc a)"
    using lock a by (simp add: tc_lock_inv_def)
  have k0: "k0 \<in> set (tc_used s)" "counted_state (tc_key s k0)"
    using tc_keys_facts(3,5) [OF keys] by simp_all
  have one: "1 \<le> tc_count (tc_used s) (tc_key s)"
    using tc_count_one [of k0 "tc_used s" "tc_key s"] k0 by simp
  note used = tc_keys_facts(1,2) [OF keys]
  have eff: "tc_act_ok (tc_after t a pc' sh' v' s) (a\<lparr>ta_pc := pc'\<rparr>) \<and>
      tc_shared_ok (tc_used s) (tc_note (ta_call a) (ta_pc a) (tc_key s)) (tc_fun s) sh' \<and>
      owner_step t pc' (tc_sh s) sh'"
  proof (cases "ta_call a")
    case (Do_create key f)
    have k: "key \<noteq> 0" "tc_fun s key = f" "tc_at (Do_create key f) (ta_pc a) (tc_key s key)"
      using ok Do_create by (simp_all add: tc_act_ok_def)
    have u: "key \<in> set (tc_used s)"
      using tc_keys_facts(5) [OF keys] tc_act_key_state [OF ok, of key] Do_create by simp
    from step Do_create have "add_tss_step nd may_alloc t key f (ta_pc a) (tc_sh s) = Some (pc', sh')"
      by (auto simp: tc_step_def)
    from add_step_effect [OF k(3,1,2) used(1) u used(2) one sh own alloc this] Do_create k
    show ?thesis by (simp add: tc_act_ok_def)
  next
    case (Do_free key)
    have k: "key \<noteq> 0" "tc_at (Do_free key) (ta_pc a) (tc_key s key)"
      using ok Do_free by (simp_all add: tc_act_ok_def)
    have ks: "tc_key s key \<notin> {Unused, In_use}" using tc_act_key_state [OF ok, of key] Do_free by simp
    then have u: "key \<in> set (tc_used s)" "key \<noteq> k0"
      using tc_keys_facts(3,5) [OF keys] by auto
    have two: "counted_state (tc_key s key) \<Longrightarrow> 2 \<le> tc_count (tc_used s) (tc_key s)"
      using tc_count_two [of "tc_used s" key k0 "tc_key s"] used(1) u k0 by simp
    from step Do_free have "remove_tss_step nd t key (ta_pc a) (tc_sh s) = Some (pc', sh')"
      by (auto simp: tc_step_def)
    from remove_step_effect [OF k(2,1) used(1) u(1) used(2) one two sh own this] Do_free k
    show ?thesis by (simp add: tc_act_ok_def)
  next
    case Do_return
    then have "tc_at Do_return (ta_pc a) Unused" using ok by (simp add: tc_act_ok_def)
    from destroy_step_effect [OF this _ used(2) one sh own, of nd run v pc' sh' v'] step Do_return
    show ?thesis by (simp add: tc_act_ok_def tc_step_def note_nothing)
  next
    case Do_exit
    then have "tc_at Do_exit (ta_pc a) Unused" using ok by (simp add: tc_act_ok_def)
    from destroy_step_effect [OF this _ used(2) one sh own, of nd run v pc' sh' v'] step Do_exit
    show ?thesis by (simp add: tc_act_ok_def tc_step_def note_nothing)
  qed
  then show ?thesis by (intro tc_assemble [OF inv a]) auto
qed

lemma tc_exec_step:
  assumes "tc_exec nd may_alloc run (Tc_step t) s = Some s'"
  obtains (ret) a r where "tc_act s t = Some a" and "ta_pc a = Returned r" and "s' = tc_end t (ta_call a) s"
    | (step) a pc' sh' v' where "tc_act s t = Some a" and "\<forall>r. ta_pc a \<noteq> Returned r" and
        "tc_step nd may_alloc run t (ta_call a) (ta_pc a) (tc_sh s, tc_tls s t) = Some (pc', sh', v')"
        and "s' = tc_after t a pc' sh' v' s"
  using assms by (auto simp: tc_after_def split: option.splits tc_pc.splits)

text \<open>Every thread but the one that would free key \<open>k0\<close>.\<close>

definition tc_keeps :: "dword \<Rightarrow> tc_move \<Rightarrow> bool" where
  "tc_keeps k0 mv \<longleftrightarrow> (\<forall>t. mv \<noteq> Tc_call t (Do_free k0))"

lemma tc_exec_inv:
  assumes inv: "tc_inv k0 s" and keep: "tc_keeps k0 mv" and alloc: "\<And>n. may_alloc n"
    and exec: "tc_exec nd may_alloc run mv s = Some s'"
  shows "tc_inv k0 s'"
proof (cases mv)
  case (Tc_call t c)
  then show ?thesis
    using exec keep tc_call_inv [OF inv, of t c] by (auto simp: tc_keeps_def split: if_splits)
next
  case (Tc_step t)
  with exec have "tc_exec nd may_alloc run (Tc_step t) s = Some s'" by simp
  then show ?thesis
  proof (cases rule: tc_exec_step)
    case (ret a r)
    then show ?thesis using tc_end_inv [OF inv] by simp
  next
    case (step a pc' sh' v')
    then show ?thesis using tc_step_inv [OF inv step(1) _ step(3)] alloc by simp
  qed
qed

lemma tc_run_inv:
  assumes "tc_inv k0 s" and "list_all (tc_keeps k0) mvs" and "\<And>n. may_alloc n"
    and "tc_run nd may_alloc run mvs s = Some s'"
  shows "tc_inv k0 s'"
  using assms(1,2,4)
proof (induction mvs arbitrary: s)
  case (Cons mv mvs)
  then obtain s1 where s1: "tc_exec nd may_alloc run mv s = Some s1"
    "tc_run nd may_alloc run mvs s1 = Some s'"
    by (auto split: option.splits)
  have "tc_inv k0 s1"
    by (rule tc_exec_inv [of k0 s mv may_alloc nd run]) (use Cons.prems assms(3) s1 in simp_all)
  with Cons.IH [OF this] Cons.prems(2) s1(2) show ?case by simp
qed simp

subsection \<open>The first key\<close>

text \<open>One thread creates a key before there are others.\<close>

definition tc_first_key :: "tid \<Rightarrow> dword \<Rightarrow> ptr \<Rightarrow> tc_move list" where
  "tc_first_key t k0 f = Tc_call t (Do_create k0 f) # replicate 9 (Tc_step t)"

lemma tc_first_key_inv:
  assumes key: "k0 \<noteq> 0" "k0 \<noteq> TLS_OUT_OF_INDEXES" and alloc: "\<And>n. may_alloc n"
  shows "\<exists>s. tc_run nd may_alloc run (tc_first_key t k0 f) tc_start = Some s \<and> tc_inv k0 s \<and>
    tc_act s = (\<lambda>t. None)"
proof -
  obtain p where p: "destructor_table_add_destructor_for_key nd may_alloc None f k0 = Inr (0, p)"
    using add_result [of may_alloc k0 nd None f] alloc key(1) by blast
  let ?ks = "(\<lambda>k. Unused)(k0 := In_use)" and ?fn = "(\<lambda>k. NULL)(k0 := f)"
  let ?s = "\<lparr>tc_sh = \<lparr>sh_global = \<lparr>inited = 2, lock_live = True, g_table = p\<rparr>, sh_owner = None\<rparr>,
     tc_tls = (\<lambda>t. \<lparr>tls_values = (\<lambda>k. NULL), tls_calls = []\<rparr>), tc_act = (\<lambda>t. None),
     tc_used = [k0], tc_key = ?ks, tc_fun = ?fn\<rparr>"
  have "tc_run nd may_alloc run (tc_first_key t k0 f) tc_start = Some ?s"
    using p key
    by (simp add: tc_first_key_def eval_nat_numeral tc_start_def tc_may_call_def tc_begin_def
      tc_first_pc_def tc_step_def tc_step_defs mulle_thread_tss_init_def tss_global_start_def Let_def
      tc_note_def tc_end_def fun_eq_iff)
  moreover have "table_agrees ?ks ?fn p"
  proof -
    have "table_agrees (\<lambda>k. Unused) ?fn None"
      by (simp add: table_agrees_def table_opt_ok_def destructors_def registered_def)
    from table_agrees_add [OF this key(1) _ _ p] have "table_agrees ((\<lambda>k. Unused)(k0 := Listed)) ?fn p"
      by simp
    then show ?thesis by (rule table_agrees_cong) auto
  qed
  then have "tc_inv k0 ?s"
    using key(1)
    by (simp add: tc_inv_def tc_keys_inv_def tc_acts_inv_def tc_lock_inv_def tc_shared_ok_def
      tc_count_def)
  moreover have "tc_act ?s = (\<lambda>t. None)" by simp
  ultimately show ?thesis by (intro exI [of _ ?s] conjI)
qed

lemma tc_first_key_run:
  assumes key: "k0 \<noteq> 0" "k0 \<noteq> TLS_OUT_OF_INDEXES" and alloc: "\<And>n. may_alloc n"
    and run: "tc_run nd may_alloc run (tc_first_key t k0 f) tc_start = Some s"
  shows "tc_inv k0 s" and "tc_act s u = None"
proof -
  obtain s' where s': "tc_run nd may_alloc run (tc_first_key t k0 f) tc_start = Some s'"
    "tc_inv k0 s'" "tc_act s' = (\<lambda>t. None)"
    using tc_first_key_inv [of k0 may_alloc nd run t f] key alloc by blast
  have "s' = s" using trans [OF s'(1) [symmetric] run] by simp
  with s'(2) show "tc_inv k0 s" by simp
  from \<open>s' = s\<close> fun_cong [OF s'(3), of u] show "tc_act s u = None" by simp
qed

text \<open>A thread can always go on, except in front of a section that another one is in.\<close>

lemma tc_can_step:
  assumes "tc_act_ok s a" and "lock_live (sh_global sh)"
  shows "(\<exists>r. ta_pc a = Returned r) \<or>
    tc_step nd may_alloc run t (ta_call a) (ta_pc a) (sh, v) \<noteq> None \<or>
    \<not> in_section (ta_pc a) \<and> sh_owner sh \<noteq> None"
proof (cases "ta_call a")
  case (Do_create key f)
  with assms show ?thesis
    by (auto simp: tc_act_ok_def tc_at_simps tc_step_def tc_step_defs case_prod_beta split: sum.splits)
next
  case (Do_free key)
  with assms show ?thesis
    by (auto simp: tc_act_ok_def tc_at_simps tc_step_def tc_step_defs case_prod_beta)
next
  case Do_return
  with assms show ?thesis
    by (auto simp: tc_act_ok_def tc_at_simps tc_step_def tc_step_defs)
next
  case Do_exit
  with assms show ?thesis
    by (auto simp: tc_act_ok_def tc_at_simps tc_step_def tc_step_defs)
qed

lemma tc_can_move:
  assumes inv: "tc_inv k0 s" and a: "tc_act s t = Some a"
  shows "tc_exec nd may_alloc run (Tc_step t) s \<noteq> None \<or>
    (\<exists>u. u \<noteq> t \<and> sh_owner (tc_sh s) = Some u \<and> tc_exec nd may_alloc run (Tc_step u) s \<noteq> None)"
proof -
  have acts: "tc_acts_inv s" and lock: "tc_lock_inv s" and live: "lock_live (sh_global (tc_sh s))"
    using inv by (simp_all add: tc_inv_def tc_shared_ok_def)
  have go: "tc_exec nd may_alloc run (Tc_step u) s \<noteq> None \<or>
      \<not> in_section (ta_pc b) \<and> sh_owner (tc_sh s) \<noteq> None" if b: "tc_act s u = Some b" for u b
  proof -
    have "tc_act_ok s b" using acts b by (auto simp: tc_acts_inv_def)
    from tc_can_step [OF this live, of nd may_alloc run u "tc_tls s u"] b show ?thesis
      by (auto split: tc_pc.splits)
  qed
  show ?thesis
  proof (cases "tc_exec nd may_alloc run (Tc_step t) s = None")
    case True
    with go [OF a] obtain u where u: "\<not> in_section (ta_pc a)" "sh_owner (tc_sh s) = Some u" by auto
    with lock obtain b where b: "tc_act s u = Some b" "in_section (ta_pc b)"
      by (auto simp: tc_lock_inv_def)
    with u a have "u \<noteq> t" by auto
    with go [OF b(1)] b(2) u(2) show ?thesis by blast
  qed simp
qed

text \<open>An example: while thread 2 is in the section, thread 3 returns and has to wait.\<close>

definition tc_example :: "tc_move list" where
  "tc_example = Tc_call 2 (Do_create 4 8) # replicate 4 (Tc_step 2) @
     [Tc_call 3 Do_return, Tc_step 3, Tc_step 3]"

lemma tc_example_run:
  obtains s0 s a where
    "tc_run False (\<lambda>n. True) (\<lambda>f v m. m) (tc_first_key 1 3 7) tc_start = Some s0"
    "tc_run False (\<lambda>n. True) (\<lambda>f v m. m) tc_example s0 = Some s"
    "tc_act s 3 = Some a" "ta_pc a = E_enter" "sh_owner (tc_sh s) = Some 2"
    "tc_exec False (\<lambda>n. True) (\<lambda>f v m. m) (Tc_step 3) s = None"
proof -
  have "map_option (\<lambda>s. (map_option ta_pc (tc_act s 3), sh_owner (tc_sh s),
        map_option tc_used (tc_exec False (\<lambda>n. True) (\<lambda>f v m. m) (Tc_step 3) s)))
      (case tc_run False (\<lambda>n. True) (\<lambda>f v m. m) (tc_first_key 1 3 7) tc_start of None \<Rightarrow> None
       | Some s0 \<Rightarrow> tc_run False (\<lambda>n. True) (\<lambda>f v m. m) tc_example s0) =
    Some (Some E_enter, Some 2, None)"
    by code_simp
  then show ?thesis using that by (auto simp del: tc_exec.simps split: option.splits)
qed

lemma tc_example_keeps: "list_all (tc_keeps 3) tc_example"
  by (simp add: tc_example_def tc_keeps_def list_all_iff)

subsection \<open>Properties\<close>

text \<open>C13: thread specific storage is safe for any number of threads that create and free keys,
  return and exit in any interleaving, if one key, created by a thread before there are
  others, is never freed: no assertion fails and no thread enters a critical section that
  doesn't exist, at most one thread is in it, the counter is one more than the number of keys
  counted, and the table stands for exactly the destructors of the keys that are listed.\<close>

theorem tss_concurrent_safe:
  assumes "k0 \<noteq> 0" and "k0 \<noteq> TLS_OUT_OF_INDEXES" and "\<And>n. may_alloc n"
    and "tc_run nd may_alloc run (tc_first_key t0 k0 f) tc_start = Some s0"
    and "list_all (tc_keeps k0) mvs" and "tc_run nd may_alloc run mvs s0 = Some s"
  shows "(\<forall>t a e. tc_act s t = Some a \<longrightarrow> ta_pc a \<noteq> Faulted e) \<and>
    (\<forall>t u a b. tc_act s t = Some a \<longrightarrow> tc_act s u = Some b \<longrightarrow>
      in_section (ta_pc a) \<longrightarrow> in_section (ta_pc b) \<longrightarrow> t = u) \<and>
    lock_live (sh_global (tc_sh s)) \<and>
    inited (sh_global (tc_sh s)) = word_of_nat (tc_count (tc_used s) (tc_key s) + 1) \<and>
    (\<forall>k. destructors (g_table (sh_global (tc_sh s))) k =
      (if listed_state (tc_key s k) \<and> tc_fun s k \<noteq> NULL then Some (tc_fun s k) else None))"
proof -
  have "tc_inv k0 s0" by (rule tc_first_key_run(1) [OF assms(1,2) _ assms(4)]) (rule assms(3))
  from tc_run_inv [of k0 s0 mvs may_alloc nd run s] this assms(3,5,6) have inv: "tc_inv k0 s" by blast
  have "ta_pc a \<noteq> Faulted e" if "tc_act s t = Some a" for t a e
  proof -
    have "tc_act_ok s a" using inv that by (auto simp: tc_inv_def tc_acts_inv_def)
    then show ?thesis by (cases "ta_call a") (auto simp: tc_act_ok_def tc_at_simps)
  qed
  moreover have "t = u" if "tc_act s t = Some a" "tc_act s u = Some b" "in_section (ta_pc a)"
    "in_section (ta_pc b)" for t u a b
    using inv that unfolding tc_inv_def tc_lock_inv_def by (metis option.inject)
  ultimately show ?thesis
    using inv by (simp add: tc_inv_def tc_shared_ok_def table_agrees_def)
qed

theorem tss_concurrent_safe_witness:
  "\<exists>s0 s. tc_run False (\<lambda>n. True) (\<lambda>f v m. m) (tc_first_key 1 3 7) tc_start = Some s0 \<and>
     tc_run False (\<lambda>n. True) (\<lambda>f v m. m) tc_example s0 = Some s \<and> lock_live (sh_global (tc_sh s)) \<and>
     inited (sh_global (tc_sh s)) = word_of_nat (tc_count (tc_used s) (tc_key s) + 1)"
proof -
  obtain s0 s where s: "tc_run False (\<lambda>n. True) (\<lambda>f v m. m) (tc_first_key 1 3 7) tc_start = Some s0"
    "tc_run False (\<lambda>n. True) (\<lambda>f v m. m) tc_example s0 = Some s" by (rule tc_example_run)
  have "(3 :: dword) \<noteq> 0" "3 \<noteq> TLS_OUT_OF_INDEXES" by (simp_all add: TLS_OUT_OF_INDEXES_def)
  from tss_concurrent_safe [OF this TrueI s(1) tc_example_keeps s(2)] s show ?thesis by blast
qed

text \<open>And it is live: a thread in one of the functions can go on, or it waits for another
  thread that is in the section and can go on.\<close>

theorem tss_concurrent_live:
  assumes "k0 \<noteq> 0" and "k0 \<noteq> TLS_OUT_OF_INDEXES" and "\<And>n. may_alloc n"
    and "tc_run nd may_alloc run (tc_first_key t0 k0 f) tc_start = Some s0"
    and "list_all (tc_keeps k0) mvs" and "tc_run nd may_alloc run mvs s0 = Some s"
    and "tc_act s t = Some a"
  shows "tc_exec nd may_alloc run (Tc_step t) s \<noteq> None \<or>
    (\<exists>u. u \<noteq> t \<and> sh_owner (tc_sh s) = Some u \<and> tc_exec nd may_alloc run (Tc_step u) s \<noteq> None)"
proof -
  have "tc_inv k0 s0" by (rule tc_first_key_run(1) [OF assms(1,2) _ assms(4)]) (rule assms(3))
  with tc_run_inv [of k0 s0 mvs may_alloc nd run s] assms(3,5,6) have "tc_inv k0 s" by blast
  from tc_can_move [OF this assms(7)] show ?thesis .
qed

theorem tss_concurrent_live_witness:
  "\<exists>s0 s. tc_run False (\<lambda>n. True) (\<lambda>f v m. m) (tc_first_key 1 3 7) tc_start = Some s0 \<and>
     tc_run False (\<lambda>n. True) (\<lambda>f v m. m) tc_example s0 = Some s \<and>
     tc_exec False (\<lambda>n. True) (\<lambda>f v m. m) (Tc_step 2) s \<noteq> None"
proof -
  obtain s0 s a where s: "tc_run False (\<lambda>n. True) (\<lambda>f v m. m) (tc_first_key 1 3 7) tc_start = Some s0"
    "tc_run False (\<lambda>n. True) (\<lambda>f v m. m) tc_example s0 = Some s"
    "tc_act s 3 = Some a" "sh_owner (tc_sh s) = Some 2"
    "tc_exec False (\<lambda>n. True) (\<lambda>f v m. m) (Tc_step 3) s = None" by (rule tc_example_run)
  have "(3 :: dword) \<noteq> 0" "3 \<noteq> TLS_OUT_OF_INDEXES" by (simp_all add: TLS_OUT_OF_INDEXES_def)
  from tss_concurrent_live [OF this TrueI s(1) tc_example_keeps s(2,3)] s show ?thesis by auto
qed








end
