(* ===== verification/Win_Tss_Reentrant.thy ===== *)
theory Win_Tss_Reentrant
  imports Win_Tss
begin

text \<open>
  Destructors that use the library (\<open>src/mulle-thread-windows.c\<close>). \<open>EnterCriticalSection\<close> is
  recursive, so a destructor that \<open>mulle_thread_windows_destroy_tss\<close> calls can create, free
  and set keys. The table is a block of the heap here, because the loop over it holds two
  pointers into the block, \<open>p\<close> and \<open>sentinel\<close>, while \<open>realloc\<close> may move the block and
  \<open>mulle_thread_tss_done\<close> frees it.
\<close>

subsection \<open>State\<close>

text \<open>What a destructor does, in order; \<open>D_create\<close> carries the index of \<open>TlsAlloc\<close>.\<close>

datatype dtor_cmd = D_create dword ptr | D_free dword | D_set dword ptr

type_synonym dtor_prog = "ptr \<Rightarrow> ptr \<Rightarrow> dtor_cmd list"

text \<open>\<open>dr_mem\<close> holds the allocated blocks by address, \<open>dr_table\<close> is \<open>global.table\<close>.\<close>

record dtor_sys =
  dr_mem :: "nat \<Rightarrow> destructor_table option"
  dr_table :: "nat option"
  dr_next :: nat
  dr_inited :: dword
  dr_lock :: bool
  dr_tls :: tls

datatype dtor_fault = Api_fault tss_fault | Stale_block

definition dr_global :: "dtor_sys \<Rightarrow> tss_global" where
  "dr_global st = \<lparr>inited = dr_inited st, lock_live = dr_lock st,
     g_table = (case dr_table st of None \<Rightarrow> None | Some a \<Rightarrow> dr_mem st a)\<rparr>"

definition dr_counts :: "tss_global \<Rightarrow> dtor_sys \<Rightarrow> dtor_sys" where
  "dr_counts g st = st\<lparr>dr_inited := inited g, dr_lock := lock_live g\<rparr>"

definition fresh_block :: "destructor_table \<Rightarrow> dtor_sys \<Rightarrow> dtor_sys" where
  "fresh_block t st = st\<lparr>dr_mem := (dr_mem st)(dr_next st := Some t),
     dr_table := Some (dr_next st), dr_next := dr_next st + 1\<rparr>"

text \<open>Where the table is after a key was added. \<open>moves size\<close> says whether \<open>realloc\<close> moves a
  block that grows to \<open>size\<close> entries; then the old one is gone. A failed \<open>realloc\<close> leaves the
  old block alone.\<close>

definition store_added :: "(nat \<Rightarrow> bool) \<Rightarrow> destructor_table option \<Rightarrow> dtor_sys \<Rightarrow> dtor_sys" where
  "store_added moves table st =
     (case table of
        None \<Rightarrow> st\<lparr>dr_table := None\<rparr>
      | Some t \<Rightarrow>
          (case dr_table st of
             None \<Rightarrow> fresh_block t st
           | Some a \<Rightarrow>
               if map_option dt_size (dr_mem st a) \<noteq> Some (dt_size t) \<and> moves (dt_size t)
               then fresh_block t (st\<lparr>dr_mem := (dr_mem st)(a := None)\<rparr>)
               else st\<lparr>dr_mem := (dr_mem st)(a := Some t)\<rparr>))"

text \<open>After a key was freed: the table stays where it is or was given to \<open>free\<close>.\<close>

definition store_removed :: "destructor_table option \<Rightarrow> dtor_sys \<Rightarrow> dtor_sys" where
  "store_removed table st =
     (case dr_table st of
        None \<Rightarrow> st
      | Some a \<Rightarrow> st\<lparr>dr_mem := (dr_mem st)(a := table),
          dr_table := (if table = None then None else Some a)\<rparr>)"

fun dtor_act ::
  "bool \<Rightarrow> (nat \<Rightarrow> bool) \<Rightarrow> (nat \<Rightarrow> bool) \<Rightarrow> dtor_cmd \<Rightarrow> dtor_sys \<Rightarrow> dtor_fault + dtor_sys"
where
  "dtor_act ndebug may_alloc moves (D_create index f) st =
     (case win_mulle_thread_tss_create ndebug may_alloc index f (dr_global st) of
        Inl e \<Rightarrow> Inl (Api_fault e)
      | Inr (rval, key, g) \<Rightarrow> Inr (store_added moves (g_table g) (dr_counts g st)))"
| "dtor_act ndebug may_alloc moves (D_free key) st =
     (case win_mulle_thread_tss_free ndebug key (dr_global st) of
        Inl e \<Rightarrow> Inl (Api_fault e)
      | Inr g \<Rightarrow> Inr (store_removed (g_table g) (dr_counts g st)))"
| "dtor_act ndebug may_alloc moves (D_set key value) st =
     (case win_mulle_thread_tss_set True key value (dr_tls st) of
        (rval, s) \<Rightarrow> Inr (st\<lparr>dr_tls := s\<rparr>))"

fun dtor_acts ::
  "bool \<Rightarrow> (nat \<Rightarrow> bool) \<Rightarrow> (nat \<Rightarrow> bool) \<Rightarrow> dtor_cmd list \<Rightarrow> dtor_sys \<Rightarrow> dtor_fault + dtor_sys"
where
  "dtor_acts ndebug may_alloc moves [] st = Inr st"
| "dtor_acts ndebug may_alloc moves (x # xs) st =
     (case dtor_act ndebug may_alloc moves x st of
        Inl e \<Rightarrow> Inl e | Inr st' \<Rightarrow> dtor_acts ndebug may_alloc moves xs st')"

subsection \<open>The loop\<close>

text \<open>\<open>destructor_table_execute_destructors\<close> with \<open>p\<close> at entry \<open>i\<close> of the block at \<open>a\<close> and
  \<open>sentinel\<close> at entry \<open>n\<close>, both computed before the loop. Reading an entry of a block that
  isn't allocated is undefined.\<close>

function execute_block ::
  "bool \<Rightarrow> (nat \<Rightarrow> bool) \<Rightarrow> (nat \<Rightarrow> bool) \<Rightarrow> dtor_prog \<Rightarrow> nat \<Rightarrow> nat \<Rightarrow> nat \<Rightarrow> dtor_sys \<Rightarrow>
     dtor_fault + dtor_sys"
where
  "execute_block ndebug may_alloc moves prog a i n st =
     (if i < n
      then (case dr_mem st a of
          None \<Rightarrow> Inl Stale_block
        | Some t \<Rightarrow>
            (let e = dt_entries t i; v = TlsGetValue (e_key e) (dr_tls st) in
             if e_f e \<noteq> NULL \<and> v \<noteq> NULL
             then (let s = TlsSetValue (e_key e) NULL (dr_tls st) in
               case dtor_acts ndebug may_alloc moves (prog (e_f e) v)
                   (st\<lparr>dr_tls := s\<lparr>tls_calls := tls_calls s @ [(e_f e, v)]\<rparr>\<rparr>) of
                 Inl x \<Rightarrow> Inl x
               | Inr st' \<Rightarrow> execute_block ndebug may_alloc moves prog a (i + 1) n st')
             else execute_block ndebug may_alloc moves prog a (i + 1) n st))
      else Inr st)"
  by pat_completeness auto
termination by (relation "measure (\<lambda>(nd, ma, mo, prog, a, i, n, st). n - i)") auto

declare execute_block.simps [simp del]

text \<open>\<open>mulle_thread_windows_destroy_tss\<close>; leaving a critical section that was deleted
  meanwhile is undefined as entering it is.\<close>

definition destroy_tss_reentrant ::
  "bool \<Rightarrow> (nat \<Rightarrow> bool) \<Rightarrow> (nat \<Rightarrow> bool) \<Rightarrow> dtor_prog \<Rightarrow> dtor_sys \<Rightarrow> dtor_fault + dtor_sys"
where
  "destroy_tss_reentrant ndebug may_alloc moves prog st =
     (if \<not> ndebug \<and> dr_inited st = 0 then Inl (Api_fault Tss_assertion)
      else if \<not> dr_lock st then Inl (Api_fault Dead_section)
      else (case (case dr_table st of
             None \<Rightarrow> Inr st
           | Some a \<Rightarrow> (case dr_mem st a of
                 None \<Rightarrow> Inl Stale_block
               | Some t \<Rightarrow> execute_block ndebug may_alloc moves prog a 0 (dt_n t) st)) of
           Inl x \<Rightarrow> Inl x
         | Inr st' \<Rightarrow> if dr_lock st' then Inr st' else Inl (Api_fault Dead_section)))"

subsection \<open>Destructors that stay within the block\<close>

definition act_sets :: "dtor_cmd \<Rightarrow> (dword \<Rightarrow> ptr) \<Rightarrow> (dword \<Rightarrow> ptr)" where
  "act_sets x m = (case x of D_set key value \<Rightarrow> m(key := value) | _ \<Rightarrow> m)"

lemma act_sets_simps [simp]:
  "act_sets (D_create key f) m = m" "act_sets (D_free key) m = m"
  "act_sets (D_set key value) m = m(key := value)"
  by (simp_all add: act_sets_def)

text \<open>What the program of a destructor does to the storage of its thread.\<close>

definition run_of :: "dtor_prog \<Rightarrow> destructor" where
  "run_of prog f v m = fold act_sets (prog f v) m"

fun creates :: "dtor_cmd list \<Rightarrow> nat" where
  "creates [] = 0"
| "creates (D_create key f # xs) = Suc (creates xs)"
| "creates (_ # xs) = creates xs"

text \<open>At most \<open>c\<close> keys created and none freed.\<close>

definition only_creates :: "nat \<Rightarrow> dtor_cmd list \<Rightarrow> bool" where
  "only_creates c xs \<longleftrightarrow> creates xs \<le> c \<and>
     (\<forall>x \<in> set xs. case x of D_create key f \<Rightarrow> key \<noteq> 0 | D_free key \<Rightarrow> False | _ \<Rightarrow> True)"

text \<open>The block \<open>a\<close> still holds the entries of \<open>t\<close>, and at most \<open>m\<close> keys were added.\<close>

definition within :: "nat \<Rightarrow> destructor_table \<Rightarrow> nat \<Rightarrow> nat \<Rightarrow> dtor_sys \<Rightarrow> bool" where
  "within a t k m st \<longleftrightarrow> dr_table st = Some a \<and> dr_lock st \<and>
     (\<exists>j. k \<le> j \<and> j \<le> k + m \<and> dr_inited st = word_of_nat (j + 1)) \<and>
     (\<exists>t'. dr_mem st a = Some t' \<and> dt_size t' = dt_size t \<and> dt_n t \<le> dt_n t' \<and>
        dt_n t' \<le> dt_n t + m \<and> (\<forall>i < dt_n t. dt_entries t' i = dt_entries t i))"

lemma within_tls [simp]: "within a t k m (st\<lparr>dr_tls := s\<rparr>) = within a t k m st"
  by (simp add: within_def)

lemma within_mono: "within a t k m st \<Longrightarrow> m \<le> m' \<Longrightarrow> within a t k m' st"
  unfolding within_def by (meson add_left_mono order_trans)

lemma create_within:
  assumes w: "within a t k m st" and key: "key \<noteq> 0" and k: "0 < k" "k + m < 1088"
    and room: "dt_n t + m < dt_size t"
  shows "\<exists>st'. dtor_act nd ma mo (D_create key f) st = Inr st' \<and> within a t k (m + 1) st' \<and>
    dr_tls st' = dr_tls st"
proof (cases "key = TLS_OUT_OF_INDEXES")
  case True
  obtain t' where t': "dr_mem st a = Some t'" "dr_table st = Some a"
    using w by (auto simp: within_def)
  have "store_added mo (Some t') (dr_counts (dr_global st) st) = st"
    using t' by (simp add: store_added_def dr_counts_def dr_global_def fun_upd_idem)
  then show ?thesis
    using True w within_mono [OF w, of "m + 1"] t'
    by (simp add: win_mulle_thread_tss_create_def dr_global_def)
next
  case False
  obtain j t' where j: "k \<le> j" "j \<le> k + m" "dr_inited st = word_of_nat (j + 1)"
    and t': "dr_mem st a = Some t'" "dt_size t' = dt_size t" "dt_n t \<le> dt_n t'"
      "dt_n t' \<le> dt_n t + m" "\<forall>i < dt_n t. dt_entries t' i = dt_entries t i"
    and st: "dr_table st = Some a" "dr_lock st"
    using w by (auto simp: within_def)
  let ?g = "dr_global st"
  have "inited ?g = (if j = 0 then 0 else word_of_nat (j + 1))"
    using j k by (simp add: dr_global_def)
  from tss_init_counts [OF this] j k st(2)
  have init: "tss_init_alone ?g = Some (?g\<lparr>inited := word_of_nat (j + 2), lock_live := True\<rparr>)"
    by (simp add: dr_global_def)
  define t2 where "t2 = (if f = NULL then t' else add_entry f key t')"
  have tab: "g_table ?g = Some t'" by (simp add: dr_global_def st t')
  have add: "destructor_table_add_destructor_for_key nd ma (Some t') f key = Inr (0, Some t2)"
    using key t' room by (auto simp: destructor_table_add_destructor_for_key_def t2_def)
  have size: "dt_size t2 = dt_size t'" by (simp add: t2_def add_entry_def)
  define st2 where "st2 = st\<lparr>dr_inited := word_of_nat (j + 2), dr_lock := True,
    dr_mem := (dr_mem st)(a := Some t2)\<rparr>"
  have "dtor_act nd ma mo (D_create key f) st = Inr st2"
    using False init add tab st size t'
    by (simp add: win_mulle_thread_tss_create_def mulle_thread_windows_add_tss_def enter_lock_def
      tss_assert_def store_added_def dr_counts_def st2_def)
  moreover have "within a t k (m + 1) st2"
    using j t' st by (auto simp: within_def st2_def t2_def add_entry_def intro: exI [of _ "j + 1"])
  ultimately show ?thesis by (simp add: st2_def)
qed

lemma acts_within:
  "within a t k m st \<Longrightarrow> 0 < k \<Longrightarrow> k + m + creates xs \<le> 1088 \<Longrightarrow>
     dt_n t + m + creates xs \<le> dt_size t \<Longrightarrow> only_creates c xs \<Longrightarrow>
     \<exists>st'. dtor_acts nd ma mo xs st = Inr st' \<and> within a t k (m + creates xs) st' \<and>
       dr_tls st' = (dr_tls st)\<lparr>tls_values := fold act_sets xs (tls_values (dr_tls st))\<rparr>"
proof (induction xs arbitrary: st m)
  case (Cons x xs)
  have rest: "only_creates c xs" using Cons.prems(5) by (cases x) (auto simp: only_creates_def)
  show ?case
  proof (cases x)
    case (D_create key f)
    have "key \<noteq> 0" "k + m < 1088" "dt_n t + m < dt_size t"
      using Cons.prems D_create by (auto simp: only_creates_def)
    from create_within [OF Cons.prems(1) this(1) Cons.prems(2) this(2,3), of nd ma mo f]
    obtain st1 where "dtor_act nd ma mo x st = Inr st1" "within a t k (m + 1) st1"
      "dr_tls st1 = dr_tls st" by (auto simp: D_create simp del: dtor_act.simps)
    with Cons.IH [of "m + 1" st1] Cons.prems rest D_create show ?thesis
      by (auto simp del: dtor_act.simps)
  next
    case (D_free key)
    with Cons.prems(5) show ?thesis by (simp add: only_creates_def)
  next
    case (D_set key v)
    let ?st = "st\<lparr>dr_tls := TlsSetValue key v (dr_tls st)\<rparr>"
    have step: "dtor_act nd ma mo x st = Inr ?st"
      by (simp add: D_set win_mulle_thread_tss_set_def)
    have "within a t k m ?st" using Cons.prems(1) by simp
    from Cons.IH [OF this Cons.prems(2) _ _ rest] Cons.prems(3,4) step D_set show ?thesis
      by (auto simp: TlsSetValue_def fun_upd_def simp del: dtor_act.simps)
  qed
qed simp

lemma block_within:
  assumes k: "0 < k" "k + dt_n t * c \<le> 1088" and room: "dt_n t * (c + 1) \<le> dt_size t"
    and prog: "\<And>f v. only_creates c (prog f v)"
  shows "within a t k (i * c) st \<Longrightarrow> i \<le> dt_n t \<Longrightarrow>
    \<exists>st'. execute_block nd ma mo prog a i (dt_n t) st = Inr st' \<and> within a t k (dt_n t * c) st' \<and>
      dr_tls st' = execute_from (run_of prog) i t (dr_tls st)"
proof (induction "dt_n t - i" arbitrary: i st)
  case 0
  then show ?case
    by (auto simp: execute_block.simps [of _ _ _ _ _ i] execute_from.simps [of _ i])
next
  case (Suc d)
  then have i: "i < dt_n t" and d: "d = dt_n t - (i + 1)" by auto
  have ic: "i * c + c \<le> dt_n t * c"
    using mult_le_mono1 [of "Suc i" "dt_n t" c] i by simp
  obtain t' where t': "dr_mem st a = Some t'" "dt_entries t' i = dt_entries t i"
    using Suc.prems(1) i by (auto simp: within_def)
  let ?e = "dt_entries t i"
  let ?v = "TlsGetValue (e_key ?e) (dr_tls st)" and ?s = "TlsSetValue (e_key ?e) NULL (dr_tls st)"
  note unfold = execute_block.simps [of nd ma mo prog a i] execute_from.simps [of _ i]
  show ?case
  proof (cases "e_f ?e \<noteq> NULL \<and> ?v \<noteq> NULL")
    case False
    have "within a t k ((i + 1) * c) st"
      by (rule within_mono [OF Suc.prems(1)]) simp
    from Suc.hyps(1) [OF d this] i show ?thesis
      using False t' by (auto simp: unfold Let_def)
  next
    case True
    let ?st = "st\<lparr>dr_tls := ?s\<lparr>tls_calls := tls_calls ?s @ [(e_f ?e, ?v)]\<rparr>\<rparr>"
    have w: "within a t k (i * c) ?st" using Suc.prems(1) by simp
    have n: "creates (prog (e_f ?e) ?v) \<le> c" using prog by (simp add: only_creates_def)
    have "k + i * c + creates (prog (e_f ?e) ?v) \<le> 1088"
      "dt_n t + i * c + creates (prog (e_f ?e) ?v) \<le> dt_size t"
      using n ic k(2) room by (auto simp: algebra_simps)
    from acts_within [OF w k(1) this prog, of nd ma mo] obtain st' where
      st': "dtor_acts nd ma mo (prog (e_f ?e) ?v) ?st = Inr st'"
        "within a t k (i * c + creates (prog (e_f ?e) ?v)) st'"
        "dr_tls st' = call_destructor (run_of prog) (e_f ?e) ?v ?s"
      by (auto simp: call_destructor_def run_of_def)
    have "within a t k ((i + 1) * c) st'"
      by (rule within_mono [OF st'(2)]) (use n in simp)
    from Suc.hyps(1) [OF d this] i show ?thesis
      using True t' st' by (auto simp: unfold Let_def)
  qed
qed

subsection \<open>Destructors that take the block away\<close>









subsection \<open>Properties\<close>

text \<open>C35: destructors on Windows may set values and create keys while
  \<open>mulle_thread_windows_destroy_tss\<close> is running them, as long as they free none and the new
  keys fit in the table: then the destructors run are exactly those of the keys there were,
  with the effect the plain loop has, and the block and these keys' entries stay in place.
  With \<open>c = 0\<close> the first bound is that of every table.\<close>

theorem destructors_within_room:
  assumes "dr_table st = Some a" and "dr_mem st a = Some t" and "dr_lock st"
    and "dr_inited st = word_of_nat (k + 1)" and "0 < k"
    and "\<And>f v. only_creates c (prog f v)"
    and "dt_n t * (c + 1) \<le> dt_size t" and "k + dt_n t * c \<le> 1088"
  shows "\<exists>st' t'. destroy_tss_reentrant nd may_alloc moves prog st = Inr st' \<and>
    dr_tls st' = destructor_table_execute_destructors (run_of prog) (Some t) (dr_tls st) \<and>
    dr_table st' = Some a \<and> dr_mem st' a = Some t' \<and>
    (\<forall>i < dt_n t. dt_entries t' i = dt_entries t i)"
proof -
  have w: "within a t k (0 * c) st"
    using assms(1-4) by (auto simp: within_def)
  obtain st' where st': "execute_block nd may_alloc moves prog a 0 (dt_n t) st = Inr st'"
    "within a t k (dt_n t * c) st'" "dr_tls st' = execute_from (run_of prog) 0 t (dr_tls st)"
    using block_within [where nd = nd and ma = may_alloc and mo = moves and prog = prog,
        OF assms(5,8,7,6) w] by auto
  have "dr_inited st \<noteq> 0"
    using small_word [of "k + 1" 0] assms(4,8) by auto
  with st' assms(1-3) show ?thesis
    by (auto simp: destroy_tss_reentrant_def destructor_table_execute_destructors_def within_def)
qed

definition example_dtor_sys :: "destructor_table_entry list \<Rightarrow> nat \<Rightarrow> dtor_sys" where
  "example_dtor_sys es sz =
     \<lparr>dr_mem = (\<lambda>a. if a = 1 then Some \<lparr>dt_n = length es, dt_size = sz,
          dt_entries = (\<lambda>i. if i < length es then es ! i else empty_entries i)\<rparr> else None),
      dr_table = Some 1, dr_next = 2, dr_inited = word_of_nat (length es + 1), dr_lock = True,
      dr_tls = \<lparr>tls_values = (\<lambda>k. 5), tls_calls = []\<rparr>\<rparr>"

theorem destructors_within_room_witness:
  "\<exists>st' t'. destroy_tss_reentrant False (\<lambda>n. True) (\<lambda>n. True)
       (\<lambda>f v. if f = 7 then [D_create 9 8, D_set 9 v] else [])
       (example_dtor_sys [\<lparr>e_key = 3, e_f = 7\<rparr>, \<lparr>e_key = 4, e_f = 8\<rparr>] 4) = Inr st' \<and>
     dr_table st' = Some 1 \<and> dr_mem st' 1 = Some t' \<and> dt_entries t' 1 = \<lparr>e_key = 4, e_f = 8\<rparr>"
proof -
  let ?st = "example_dtor_sys [\<lparr>e_key = 3, e_f = 7\<rparr>, \<lparr>e_key = 4, e_f = 8\<rparr>] 4"
  let ?prog = "\<lambda>f v. if f = (7 :: ptr) then [D_create 9 8, D_set 9 v] else []"
  obtain t where t: "dr_table ?st = Some 1" "dr_mem ?st 1 = Some t" "dr_lock ?st"
    "dr_inited ?st = word_of_nat (2 + 1)" "dt_n t = 2" "dt_size t = 4"
    "dt_entries t 1 = \<lparr>e_key = 4, e_f = 8\<rparr>"
    by (simp add: example_dtor_sys_def)
  have "only_creates 1 (?prog f v)" for f v by (simp add: only_creates_def)
  from destructors_within_room [OF t(1-4) _ this, where nd = False and may_alloc = "\<lambda>n. True"
      and moves = "\<lambda>n. True"] t(5-7)
  show ?thesis by fastforce
qed








end
