(* ===== verification/Win_Tss_Callback.thy ===== *)
theory Win_Tss_Callback
  imports Win_Tss_Safety Win_Tss_Reentrant
begin

text \<open>
  Destructors that use the library while other threads do (\<open>src/mulle-thread-windows.c\<close>): the
  interleaving of theory \<open>Win_Tss_Concurrent\<close>, with the loop over the table of destructors
  executed step by step. A destructor is a program that sets, creates and frees keys; its calls
  are the same functions, executed step by step too. They enter the critical section their
  thread is already in, which Windows allows.
\<close>

subsection \<open>State\<close>

text \<open>The loop of \<open>destructor_table_execute_destructors\<close>: the entry \<open>p\<close> points to and the one
  \<open>sentinel\<close> points to, both in the block \<open>cl_block\<close>; what the destructor that was called has
  still to do, and the call of the library it is in.\<close>

record cb_loop =
  cl_i :: nat
  cl_n :: nat
  cl_block :: nat
  cl_cmds :: "dtor_cmd list"
  cl_call :: "tc_act option"

text \<open>\<open>cb_block\<close> names the block of memory \<open>global.table\<close> is in, \<open>cb_stale\<close> says that a thread has
  read an entry of a block that was given back.\<close>

record cb_sys =
  cb_tc :: tc_sys
  cb_block :: nat
  cb_stale :: bool
  cb_loops :: "tid \<Rightarrow> cb_loop option"

abbreviation cb_table :: "tc_sys \<Rightarrow> destructor_table option" where
  "cb_table tc \<equiv> g_table (sh_global (tc_sh tc))"

text \<open>The table is in another block after it was allocated, freed, or grown where \<open>realloc\<close> moves
  blocks of that size.\<close>

definition block_changes ::
  "(nat \<Rightarrow> bool) \<Rightarrow> destructor_table option \<Rightarrow> destructor_table option \<Rightarrow> bool"
where
  "block_changes moves p p' =
     (case (p, p') of
        (None, None) \<Rightarrow> False
      | (Some t, Some t') \<Rightarrow> dt_size t' \<noteq> dt_size t \<and> moves (dt_size t')
      | _ \<Rightarrow> True)"

definition cb_put :: "(nat \<Rightarrow> bool) \<Rightarrow> tc_sys \<Rightarrow> cb_sys \<Rightarrow> cb_sys" where
  "cb_put moves tc s = s\<lparr>cb_tc := tc,
     cb_block := (if block_changes moves (cb_table (cb_tc s)) (cb_table tc)
       then cb_block s + 1 else cb_block s)\<rparr>"

definition cb_set_loop :: "tid \<Rightarrow> cb_loop option \<Rightarrow> cb_sys \<Rightarrow> cb_sys" where
  "cb_set_loop t l s = s\<lparr>cb_loops := (cb_loops s)(t := l)\<rparr>"

definition cb_set_tls :: "tid \<Rightarrow> tls \<Rightarrow> cb_sys \<Rightarrow> cb_sys" where
  "cb_set_tls t values s = s\<lparr>cb_tc := (cb_tc s)\<lparr>tc_tls := (tc_tls (cb_tc s))(t := values)\<rparr>\<rparr>"

subsection \<open>The loop and the calls inside it\<close>

text \<open>A call made by a destructor: its thread is in the section, so that entering it goes through
  and leaving it doesn't free it.\<close>

definition nested_tc_step ::
  "bool \<Rightarrow> (nat \<Rightarrow> bool) \<Rightarrow> tid \<Rightarrow> tc_call \<Rightarrow> tc_pc \<Rightarrow> tc_shared \<Rightarrow> (tc_pc \<times> tc_shared) option"
where
  "nested_tc_step ndebug may_alloc t c pc sh =
     (case pc of
        A_enter \<Rightarrow> Some (if lock_live (sh_global sh) then A_add else Faulted Dead_section, sh)
      | X_enter \<Rightarrow> Some (if lock_live (sh_global sh) then X_remove else Faulted Dead_section, sh)
      | A_leave rval \<Rightarrow> Some (A_check rval, sh)
      | X_leave \<Rightarrow> Some (T_done D_dec, sh)
      | _ \<Rightarrow>
          (case c of
             Do_create key f \<Rightarrow> add_tss_step ndebug may_alloc t key f pc sh
           | Do_free key \<Rightarrow> remove_tss_step ndebug t key pc sh
           | _ \<Rightarrow> None))"

text \<open>The calls and their returns are noted as those of the threads themselves.\<close>

definition nest_call :: "tid \<Rightarrow> tc_call \<Rightarrow> cb_loop \<Rightarrow> cb_sys \<Rightarrow> cb_sys option" where
  "nest_call t c l s =
     (let tc = cb_tc s in
      if tc_may_call (tc\<lparr>tc_act := (tc_act tc)(t := None)\<rparr>) t c
      then Some (cb_set_loop t (Some (l\<lparr>cl_call := Some \<lparr>ta_call = c, ta_pc = tc_first_pc c\<rparr>\<rparr>))
        (s\<lparr>cb_tc := (tc_begin t c tc)\<lparr>tc_act := tc_act tc\<rparr>\<rparr>))
      else None)"

definition nest_step ::
  "bool \<Rightarrow> (nat \<Rightarrow> bool) \<Rightarrow> (nat \<Rightarrow> bool) \<Rightarrow> tid \<Rightarrow> tc_act \<Rightarrow> cb_loop \<Rightarrow> cb_sys \<Rightarrow> cb_sys option"
where
  "nest_step ndebug may_alloc moves t c l s =
     (let tc = cb_tc s in
      case ta_pc c of
        Returned rval \<Rightarrow> Some (cb_set_loop t (Some (l\<lparr>cl_call := None\<rparr>))
          (s\<lparr>cb_tc := (tc_end t (ta_call c) tc)\<lparr>tc_act := tc_act tc\<rparr>\<rparr>))
      | _ \<Rightarrow>
          (case nested_tc_step ndebug may_alloc t (ta_call c) (ta_pc c) (tc_sh tc) of
             None \<Rightarrow> None
           | Some (pc', sh') \<Rightarrow>
               Some (cb_set_loop t (Some (l\<lparr>cl_call := Some (c\<lparr>ta_pc := pc'\<rparr>)\<rparr>))
                 (cb_put moves (tc\<lparr>tc_sh := sh', tc_key := tc_note (ta_call c) (ta_pc c) (tc_key tc)\<rparr>) s))))"

text \<open>One step of what a destructor does.\<close>

definition dtor_step :: "tid \<Rightarrow> dtor_cmd \<Rightarrow> cb_loop \<Rightarrow> cb_sys \<Rightarrow> cb_sys option" where
  "dtor_step t x l s =
     (case x of
        D_set key value \<Rightarrow> Some (cb_set_loop t (Some l)
          (cb_set_tls t (snd (win_mulle_thread_tss_set True key value (tc_tls (cb_tc s) t))) s))
      | D_create index f \<Rightarrow>
          if index = TLS_OUT_OF_INDEXES then Some (cb_set_loop t (Some l) s)
          else nest_call t (Do_create index f) l s
      | D_free key \<Rightarrow> nest_call t (Do_free key) l s)"

text \<open>One turn of the loop: the entry is read, and its destructor called if there is a value.\<close>

definition loop_turn :: "dtor_prog \<Rightarrow> tid \<Rightarrow> cb_loop \<Rightarrow> cb_sys \<Rightarrow> cb_sys" where
  "loop_turn prog t l s =
     (if cl_block l \<noteq> cb_block s then s\<lparr>cb_stale := True\<rparr>
      else (case cb_table (cb_tc s) of
          None \<Rightarrow> s\<lparr>cb_stale := True\<rparr>
        | Some table \<Rightarrow>
            (let e = dt_entries table (cl_i l); values = tc_tls (cb_tc s) t;
                 v = TlsGetValue (e_key e) values
             in if e_f e \<noteq> NULL \<and> v \<noteq> NULL
                then (let values' = TlsSetValue (e_key e) NULL values in
                  cb_set_loop t (Some (l\<lparr>cl_i := cl_i l + 1, cl_cmds := prog (e_f e) v\<rparr>))
                    (cb_set_tls t (values'\<lparr>tls_calls := tls_calls values' @ [(e_f e, v)]\<rparr>) s))
                else cb_set_loop t (Some (l\<lparr>cl_i := cl_i l + 1\<rparr>)) s)))"

definition loop_enter :: "tid \<Rightarrow> cb_sys \<Rightarrow> cb_sys" where
  "loop_enter t s = cb_set_loop t (Some \<lparr>cl_i = 0,
     cl_n = (case cb_table (cb_tc s) of None \<Rightarrow> 0 | Some table \<Rightarrow> dt_n table),
     cl_block = cb_block s, cl_cmds = [], cl_call = None\<rparr>) s"

definition loop_leave :: "tid \<Rightarrow> tc_act \<Rightarrow> cb_sys \<Rightarrow> cb_sys" where
  "loop_leave t a s = cb_set_loop t None
     (s\<lparr>cb_tc := (cb_tc s)\<lparr>tc_act := (tc_act (cb_tc s))(t := Some (a\<lparr>ta_pc := E_leave\<rparr>))\<rparr>\<rparr>)"

definition loop_step ::
  "bool \<Rightarrow> (nat \<Rightarrow> bool) \<Rightarrow> (nat \<Rightarrow> bool) \<Rightarrow> dtor_prog \<Rightarrow> tid \<Rightarrow> tc_act \<Rightarrow> cb_loop \<Rightarrow> cb_sys \<Rightarrow>
     cb_sys option"
where
  "loop_step ndebug may_alloc moves prog t a l s =
     (case cl_call l of
        Some c \<Rightarrow> nest_step ndebug may_alloc moves t c l s
      | None \<Rightarrow>
          (case cl_cmds l of
             x # xs \<Rightarrow> dtor_step t x (l\<lparr>cl_cmds := xs\<rparr>) s
           | [] \<Rightarrow> if cl_i l < cl_n l then Some (loop_turn prog t l s) else Some (loop_leave t a s)))"

subsection \<open>Threads\<close>

text \<open>The calls of the threads, the values they set and their steps. The ids of threads have the
  top bit clear; the proofs use the other ids for the calls inside destructors.\<close>

datatype cb_move = Cb_call tid tc_call | Cb_set tid dword ptr | Cb_step tid

fun cb_exec ::
  "bool \<Rightarrow> (nat \<Rightarrow> bool) \<Rightarrow> (nat \<Rightarrow> bool) \<Rightarrow> dtor_prog \<Rightarrow> cb_move \<Rightarrow> cb_sys \<Rightarrow> cb_sys option"
where
  "cb_exec ndebug may_alloc moves prog (Cb_call t c) s =
     (if \<not> bit t 63 \<and> tc_may_call (cb_tc s) t c then Some (s\<lparr>cb_tc := tc_begin t c (cb_tc s)\<rparr>) else None)"
| "cb_exec ndebug may_alloc moves prog (Cb_set t key value) s =
     (if \<not> bit t 63 \<and> tc_act (cb_tc s) t = None
      then Some (cb_set_tls t (snd (win_mulle_thread_tss_set True key value (tc_tls (cb_tc s) t))) s)
      else None)"
| "cb_exec ndebug may_alloc moves prog (Cb_step t) s =
     (case tc_act (cb_tc s) t of
        None \<Rightarrow> None
      | Some a \<Rightarrow>
          if ta_pc a = E_run
          then (case cb_loops s t of
              None \<Rightarrow> Some (loop_enter t s)
            | Some l \<Rightarrow> loop_step ndebug may_alloc moves prog t a l s)
          else map_option (\<lambda>tc. cb_put moves tc s)
            (tc_exec ndebug may_alloc (\<lambda>f v m. m) (Tc_step t) (cb_tc s)))"

fun cb_run ::
  "bool \<Rightarrow> (nat \<Rightarrow> bool) \<Rightarrow> (nat \<Rightarrow> bool) \<Rightarrow> dtor_prog \<Rightarrow> cb_move list \<Rightarrow> cb_sys \<Rightarrow> cb_sys option"
where
  "cb_run ndebug may_alloc moves prog [] s = Some s"
| "cb_run ndebug may_alloc moves prog (mv # mvs) s =
     (case cb_exec ndebug may_alloc moves prog mv s of
        None \<Rightarrow> None | Some s' \<Rightarrow> cb_run ndebug may_alloc moves prog mvs s')"

definition cb_begin :: "tc_sys \<Rightarrow> cb_sys" where
  "cb_begin tc = \<lparr>cb_tc = tc, cb_block = 0, cb_stale = False, cb_loops = (\<lambda>t. None)\<rparr>"

subsection \<open>The view of the threads without callbacks\<close>

text \<open>
  In the proofs the calls inside destructors are calls of threads of their own, \<open>nested t\<close>, and
  a thread in the loop counts as one that is about to enter the section: to the others, who
  can't enter it, that makes no difference.
\<close>

definition nested :: "tid \<Rightarrow> tid" where
  "nested t = set_bit 63 t"

definition outer :: "tid \<Rightarrow> tid" where
  "outer u = unset_bit 63 u"

lemma nested_simps [simp]: "bit (nested t) 63" "\<not> bit (outer u) 63"
  "\<not> bit t 63 \<Longrightarrow> outer (nested t) = t" "bit u 63 \<Longrightarrow> nested (outer u) = u"
  by (auto simp: nested_def outer_def bit_simps intro!: bit_eqI)

lemma nested_neq [simp]: "\<not> bit t 63 \<Longrightarrow> nested u \<noteq> t" "\<not> bit t 63 \<Longrightarrow> t \<noteq> nested u"
  using nested_simps(1) [of u] by auto

definition cb_owner :: "cb_sys \<Rightarrow> tid option" where
  "cb_owner s =
     (case sh_owner (tc_sh (cb_tc s)) of
        None \<Rightarrow> None
      | Some t \<Rightarrow>
          (case cb_loops s t of
             None \<Rightarrow> Some t
           | Some l \<Rightarrow>
               (case cl_call l of
                  None \<Rightarrow> None
                | Some c \<Rightarrow> if in_section (ta_pc c) then Some (nested t) else None)))"

definition cb_acts :: "cb_sys \<Rightarrow> tid \<Rightarrow> tc_act option" where
  "cb_acts s u =
     (if bit u 63 then Option.bind (cb_loops s (outer u)) cl_call
      else map_option (\<lambda>a. if cb_loops s u = None then a else a\<lparr>ta_pc := E_enter\<rparr>) (tc_act (cb_tc s) u))"

definition cb_view :: "cb_sys \<Rightarrow> tc_sys" where
  "cb_view s = (cb_tc s)\<lparr>tc_sh := (tc_sh (cb_tc s))\<lparr>sh_owner := cb_owner s\<rparr>, tc_act := cb_acts s\<rparr>"

lemma cb_view_simps [simp]:
  "tc_sh (cb_view s) = (tc_sh (cb_tc s))\<lparr>sh_owner := cb_owner s\<rparr>" "tc_act (cb_view s) = cb_acts s"
  "tc_used (cb_view s) = tc_used (cb_tc s)" "tc_key (cb_view s) = tc_key (cb_tc s)"
  "tc_fun (cb_view s) = tc_fun (cb_tc s)"
  by (simp_all add: cb_view_def)

lemma tc_inv_cong:
  assumes "tc_inv k0 s" and "tc_sh s' = tc_sh s" and "tc_act s' = tc_act s"
    and "tc_used s' = tc_used s" and "tc_key s' = tc_key s" and "tc_fun s' = tc_fun s"
  shows "tc_inv k0 s'"
  using assms
  by (simp add: tc_inv_def tc_keys_inv_def tc_acts_inv_def tc_lock_inv_def tc_act_ok_def
    split: option.splits tc_call.splits)

text \<open>A destructor makes calls about keys, and doesn't free \<open>k0\<close>.\<close>

definition loop_ok :: "dword \<Rightarrow> cb_loop \<Rightarrow> bool" where
  "loop_ok k0 l \<longleftrightarrow> D_free k0 \<notin> set (cl_cmds l) \<and>
     (\<forall>c. cl_call l = Some c \<longrightarrow> call_key (ta_call c) \<noteq> None)"

definition cb_inv :: "dword \<Rightarrow> cb_sys \<Rightarrow> bool" where
  "cb_inv k0 s \<longleftrightarrow> tc_inv k0 (cb_view s) \<and>
     (\<forall>t a. tc_act (cb_tc s) t = Some a \<longrightarrow> \<not> bit t 63) \<and>
     (\<forall>t l. cb_loops s t = Some l \<longrightarrow> sh_owner (tc_sh (cb_tc s)) = Some t \<and> loop_ok k0 l \<and>
        (\<exists>a. tc_act (cb_tc s) t = Some a \<and> ta_pc a = E_run))"

lemma cb_invD:
  assumes "cb_inv k0 s"
  shows "tc_inv k0 (cb_view s)" and "tc_act (cb_tc s) t = Some a \<Longrightarrow> \<not> bit t 63"
    and "cb_loops s t = Some l \<Longrightarrow> sh_owner (tc_sh (cb_tc s)) = Some t"
    and "cb_loops s t = Some l \<Longrightarrow> \<exists>a. tc_act (cb_tc s) t = Some a \<and> ta_pc a = E_run"
    and "cb_loops s t = Some l \<Longrightarrow> \<not> bit t 63" and "cb_loops s t = Some l \<Longrightarrow> loop_ok k0 l"
  using assms unfolding cb_inv_def by blast+

lemma cb_live: "cb_inv k0 s \<Longrightarrow> lock_live (sh_global (tc_sh (cb_tc s)))"
  by (auto simp: cb_inv_def tc_inv_def tc_shared_ok_def)

subsection \<open>Steps outside the loop\<close>

text \<open>While another thread is in the section, steps outside of it don't look at its owner.\<close>

lemma tc_step_pass:
  assumes "tc_step nd ma run t c pc (sh, v) = Some (pc', sh', v')" and "\<not> in_section pc"
    and "lock_live (sh_global sh)" and "sh_owner sh = Some u"
  shows "sh_owner sh' = Some u \<and> \<not> in_section pc' \<and>
    tc_step nd ma run t c pc (sh\<lparr>sh_owner := w\<rparr>, v) = Some (pc', sh'\<lparr>sh_owner := w\<rparr>, v')"
  using assms
  by (cases c; cases pc)
    (auto simp: tc_step_def tc_step_defs in_section_def split: if_splits prod.splits sum.splits)

lemma nested_as_step:
  assumes "nested_tc_step nd ma t c pc sh = Some (pc', sh')" and "lock_live (sh_global sh)"
    and key: "call_key c = Some key" "key \<noteq> 0" and at: "tc_at c pc k" and alloc: "\<And>n. ma n"
  shows "sh_owner sh' = sh_owner sh \<and>
    tc_step nd ma run n c pc (sh\<lparr>sh_owner := (if in_section pc then Some n else None)\<rparr>, v) =
      Some (pc', sh'\<lparr>sh_owner := (if in_section pc' then Some n else None)\<rparr>, v)"
proof (cases c)
  case (Do_create key' f)
  then have "key' \<noteq> 0" using key by simp
  with add_result [of ma key' nd "g_table (sh_global sh)" f] alloc obtain p' where
    "destructor_table_add_destructor_for_key nd ma (g_table (sh_global sh)) f key' = Inr (0, p')" by blast
  with assms Do_create show ?thesis
    by (auto simp: nested_tc_step_def tc_step_def tc_step_defs tc_at_simps split: if_splits prod.splits)
next
  case (Do_free key')
  with assms show ?thesis
    by (auto simp: nested_tc_step_def tc_step_def tc_step_defs tc_at_simps split: if_splits prod.splits)
qed (use key in simp_all)

subsection \<open>The invariant is kept\<close>

lemma cb_put_simps [simp]:
  "cb_tc (cb_put moves tc s) = tc" "cb_loops (cb_put moves tc s) = cb_loops s"
  "cb_stale (cb_put moves tc s) = cb_stale s"
  by (simp_all add: cb_put_def)

lemma cb_set_simps [simp]:
  "cb_tc (cb_set_loop t l s) = cb_tc s" "cb_loops (cb_set_loop t l s) = (cb_loops s)(t := l)"
  "cb_block (cb_set_loop t l s) = cb_block s" "cb_stale (cb_set_loop t l s) = cb_stale s"
  "cb_tc (cb_set_tls t x s) = (cb_tc s)\<lparr>tc_tls := (tc_tls (cb_tc s))(t := x)\<rparr>"
  "cb_loops (cb_set_tls t x s) = cb_loops s" "cb_block (cb_set_tls t x s) = cb_block s"
  "cb_stale (cb_set_tls t x s) = cb_stale s"
  by (simp_all add: cb_set_loop_def cb_set_tls_def)

lemma tc_begin_simps [simp]:
  "tc_sh (tc_begin t c s) = tc_sh s" "tc_tls (tc_begin t c s) = tc_tls s"
  "tc_act (tc_begin t c s) = (tc_act s)(t := Some \<lparr>ta_call = c, ta_pc = tc_first_pc c\<rparr>)"
  by (cases c; simp add: tc_begin_def Let_def)+

lemma tc_end_simps [simp]:
  "tc_sh (tc_end t c s) = tc_sh s" "tc_tls (tc_end t c s) = tc_tls s"
  "tc_act (tc_end t c s) = (tc_act s)(t := None)" "tc_fun (tc_end t c s) = tc_fun s"
  by (cases c; simp add: tc_end_def Let_def)+

text \<open>The history a call or its return leaves depends on the call and the history alone.\<close>

lemma tc_begin_cong:
  assumes "tc_used s' = tc_used s" and "tc_key s' = tc_key s" and "tc_fun s' = tc_fun s"
  shows "tc_used (tc_begin u c s') = tc_used (tc_begin t c s)"
    and "tc_key (tc_begin u c s') = tc_key (tc_begin t c s)"
    and "tc_fun (tc_begin u c s') = tc_fun (tc_begin t c s)"
  using assms by (cases c; simp add: tc_begin_def Let_def)+

lemma tc_end_cong:
  assumes "tc_used s' = tc_used s" and "tc_key s' = tc_key s"
  shows "tc_used (tc_end u c s') = tc_used (tc_end t c s)"
    and "tc_key (tc_end u c s') = tc_key (tc_end t c s)"
  using assms by (cases c; simp add: tc_end_def Let_def)+

text \<open>Who is where.\<close>

lemma cb_outer_act:
  assumes "cb_inv k0 s" and "tc_act (cb_tc s) t = Some a" and "cb_loops s t = None"
  shows "cb_acts s t = Some a"
  using assms by (auto simp: cb_acts_def cb_inv_def)

lemma cb_looping_act:
  assumes "cb_inv k0 s" and "tc_act (cb_tc s) t = Some a" and "cb_loops s t = Some l"
  shows "cb_acts s t = Some (a\<lparr>ta_pc := E_enter\<rparr>)"
  using assms by (auto simp: cb_acts_def cb_inv_def)

lemma cb_nested_act:
  assumes "cb_inv k0 s" and "cb_loops s t = Some l"
  shows "cb_acts s (nested t) = cl_call l"
  using cb_invD(5) [OF assms] assms(2) by (simp add: cb_acts_def)

lemma cb_looping_owner:
  assumes "cb_inv k0 s" and "cb_loops s t = Some l"
  shows "cb_owner s = (case cl_call l of
    None \<Rightarrow> None | Some c \<Rightarrow> if in_section (ta_pc c) then Some (nested t) else None)"
  using cb_invD(3) [OF assms] assms(2) by (simp add: cb_owner_def)

lemma cb_loop_unique:
  assumes "cb_inv k0 s" and "cb_loops s t = Some l" and "cb_loops s u = Some l'"
  shows "u = t"
  using cb_invD(3) [OF assms(1,2)] cb_invD(3) [OF assms(1,3)] by simp

lemma cb_act_ok:
  assumes "cb_inv k0 s" and "cb_acts s u = Some b"
  shows "tc_act_ok (cb_view s) b"
  using cb_invD(1) [OF assms(1)] assms(2) by (auto simp: tc_inv_def tc_acts_inv_def)

text \<open>After a step of the thread that is in the loop.\<close>

lemma cb_inv_loop:
  assumes inv: "cb_inv k0 s" and l: "cb_loops s t = Some l" and tc: "tc_inv k0 (cb_view s')"
    and s': "tc_act (cb_tc s') = tc_act (cb_tc s)" "sh_owner (tc_sh (cb_tc s')) = Some t"
      "cb_loops s' = (cb_loops s)(t := Some l')" and ok: "loop_ok k0 l'"
  shows "cb_inv k0 s'"
proof -
  have only: "u = t \<and> m = l'" if "cb_loops s' u = Some m" for u m
    using that cb_loop_unique [OF inv l, of u] s'(3) by (cases "u = t") auto
  have "sh_owner (tc_sh (cb_tc s')) = Some u \<and> loop_ok k0 m \<and>
      (\<exists>a. tc_act (cb_tc s') u = Some a \<and> ta_pc a = E_run)" if "cb_loops s' u = Some m" for u m
    using only [OF that] cb_invD(4) [OF inv l] s' ok by simp
  then show ?thesis
    using tc cb_invD(2) [OF inv] by (simp add: cb_inv_def s'(1))
qed

text \<open>The calls of the threads.\<close>

lemma cb_call_inv:
  assumes inv: "cb_inv k0 s" and t: "\<not> bit t 63" and may: "tc_may_call (cb_tc s) t c"
    and keep: "c \<noteq> Do_free k0"
  shows "cb_inv k0 (s\<lparr>cb_tc := tc_begin t c (cb_tc s)\<rparr>)" (is "cb_inv k0 ?s")
proof -
  have idle: "tc_act (cb_tc s) t = None" using may by (simp add: tc_may_call_def)
  have noloop: "cb_loops s t = None"
    using cb_invD(4) [OF inv, of t] idle by (cases "cb_loops s t") auto
  have "tc_may_call (cb_view s) t c"
    using may t idle by (simp add: tc_may_call_def cb_acts_def split: tc_call.splits)
  from tc_call_inv [OF cb_invD(1) [OF inv] this keep]
  have "tc_inv k0 (tc_begin t c (cb_view s))" .
  moreover have "cb_acts ?s = (cb_acts s)(t := Some \<lparr>ta_call = c, ta_pc = tc_first_pc c\<rparr>)"
    using t noloop by (auto simp: cb_acts_def fun_eq_iff)
  moreover have "cb_owner ?s = cb_owner s" by (simp add: cb_owner_def cong: option.case_cong)
  ultimately have "tc_inv k0 (cb_view ?s)"
    by (elim tc_inv_cong) (simp_all add: tc_begin_cong [of "cb_tc s" "cb_view s"])
  moreover have "t \<noteq> u" if "cb_loops s u = Some l" for u l using noloop that by auto
  ultimately show ?thesis
    using inv t by (auto simp: cb_inv_def)
qed

text \<open>The steps of a thread that is not in the loop.\<close>

lemma cb_return_inv:
  assumes inv: "cb_inv k0 s" and a: "tc_act (cb_tc s) t = Some a" and pc: "ta_pc a = Returned r"
  shows "cb_inv k0 (cb_put moves (tc_end t (ta_call a) (cb_tc s)) s)" (is "cb_inv k0 ?s")
proof -
  have t: "\<not> bit t 63" by (rule cb_invD(2) [OF inv a])
  have noloop: "cb_loops s t = None"
    using cb_invD(4) [OF inv, of t] a pc by (cases "cb_loops s t") auto
  have "tc_act (cb_view s) t = Some a" using cb_outer_act [OF inv a noloop] by simp
  from tc_end_inv [OF cb_invD(1) [OF inv] this pc]
  have "tc_inv k0 (tc_end t (ta_call a) (cb_view s))" .
  moreover have "cb_acts ?s = (cb_acts s)(t := None)"
    using t noloop by (auto simp: cb_acts_def fun_eq_iff)
  moreover have "cb_owner ?s = cb_owner s" by (simp add: cb_owner_def cong: option.case_cong)
  ultimately have "tc_inv k0 (cb_view ?s)"
    by (elim tc_inv_cong) (simp_all add: tc_end_cong [of "cb_tc s" "cb_view s"])
  then show ?thesis using inv noloop by (auto simp: cb_inv_def)
qed

lemma cb_plain_step_inv:
  assumes inv: "cb_inv k0 s" and a: "tc_act (cb_tc s) t = Some a" and pc: "ta_pc a \<noteq> E_run"
    and alloc: "\<And>n. ma n"
    and step: "tc_step nd ma run t (ta_call a) (ta_pc a) (tc_sh (cb_tc s), tc_tls (cb_tc s) t) =
      Some (pc', sh', v')"
  shows "cb_inv k0 (cb_put moves (tc_after t a pc' sh' v' (cb_tc s)) s)" (is "cb_inv k0 ?s")
proof -
  let ?sh = "tc_sh (cb_tc s)"
  have t: "\<not> bit t 63" by (rule cb_invD(2) [OF inv a])
  have noloop: "cb_loops s t = None"
    using cb_invD(4) [OF inv, of t] a pc by (cases "cb_loops s t") auto
  have act: "tc_act (cb_view s) t = Some a" using cb_outer_act [OF inv a noloop] by simp
  have lock: "cb_owner s = Some t \<longleftrightarrow> in_section (ta_pc a)"
    using cb_invD(1) [OF inv] act by (auto simp: tc_inv_def tc_lock_inv_def)
  have "tc_step nd ma run t (ta_call a) (ta_pc a) (tc_sh (cb_view s), tc_tls (cb_tc s) t) =
      Some (pc', sh'\<lparr>sh_owner := cb_owner ?s\<rparr>, v') \<and>
    (\<forall>u l. cb_loops s u = Some l \<longrightarrow> sh_owner sh' = Some u)"
  proof (cases "\<exists>u l. cb_loops s u = Some l")
    case True
    then obtain u l where u: "cb_loops s u = Some l" by blast
    have owner: "sh_owner ?sh = Some u" by (rule cb_invD(3) [OF inv u])
    have "cb_owner s \<noteq> Some t" using cb_looping_owner [OF inv u] t by (auto split: option.splits)
    with lock have "\<not> in_section (ta_pc a)" by simp
    note pass = tc_step_pass [OF step this cb_live [OF inv] owner]
    then have "cb_owner ?s = cb_owner s" using owner by (simp add: cb_owner_def)
    with pass cb_loop_unique [OF inv u] show ?thesis by auto
  next
    case False
    then have no: "cb_loops s u = None" for u by (cases "cb_loops s u") auto
    then have "cb_owner s = sh_owner ?sh" "cb_owner ?s = sh_owner sh'"
      by (auto simp: cb_owner_def split: option.splits)
    with step no show ?thesis by simp
  qed
  then have step': "tc_step nd ma run t (ta_call a) (ta_pc a) (tc_sh (cb_view s), tc_tls (cb_tc s) t) =
      Some (pc', sh'\<lparr>sh_owner := cb_owner ?s\<rparr>, v')"
    and loops: "\<And>u l. cb_loops s u = Some l \<Longrightarrow> sh_owner sh' = Some u" by auto
  from tc_step_inv [OF cb_invD(1) [OF inv] act alloc step']
  have "tc_inv k0 (tc_after t a pc' (sh'\<lparr>sh_owner := cb_owner ?s\<rparr>) v' (cb_view s))" .
  moreover have "cb_acts ?s = (cb_acts s)(t := Some (a\<lparr>ta_pc := pc'\<rparr>))"
    using t noloop by (auto simp: cb_acts_def fun_eq_iff)
  ultimately have "tc_inv k0 (cb_view ?s)" by (elim tc_inv_cong) simp_all
  moreover have "t \<noteq> u" if "cb_loops s u = Some l" for u l using noloop that by auto
  ultimately show ?thesis using inv t loops by (auto simp: cb_inv_def)
qed

subsection \<open>Steps of the loop\<close>

text \<open>Going into the loop is not a step of the simulated system: there the thread goes back in
  front of the section.\<close>

lemma cb_enter_inv:
  assumes inv: "cb_inv k0 s" and a: "tc_act (cb_tc s) t = Some a" and pc: "ta_pc a = E_run"
    and noloop: "cb_loops s t = None"
  shows "cb_inv k0 (loop_enter t s)" (is "cb_inv k0 ?s")
proof -
  have t: "\<not> bit t 63" by (rule cb_invD(2) [OF inv a])
  have act: "cb_acts s t = Some a" by (rule cb_outer_act [OF inv a noloop])
  have tc: "tc_inv k0 (cb_view s)" by (rule cb_invD(1) [OF inv])
  have own: "cb_owner s = Some t"
    using tc act pc by (auto simp: tc_inv_def tc_lock_inv_def)
  have conc: "sh_owner (tc_sh (cb_tc s)) = Some t"
    using own t by (auto simp: cb_owner_def split: option.splits if_splits)
  have ok: "tc_act_ok (cb_view s) a" by (rule cb_act_ok [OF inv act])
  have key: "call_key (ta_call a) = None"
    using ok pc by (cases "ta_call a") (auto simp: tc_act_ok_def tc_at_simps)
  have "tc_inv k0 (tc_after t a E_enter ((tc_sh (cb_view s))\<lparr>sh_owner := None\<rparr>) (tc_tls (cb_tc s) t) (cb_view s))"
  proof (rule tc_assemble [OF tc])
    show "tc_act (cb_view s) t = Some a" by (simp add: act)
    show "tc_act_ok (tc_after t a E_enter ((tc_sh (cb_view s))\<lparr>sh_owner := None\<rparr>) (tc_tls (cb_tc s) t) (cb_view s))
        (a\<lparr>ta_pc := E_enter\<rparr>)"
      using ok pc by (cases "ta_call a") (auto simp: tc_act_ok_def tc_at_simps)
    show "tc_shared_ok (tc_used (cb_view s)) (tc_note (ta_call a) (ta_pc a) (tc_key (cb_view s)))
        (tc_fun (cb_view s)) ((tc_sh (cb_view s))\<lparr>sh_owner := None\<rparr>)"
      using tc by (simp add: tc_inv_def tc_shared_ok_def note_nothing [OF key])
    show "owner_step t E_enter (tc_sh (cb_view s)) ((tc_sh (cb_view s))\<lparr>sh_owner := None\<rparr>)"
      using own by (simp add: owner_step_def)
  qed
  moreover have "cb_owner ?s = None" using conc by (simp add: cb_owner_def loop_enter_def)
  moreover have "cb_acts ?s = (cb_acts s)(t := Some (a\<lparr>ta_pc := E_enter\<rparr>))"
    using t noloop a by (auto simp: cb_acts_def fun_eq_iff loop_enter_def)
  ultimately have "tc_inv k0 (cb_view ?s)"
    by (elim tc_inv_cong) (simp_all add: note_nothing [OF key], simp_all add: loop_enter_def)
  then show ?thesis
    using inv conc a pc by (auto simp: cb_inv_def loop_enter_def loop_ok_def)
qed

lemma cb_leave_inv:
  assumes inv: "cb_inv k0 s" and a: "tc_act (cb_tc s) t = Some a" and pc: "ta_pc a = E_run"
    and l: "cb_loops s t = Some l" "cl_call l = None"
  shows "cb_inv k0 (loop_leave t a s)" (is "cb_inv k0 ?s")
proof -
  let ?a = "a\<lparr>ta_pc := E_enter\<rparr>" and ?sh = "(tc_sh (cb_view s))\<lparr>sh_owner := Some t\<rparr>"
    and ?v = "tc_tls (cb_tc s) t"
  have t: "\<not> bit t 63" by (rule cb_invD(2) [OF inv a])
  have act: "cb_acts s t = Some ?a" by (rule cb_looping_act [OF inv a l(1)])
  have tc: "tc_inv k0 (cb_view s)" by (rule cb_invD(1) [OF inv])
  have own: "cb_owner s = None" using cb_looping_owner [OF inv l(1)] l(2) by simp
  have conc: "sh_owner (tc_sh (cb_tc s)) = Some t" by (rule cb_invD(3) [OF inv l(1)])
  have ok: "tc_act_ok (cb_view s) ?a" by (rule cb_act_ok [OF inv act])
  have key: "call_key (ta_call a) = None"
    using ok by (cases "ta_call a") (auto simp: tc_act_ok_def tc_at_simps)
  have "tc_inv k0 (tc_after t ?a E_leave ?sh ?v (cb_view s))"
  proof (rule tc_assemble [OF tc])
    show "tc_act (cb_view s) t = Some ?a" by (simp add: act)
    show "tc_act_ok (tc_after t ?a E_leave ?sh ?v (cb_view s)) (?a\<lparr>ta_pc := E_leave\<rparr>)"
      using ok by (cases "ta_call a") (auto simp: tc_act_ok_def tc_at_simps)
    show "tc_shared_ok (tc_used (cb_view s)) (tc_note (ta_call ?a) (ta_pc ?a) (tc_key (cb_view s)))
        (tc_fun (cb_view s)) ?sh"
      using tc key by (simp add: tc_inv_def tc_shared_ok_def note_nothing)
    show "owner_step t E_leave (tc_sh (cb_view s)) ?sh"
      using own by (simp add: owner_step_def)
  qed
  moreover have "cb_owner ?s = Some t" using conc by (simp add: cb_owner_def loop_leave_def)
  moreover have "cb_acts ?s = (cb_acts s)(t := Some (a\<lparr>ta_pc := E_leave\<rparr>))"
    using t l by (auto simp: cb_acts_def fun_eq_iff loop_leave_def)
  ultimately have "tc_inv k0 (cb_view ?s)"
    by (elim tc_inv_cong) (simp_all add: note_nothing [OF key], simp_all add: loop_leave_def)
  moreover have none: "cb_loops ?s u = None" for u
    using cb_loop_unique [OF inv l(1), of u] by (cases "cb_loops s u") (auto simp: loop_leave_def)
  ultimately show ?thesis
    using t cb_invD(2) [OF inv] by (auto simp: cb_inv_def none, simp add: loop_leave_def split: if_splits)
qed

text \<open>Steps of the loop itself change values of the thread alone.\<close>

lemma cb_local_inv:
  assumes inv: "cb_inv k0 s" and l: "cb_loops s t = Some l" "cl_call l' = cl_call l" "loop_ok k0 l'"
    and s': "cb_tc s' = (cb_tc s)\<lparr>tc_tls := v\<rparr>" "cb_loops s' = (cb_loops s)(t := Some l')"
  shows "cb_inv k0 s'"
proof -
  have "cb_acts s' = cb_acts s" using l s' by (auto simp: cb_acts_def fun_eq_iff)
  moreover have "cb_owner s' = cb_owner s"
    using l s' by (auto simp: cb_owner_def split: option.splits)
  ultimately have "tc_inv k0 (cb_view s')"
    by (intro tc_inv_cong [OF cb_invD(1) [OF inv]]) (simp_all add: s')
  from this s'(1,2) l(3) cb_invD(3) [OF inv l(1)] show ?thesis
    by (intro cb_inv_loop [OF inv l(1)]) simp_all
qed

lemma cb_set_tls_inv:
  assumes inv: "cb_inv k0 s"
  shows "cb_inv k0 (cb_set_tls t v s)"
proof -
  have "tc_inv k0 (cb_view (cb_set_tls t v s))"
    by (rule tc_inv_cong [OF cb_invD(1) [OF inv]])
      (simp_all add: cb_acts_def cb_owner_def fun_eq_iff cong: option.case_cong)
  then show ?thesis using inv by (simp add: cb_inv_def)
qed

lemma nest_call_inv:
  assumes inv: "cb_inv k0 s" and l: "cb_loops s t = Some l0" "cl_call l0 = None" "cl_call l = None"
    and keep: "D_free k0 \<notin> set (cl_cmds l)" "c \<noteq> Do_free k0" "call_key c \<noteq> None"
    and step: "nest_call t c l s = Some s'"
  shows "cb_inv k0 s'"
proof -
  have t: "\<not> bit t 63" by (rule cb_invD(5) [OF inv l(1)])
  have may: "tc_may_call ((cb_tc s)\<lparr>tc_act := (tc_act (cb_tc s))(t := None)\<rparr>) t c"
    and s': "s' = cb_set_loop t (Some (l\<lparr>cl_call := Some \<lparr>ta_call = c, ta_pc = tc_first_pc c\<rparr>\<rparr>))
        (s\<lparr>cb_tc := (tc_begin t c (cb_tc s))\<lparr>tc_act := tc_act (cb_tc s)\<rparr>\<rparr>)"
    using step by (auto simp: nest_call_def Let_def split: if_splits)
  have "cb_acts s (nested t) = None" using cb_nested_act [OF inv l(1)] l(2) by simp
  then have "tc_may_call (cb_view s) (nested t) c"
    using may by (simp add: tc_may_call_def split: tc_call.splits)
  from tc_call_inv [OF cb_invD(1) [OF inv] this keep(2)]
  have "tc_inv k0 (tc_begin (nested t) c (cb_view s))" .
  moreover have "cb_acts s' = (cb_acts s)(nested t := Some \<lparr>ta_call = c, ta_pc = tc_first_pc c\<rparr>)"
    using t l(1) nested_neq nested_simps by (auto simp: s' cb_acts_def fun_eq_iff)
  moreover have "cb_owner s' = cb_owner s"
    using l cb_invD(3) [OF inv l(1)]
    by (cases c) (simp_all add: s' cb_owner_def tc_first_pc_def)
  ultimately have "tc_inv k0 (cb_view s')"
    by (elim tc_inv_cong) (simp_all add: s' tc_begin_cong [of "cb_tc s" "cb_view s"])
  from this keep cb_invD(3) [OF inv l(1)] show ?thesis
    by (intro cb_inv_loop [OF inv l(1),
      where l' = "l\<lparr>cl_call := Some \<lparr>ta_call = c, ta_pc = tc_first_pc c\<rparr>\<rparr>"]) (simp_all add: s' loop_ok_def)
qed

lemma nest_return_inv:
  assumes inv: "cb_inv k0 s" and l: "cb_loops s t = Some l" "cl_call l = Some c"
    and pc: "ta_pc c = Returned r" and step: "nest_step nd ma moves t c l s = Some s'"
  shows "cb_inv k0 s'"
proof -
  have t: "\<not> bit t 63" by (rule cb_invD(5) [OF inv l(1)])
  have s': "s' = cb_set_loop t (Some (l\<lparr>cl_call := None\<rparr>))
      (s\<lparr>cb_tc := (tc_end t (ta_call c) (cb_tc s))\<lparr>tc_act := tc_act (cb_tc s)\<rparr>\<rparr>)"
    using step pc by (simp add: nest_step_def Let_def)
  have "tc_act (cb_view s) (nested t) = Some c" using cb_nested_act [OF inv l(1)] l(2) by simp
  from tc_end_inv [OF cb_invD(1) [OF inv] this pc]
  have "tc_inv k0 (tc_end (nested t) (ta_call c) (cb_view s))" .
  moreover have "cb_acts s' = (cb_acts s)(nested t := None)"
    using t l(1) nested_neq nested_simps by (auto simp: s' cb_acts_def fun_eq_iff)
  moreover have "cb_owner s' = cb_owner s"
    using l pc cb_invD(3) [OF inv l(1)] by (simp add: s' cb_owner_def)
  ultimately have "tc_inv k0 (cb_view s')"
    by (elim tc_inv_cong) (simp_all add: s' tc_end_cong [of "cb_tc s" "cb_view s"])
  from this cb_invD(3,6) [OF inv l(1)] show ?thesis
    by (intro cb_inv_loop [OF inv l(1), where l' = "l\<lparr>cl_call := None\<rparr>"])
      (simp_all add: s' loop_ok_def)
qed

lemma nest_step_inv:
  assumes inv: "cb_inv k0 s" and l: "cb_loops s t = Some l" "cl_call l = Some c"
    and alloc: "\<And>n. ma n" and step: "nest_step nd ma moves t c l s = Some s'"
  shows "cb_inv k0 s'"
proof (cases "\<exists>r. ta_pc c = Returned r")
  case True
  then show ?thesis using nest_return_inv [OF inv l _ step] by blast
next
  case False
  let ?sh = "tc_sh (cb_tc s)" and ?v = "tc_tls (cb_tc s) (nested t)"
  have t: "\<not> bit t 63" by (rule cb_invD(5) [OF inv l(1)])
  obtain pc' sh' where n: "nested_tc_step nd ma t (ta_call c) (ta_pc c) ?sh = Some (pc', sh')"
    and s': "s' = cb_set_loop t (Some (l\<lparr>cl_call := Some (c\<lparr>ta_pc := pc'\<rparr>)\<rparr>))
      (cb_put moves ((cb_tc s)\<lparr>tc_sh := sh', tc_key := tc_note (ta_call c) (ta_pc c) (tc_key (cb_tc s))\<rparr>) s)"
    using step False by (auto simp: nest_step_def Let_def split: tc_pc.splits option.splits)
  have act: "tc_act (cb_view s) (nested t) = Some c" using cb_nested_act [OF inv l(1)] l(2) by simp
  have ok: "tc_act_ok (cb_view s) c" by (rule cb_act_ok [OF inv]) (use act in simp)
  obtain key where key: "call_key (ta_call c) = Some key" "key \<noteq> 0"
    "tc_at (ta_call c) (ta_pc c) (tc_key (cb_tc s) key)"
    using ok cb_invD(6) [OF inv l(1)] l(2) by (auto simp: tc_act_ok_def loop_ok_def)
  have own: "cb_owner s = (if in_section (ta_pc c) then Some (nested t) else None)"
    using cb_looping_owner [OF inv l(1)] l(2) by simp
  from nested_as_step [OF n cb_live [OF inv] key alloc, where n = "nested t" and v = ?v] own
  have own': "sh_owner sh' = sh_owner ?sh" and step':
    "tc_step nd ma run (nested t) (ta_call c) (ta_pc c) (tc_sh (cb_view s), ?v) =
      Some (pc', sh'\<lparr>sh_owner := (if in_section pc' then Some (nested t) else None)\<rparr>, ?v)" for run
    by simp_all
  from tc_step_inv [OF cb_invD(1) [OF inv] act alloc step']
  have "tc_inv k0 (tc_after (nested t) c pc'
    (sh'\<lparr>sh_owner := (if in_section pc' then Some (nested t) else None)\<rparr>) ?v (cb_view s))" .
  moreover have "cb_acts s' = (cb_acts s)(nested t := Some (c\<lparr>ta_pc := pc'\<rparr>))"
    using t l(1) nested_neq nested_simps by (auto simp: s' cb_acts_def fun_eq_iff)
  moreover have "cb_owner s' = (if in_section pc' then Some (nested t) else None)"
    using l cb_invD(3) [OF inv l(1)] own' by (simp add: s' cb_owner_def)
  ultimately have "tc_inv k0 (cb_view s')"
    by (elim tc_inv_cong) (simp_all add: s')
  from this cb_invD(3,6) [OF inv l(1)] own' l(2) show ?thesis
    by (intro cb_inv_loop [OF inv l(1), where l' = "l\<lparr>cl_call := Some (c\<lparr>ta_pc := pc'\<rparr>)\<rparr>"])
      (simp_all add: s' loop_ok_def)
qed

lemma dtor_step_inv:
  assumes inv: "cb_inv k0 s" and l: "cb_loops s t = Some l" "cl_call l = None" "cl_cmds l = x # xs"
    and step: "dtor_step t x (l\<lparr>cl_cmds := xs\<rparr>) s = Some s'"
  shows "cb_inv k0 s'"
proof -
  let ?l = "l\<lparr>cl_cmds := xs\<rparr>"
  have keep: "x \<noteq> D_free k0" "D_free k0 \<notin> set xs" and ok: "loop_ok k0 ?l"
    using cb_invD(6) [OF inv l(1)] l by (auto simp: loop_ok_def)
  have same: "cb_inv k0 (cb_set_loop t (Some ?l) s)"
    by (rule cb_local_inv [OF inv l(1) _ ok, where v = "tc_tls (cb_tc s)"]) simp_all
  show ?thesis
  proof (cases x)
    case (D_set key val)
    with step have s': "s' = cb_set_loop t (Some ?l)
        (cb_set_tls t (snd (win_mulle_thread_tss_set True key val (tc_tls (cb_tc s) t))) s)"
      by (simp add: dtor_step_def)
    show ?thesis unfolding s' by (rule cb_local_inv [OF inv l(1) _ ok]) simp_all
  next
    case (D_create index f)
    have "cb_inv k0 s'" if "nest_call t (Do_create index f) ?l s = Some s'"
      by (rule nest_call_inv [OF inv l(1,2) _ _ _ _ that]) (use l keep in simp_all)
    with step same D_create show ?thesis by (auto simp: dtor_step_def split: if_splits)
  next
    case (D_free key)
    have "cb_inv k0 s'" if "nest_call t (Do_free key) ?l s = Some s'"
      by (rule nest_call_inv [OF inv l(1,2) _ _ _ _ that]) (use l keep D_free in simp_all)
    with step D_free show ?thesis by (simp add: dtor_step_def)
  qed
qed

definition prog_keeps :: "dword \<Rightarrow> dtor_prog \<Rightarrow> bool" where
  "prog_keeps k0 prog \<longleftrightarrow> (\<forall>f v. D_free k0 \<notin> set (prog f v))"

lemma loop_turn_inv:
  assumes inv: "cb_inv k0 s" and l: "cb_loops s t = Some l" "cl_call l = None" "cl_cmds l = []"
    and prog: "prog_keeps k0 prog"
  shows "cb_inv k0 (loop_turn prog t l s)"
proof -
  have stale: "cb_inv k0 (s\<lparr>cb_stale := True\<rparr>)"
    by (rule cb_local_inv [OF inv l(1) refl, where v = "tc_tls (cb_tc s)"])
      (use l(1) cb_invD(6) [OF inv l(1)] in auto)
  have next': "cb_inv k0 (cb_set_loop t (Some (l\<lparr>cl_i := i\<rparr>)) s)" for i
    by (rule cb_local_inv [OF inv l(1), where v = "tc_tls (cb_tc s)"])
      (use cb_invD(6) [OF inv l(1)] in \<open>simp_all add: loop_ok_def\<close>)
  have called: "cb_inv k0 (cb_set_loop t (Some (l\<lparr>cl_i := i, cl_cmds := prog f v\<rparr>)) (cb_set_tls t x s))"
    for i f v x
    by (rule cb_local_inv [OF inv l(1)])
      (use cb_invD(6) [OF inv l(1)] prog in \<open>simp_all add: loop_ok_def prog_keeps_def\<close>)
  show ?thesis
    by (auto simp: loop_turn_def Let_def stale next' called split: option.split)
qed

subsection \<open>Moves\<close>

definition cb_keeps :: "dword \<Rightarrow> cb_move \<Rightarrow> bool" where
  "cb_keeps k0 mv \<longleftrightarrow> (\<forall>t. mv \<noteq> Cb_call t (Do_free k0))"

text \<open>The kinds of steps.\<close>

lemma cb_exec_step:
  assumes "cb_exec nd ma moves prog (Cb_step t) s = Some s'"
  obtains (enter) a where "tc_act (cb_tc s) t = Some a" and "ta_pc a = E_run" and "cb_loops s t = None"
      and "s' = loop_enter t s"
    | (nested) a l c where "tc_act (cb_tc s) t = Some a" and "ta_pc a = E_run" and "cb_loops s t = Some l"
      and "cl_call l = Some c" and "nest_step nd ma moves t c l s = Some s'"
    | (dtor) a l x xs where "tc_act (cb_tc s) t = Some a" and "ta_pc a = E_run" and "cb_loops s t = Some l"
      and "cl_call l = None" and "cl_cmds l = x # xs" and "dtor_step t x (l\<lparr>cl_cmds := xs\<rparr>) s = Some s'"
    | (turn) a l where "tc_act (cb_tc s) t = Some a" and "ta_pc a = E_run" and "cb_loops s t = Some l"
      and "cl_call l = None" and "cl_cmds l = []" and "cl_i l < cl_n l" and "s' = loop_turn prog t l s"
    | (leave) a l where "tc_act (cb_tc s) t = Some a" and "ta_pc a = E_run" and "cb_loops s t = Some l"
      and "cl_call l = None" and "cl_cmds l = []" and "\<not> cl_i l < cl_n l" and "s' = loop_leave t a s"
    | (ret) a r where "tc_act (cb_tc s) t = Some a" and "ta_pc a = Returned r"
      and "s' = cb_put moves (tc_end t (ta_call a) (cb_tc s)) s"
    | (plain) a pc' sh' v' where "tc_act (cb_tc s) t = Some a" and "ta_pc a \<noteq> E_run"
      and "tc_step nd ma (\<lambda>f v m. m) t (ta_call a) (ta_pc a) (tc_sh (cb_tc s), tc_tls (cb_tc s) t) =
        Some (pc', sh', v')"
      and "s' = cb_put moves (tc_after t a pc' sh' v' (cb_tc s)) s"
proof (cases "tc_act (cb_tc s) t")
  case None
  with assms show ?thesis by simp
next
  case (Some a)
  show ?thesis
  proof (cases "ta_pc a = E_run")
    case True
    show ?thesis
    proof (cases "cb_loops s t")
      case None
      with Some True assms enter show ?thesis by auto
    next
      case l: (Some l)
      with Some True assms have "loop_step nd ma moves prog t a l s = Some s'" by simp
      with Some True l nested dtor turn leave show ?thesis
        by (auto simp: loop_step_def split: option.splits list.splits if_splits)
    qed
  next
    case False
    with Some assms obtain tc where
      tc: "tc_exec nd ma (\<lambda>f v m. m) (Tc_step t) (cb_tc s) = Some tc" and s': "s' = cb_put moves tc s"
      by (auto simp del: tc_exec.simps)
    from tc show ?thesis
    proof (cases rule: tc_exec_step)
      case (ret a r)
      then show ?thesis using that(6) s' by blast
    next
      case (step b pc' sh' v')
      then show ?thesis using that(7) [of b] s' False Some by auto
    qed
  qed
qed

lemma cb_exec_inv:
  assumes inv: "cb_inv k0 s" and keep: "cb_keeps k0 mv" "prog_keeps k0 prog" and alloc: "\<And>n. ma n"
    and exec: "cb_exec nd ma moves prog mv s = Some s'"
  shows "cb_inv k0 s'"
proof (cases mv)
  case (Cb_call t c)
  with exec keep(1) cb_call_inv [OF inv, of t c] show ?thesis
    by (auto simp: cb_keeps_def split: if_splits)
next
  case (Cb_set t key val)
  with exec have "s' = cb_set_tls t (snd (win_mulle_thread_tss_set True key val (tc_tls (cb_tc s) t))) s"
    by (simp split: if_splits)
  then show ?thesis using cb_set_tls_inv [OF inv] by simp
next
  case (Cb_step t)
  with exec have "cb_exec nd ma moves prog (Cb_step t) s = Some s'" by simp
  then show ?thesis
  proof (cases rule: cb_exec_step)
    case (enter a)
    then show ?thesis using cb_enter_inv [OF inv] by blast
  next
    case (nested a l c)
    show ?thesis by (rule nest_step_inv [OF inv nested(3,4) _ nested(5)]) (rule alloc)
  next
    case (dtor a l x xs)
    then show ?thesis using dtor_step_inv [OF inv] by blast
  next
    case (turn a l)
    then show ?thesis using loop_turn_inv [OF inv _ _ _ keep(2)] by blast
  next
    case (leave a l)
    then show ?thesis using cb_leave_inv [OF inv] by blast
  next
    case (ret a r)
    then show ?thesis using cb_return_inv [OF inv] by blast
  next
    case (plain a pc' sh' v')
    show ?thesis unfolding plain(4) by (rule cb_plain_step_inv [OF inv plain(1,2) _ plain(3)]) (rule alloc)
  qed
qed

lemma cb_run_inv:
  assumes "cb_inv k0 s" and "list_all (cb_keeps k0) mvs" and "prog_keeps k0 prog" and "\<And>n. ma n"
    and "cb_run nd ma moves prog mvs s = Some s'"
  shows "cb_inv k0 s'"
  using assms(1,2,5)
proof (induction mvs arbitrary: s)
  case (Cons mv mvs)
  then obtain s1 where s1: "cb_exec nd ma moves prog mv s = Some s1"
    "cb_run nd ma moves prog mvs s1 = Some s'"
    by (auto split: option.splits)
  have "cb_inv k0 s1"
    by (rule cb_exec_inv [of k0 s mv prog ma nd moves]) (use Cons.prems assms(3,4) s1 in simp_all)
  with Cons.IH [OF this] Cons.prems(2) s1(2) show ?case by simp
qed simp

subsection \<open>The block under the loop\<close>

text \<open>The calls inside the loop leave the table where it is if \<open>realloc\<close> doesn't move it, or if
  destructors create no keys.\<close>

definition only_frees :: "cb_loop \<Rightarrow> bool" where
  "only_frees l \<longleftrightarrow> (\<forall>i f. D_create i f \<notin> set (cl_cmds l)) \<and>
     (\<forall>c i f. cl_call l = Some c \<longrightarrow> ta_call c \<noteq> Do_create i f)"

definition stays_put :: "(nat \<Rightarrow> bool) \<Rightarrow> dtor_prog \<Rightarrow> bool" where
  "stays_put moves prog \<longleftrightarrow> (\<forall>n. \<not> moves n) \<or> (\<forall>f v i g. D_create i g \<notin> set (prog f v))"

definition loop_fresh :: "(nat \<Rightarrow> bool) \<Rightarrow> cb_sys \<Rightarrow> cb_loop \<Rightarrow> bool" where
  "loop_fresh moves s l \<longleftrightarrow> ((\<forall>n. \<not> moves n) \<or> only_frees l) \<and>
     (cl_n l > 0 \<longrightarrow> cb_table (cb_tc s) \<noteq> None \<and> cl_block l = cb_block s)"

definition cb_fresh :: "(nat \<Rightarrow> bool) \<Rightarrow> cb_sys \<Rightarrow> bool" where
  "cb_fresh moves s \<longleftrightarrow> \<not> cb_stale s \<and> (\<forall>t l. cb_loops s t = Some l \<longrightarrow> loop_fresh moves s l)"

lemma cb_block_same: "cb_table tc = cb_table (cb_tc s) \<Longrightarrow> cb_block (cb_put moves tc s) = cb_block s"
  by (simp add: cb_put_def block_changes_def split: option.splits)

lemma outside_keeps_table:
  assumes "tc_step nd ma run t c pc (sh, v) = Some (pc', sh', v')" and "tc_at c pc k"
    and "\<not> in_section pc"
  shows "g_table (sh_global sh') = g_table (sh_global sh)"
  using assms
  by (cases c) (auto simp: tc_step_def tc_step_defs tc_at_simps mulle_thread_tss_init_def
    mulle_thread_tss_done_def Let_def split: if_splits)

lemma nested_keeps_table:
  assumes step: "nested_tc_step nd ma t c pc sh = Some (pc', sh')" and at: "tc_at c pc k"
    and key: "call_key c = Some key" and table: "g_table (sh_global sh) = Some p"
    and put: "(\<forall>n. \<not> moves n) \<or> (\<forall>i f. c \<noteq> Do_create i f)" and alloc: "\<And>n. ma n"
  shows "g_table (sh_global sh') \<noteq> None \<and>
    \<not> block_changes moves (g_table (sh_global sh)) (g_table (sh_global sh'))"
proof (cases c)
  case (Do_create i f)
  with assms show ?thesis
    by (auto simp: nested_tc_step_def tc_step_defs tc_at_simps block_changes_def c_assert_def
      destructor_table_add_destructor_for_key_def destructor_table_grow_def
      mulle_thread_tss_init_def Let_def split: if_splits option.splits sum.splits)
next
  case (Do_free i)
  have same: "dt_size (remove_from 0 i p) = dt_size p" using remove_from_list [of 0 p i] by simp
  show ?thesis
    using step at table unfolding Do_free
    by (auto simp: nested_tc_step_def tc_step_defs tc_at_simps block_changes_def same
      destructor_table_remove_destructor_for_key_def mulle_thread_tss_done_def Let_def split: if_splits)
qed (use key in simp_all)

lemma cb_fresh_loop:
  assumes inv: "cb_inv k0 s" and fresh: "cb_fresh moves s" and l: "cb_loops s t = Some l"
    and s': "cb_loops s' = (cb_loops s)(t := Some l')" "cb_stale s' = cb_stale s" "loop_fresh moves s' l'"
  shows "cb_fresh moves s'"
proof -
  have "m = l'" if m: "cb_loops s' u = Some m" for u m
  proof (cases "u = t")
    case False
    with m s'(1) have "cb_loops s u = Some m" by simp
    from cb_loop_unique [OF inv l this] False show ?thesis by simp
  qed (use m s'(1) in simp)
  with s'(3) have "loop_fresh moves s' m" if "cb_loops s' u = Some m" for u m using that by blast
  moreover have "\<not> cb_stale s'" using fresh s'(2) by (simp add: cb_fresh_def)
  ultimately show ?thesis by (simp add: cb_fresh_def)
qed

lemma nest_step_fresh:
  assumes inv: "cb_inv k0 s" and fresh: "cb_fresh moves s" and l: "cb_loops s t = Some l" "cl_call l = Some c"
    and alloc: "\<And>n. ma n" and step: "nest_step nd ma moves t c l s = Some s'"
  shows "cb_fresh moves s'"
proof (cases "\<exists>r. ta_pc c = Returned r")
  case True
  with step have "s' = cb_set_loop t (Some (l\<lparr>cl_call := None\<rparr>))
      (s\<lparr>cb_tc := (tc_end t (ta_call c) (cb_tc s))\<lparr>tc_act := tc_act (cb_tc s)\<rparr>\<rparr>)"
    by (auto simp: nest_step_def Let_def)
  with fresh l show ?thesis
    by (intro cb_fresh_loop [OF inv fresh l(1), where l' = "l\<lparr>cl_call := None\<rparr>"])
      (auto simp: cb_fresh_def loop_fresh_def only_frees_def)
next
  case False
  obtain pc' sh' where n: "nested_tc_step nd ma t (ta_call c) (ta_pc c) (tc_sh (cb_tc s)) = Some (pc', sh')"
    and s': "s' = cb_set_loop t (Some (l\<lparr>cl_call := Some (c\<lparr>ta_pc := pc'\<rparr>)\<rparr>))
      (cb_put moves ((cb_tc s)\<lparr>tc_sh := sh', tc_key := tc_note (ta_call c) (ta_pc c) (tc_key (cb_tc s))\<rparr>) s)"
    using step False by (auto simp: nest_step_def Let_def split: tc_pc.splits option.splits)
  have "tc_act_ok (cb_view s) c"
    by (rule cb_act_ok [OF inv]) (use cb_nested_act [OF inv l(1)] l(2) in simp)
  then obtain key where key: "call_key (ta_call c) = Some key" and
    at: "tc_at (ta_call c) (ta_pc c) (tc_key (cb_tc s) key)"
    using cb_invD(6) [OF inv l(1)] l(2) by (auto simp: tc_act_ok_def loop_ok_def)
  have f: "loop_fresh moves s l" using fresh l(1) by (simp add: cb_fresh_def)
  then have put: "(\<forall>n. \<not> moves n) \<or> (\<forall>i f. ta_call c \<noteq> Do_create i f)"
    using l(2) by (auto simp: loop_fresh_def only_frees_def)
  have "loop_fresh moves s' (l\<lparr>cl_call := Some (c\<lparr>ta_pc := pc'\<rparr>)\<rparr>)"
    using f l(2) nested_keeps_table [OF n at key _ put alloc]
    by (auto simp: loop_fresh_def only_frees_def s' cb_put_def)
  then show ?thesis
    by (rule cb_fresh_loop [OF inv fresh l(1), rotated 2]) (simp_all add: s')
qed

lemma upd_eq_iff: "f(t := x) = f(t := y) \<longleftrightarrow> x = y"
  by (metis fun_upd_same)

lemma dtor_step_fresh:
  assumes inv: "cb_inv k0 s" and fresh: "cb_fresh moves s" and l: "cb_loops s t = Some l" "cl_call l = None" "cl_cmds l = x # xs"
    and step: "dtor_step t x (l\<lparr>cl_cmds := xs\<rparr>) s = Some s'"
  shows "cb_fresh moves s'"
proof -
  have f: "loop_fresh moves s l" using fresh l(1) by (simp add: cb_fresh_def)
  have "\<exists>l'. cb_loops s' = (cb_loops s)(t := Some l') \<and> cb_stale s' = cb_stale s \<and> loop_fresh moves s' l'"
    using step f l(2,3)
    by (cases x) (auto simp: dtor_step_def nest_call_def Let_def loop_fresh_def only_frees_def
      upd_eq_iff split: if_splits)
  then show ?thesis using cb_fresh_loop [OF inv fresh l(1)] by blast
qed

lemma loop_turn_fresh:
  assumes inv: "cb_inv k0 s" and fresh: "cb_fresh moves s" and l: "cb_loops s t = Some l" "cl_call l = None" "cl_cmds l = []"
    and i: "cl_i l < cl_n l" and put: "stays_put moves prog"
  shows "cb_fresh moves (loop_turn prog t l s)"
proof -
  have f: "loop_fresh moves s l" using fresh l(1) by (simp add: cb_fresh_def)
  with i obtain p where p: "cb_table (cb_tc s) = Some p" "cl_block l = cb_block s"
    by (auto simp: loop_fresh_def)
  have "\<exists>l'. cb_loops (loop_turn prog t l s) = (cb_loops s)(t := Some l') \<and>
      cb_stale (loop_turn prog t l s) = cb_stale s \<and> loop_fresh moves (loop_turn prog t l s) l'"
    using f p put l(2,3)
    by (auto simp: loop_turn_def Let_def loop_fresh_def only_frees_def stays_put_def
      upd_eq_iff)
  then show ?thesis using cb_fresh_loop [OF inv fresh l(1)] by blast
qed

lemma cb_plain_fresh:
  assumes inv: "cb_inv k0 s" and fresh: "cb_fresh moves s"
    and a: "tc_act (cb_tc s) t = Some a" and pc: "ta_pc a \<noteq> E_run"
    and step: "tc_step nd ma run t (ta_call a) (ta_pc a) (tc_sh (cb_tc s), tc_tls (cb_tc s) t) =
      Some (pc', sh', v')"
  shows "cb_fresh moves (cb_put moves (tc_after t a pc' sh' v' (cb_tc s)) s)" (is "cb_fresh moves ?s")
proof (cases "\<exists>u l. cb_loops s u = Some l")
  case True
  then obtain u l where u: "cb_loops s u = Some l" by blast
  have t: "\<not> bit t 63" by (rule cb_invD(2) [OF inv a])
  have noloop: "cb_loops s t = None"
    using cb_invD(4) [OF inv, of t] a pc by (cases "cb_loops s t") auto
  have act: "cb_acts s t = Some a" by (rule cb_outer_act [OF inv a noloop])
  have "cb_owner s \<noteq> Some t" using cb_looping_owner [OF inv u] t by (auto split: option.splits)
  then have "\<not> in_section (ta_pc a)"
    using cb_invD(1) [OF inv] act by (auto simp: tc_inv_def tc_lock_inv_def)
  moreover obtain k where "tc_at (ta_call a) (ta_pc a) k"
    using cb_act_ok [OF inv act] by (auto simp: tc_act_ok_def split: option.splits)
  ultimately have same: "g_table (sh_global sh') = cb_table (cb_tc s)"
    using outside_keeps_table [OF step] by blast
  then have "cb_block ?s = cb_block s" by (simp add: cb_block_same)
  with fresh same show ?thesis by (simp add: cb_fresh_def loop_fresh_def)
next
  case False
  with fresh show ?thesis by (auto simp: cb_fresh_def)
qed

lemma cb_exec_fresh:
  assumes inv: "cb_inv k0 s" and fresh: "cb_fresh moves s" and put: "stays_put moves prog"
    and alloc: "\<And>n. ma n" and exec: "cb_exec nd ma moves prog mv s = Some s'"
  shows "cb_fresh moves s'"
proof (cases mv)
  case (Cb_call t c)
  with exec have "s' = s\<lparr>cb_tc := tc_begin t c (cb_tc s)\<rparr>" by (simp split: if_splits)
  with fresh show ?thesis by (simp add: cb_fresh_def loop_fresh_def)
next
  case (Cb_set t key val)
  with exec have "s' = cb_set_tls t (snd (win_mulle_thread_tss_set True key val (tc_tls (cb_tc s) t))) s"
    by (simp split: if_splits)
  with fresh show ?thesis by (simp add: cb_fresh_def loop_fresh_def)
next
  case (Cb_step t)
  with exec have "cb_exec nd ma moves prog (Cb_step t) s = Some s'" by simp
  then show ?thesis
  proof (cases rule: cb_exec_step)
    case (enter a)
    then show ?thesis
      using fresh by (auto simp: cb_fresh_def loop_fresh_def loop_enter_def only_frees_def split: option.splits)
  next
    case (nested a l c)
    show ?thesis by (rule nest_step_fresh [OF inv fresh nested(3,4) _ nested(5)]) (rule alloc)
  next
    case (dtor a l x xs)
    show ?thesis by (rule dtor_step_fresh [OF inv fresh dtor(3-6)])
  next
    case (turn a l)
    then show ?thesis using loop_turn_fresh [OF inv fresh turn(3-6) put] by simp
  next
    case (leave a l)
    then show ?thesis using fresh by (auto simp: cb_fresh_def loop_fresh_def loop_leave_def)
  next
    case (ret a r)
    then have "cb_block s' = cb_block s" by (simp add: cb_block_same)
    with ret fresh show ?thesis by (simp add: cb_fresh_def loop_fresh_def)
  next
    case (plain a pc' sh' v')
    show ?thesis unfolding plain(4) by (rule cb_plain_fresh [OF inv fresh plain(1,2,3)])
  qed
qed

lemma cb_run_fresh:
  assumes "cb_inv k0 s" and "cb_fresh moves s" and "list_all (cb_keeps k0) mvs"
    and "prog_keeps k0 prog" and "stays_put moves prog" and "\<And>n. ma n"
    and "cb_run nd ma moves prog mvs s = Some s'"
  shows "cb_fresh moves s'"
  using assms(1-3,7)
proof (induction mvs arbitrary: s)
  case (Cons mv mvs)
  then obtain s1 where s1: "cb_exec nd ma moves prog mv s = Some s1"
    "cb_run nd ma moves prog mvs s1 = Some s'"
    by (auto split: option.splits)
  have "cb_inv k0 s1"
    by (rule cb_exec_inv [of k0 s mv prog ma nd moves]) (use Cons.prems assms(4,6) s1 in simp_all)
  moreover have "cb_fresh moves s1"
    by (rule cb_exec_fresh [of k0 s moves prog ma nd mv]) (use Cons.prems assms(5,6) s1 in simp_all)
  ultimately show ?case using Cons.IH Cons.prems(3) s1(2) by simp
qed simp

subsection \<open>No thread is stuck\<close>

text \<open>What a destructor may do next: \<open>TlsAlloc\<close> hands out fresh indices, and only keys in use
  are freed.\<close>

definition dtor_may :: "tc_sys \<Rightarrow> dtor_cmd \<Rightarrow> bool" where
  "dtor_may s x =
     (case x of
        D_set key value \<Rightarrow> True
      | D_create index f \<Rightarrow> index = TLS_OUT_OF_INDEXES \<or>
          index \<noteq> 0 \<and> tc_key s index = Unused \<and> length (tc_used s) < 1088
      | D_free key \<Rightarrow> tc_key s key = In_use)"

definition dtors_behave :: "cb_sys \<Rightarrow> bool" where
  "dtors_behave s \<longleftrightarrow> (\<forall>t l x xs. cb_loops s t = Some l \<longrightarrow> cl_call l = None \<longrightarrow> cl_cmds l = x # xs \<longrightarrow>
     dtor_may (cb_tc s) x)"

lemma nested_can_step:
  assumes "tc_at c pc k" and "call_key c \<noteq> None" and "\<forall>r. pc \<noteq> Returned r"
  shows "nested_tc_step nd ma t c pc sh \<noteq> None"
  using assms
  by (cases c) (auto simp: nested_tc_step_def add_tss_step_def remove_tss_step_def tc_at_simps
    split: sum.split prod.split)

lemma dtor_can_step: "dtor_may (cb_tc s) x \<Longrightarrow> dtor_step t x l s \<noteq> None"
  by (cases x) (auto simp: dtor_may_def dtor_step_def nest_call_def tc_may_call_def Let_def)

lemma loop_can_step:
  assumes inv: "cb_inv k0 s" and l: "cb_loops s t = Some l" and may: "dtors_behave s"
  shows "cb_exec nd ma moves prog (Cb_step t) s \<noteq> None"
proof -
  obtain a where a: "tc_act (cb_tc s) t = Some a" "ta_pc a = E_run" using cb_invD(4) [OF inv l] by blast
  have "loop_step nd ma moves prog t a l s \<noteq> None"
  proof (cases "cl_call l")
    case None
    show ?thesis
    proof (cases "cl_cmds l")
      case (Cons x xs)
      then have "dtor_may (cb_tc s) x" using may l None unfolding dtors_behave_def by blast
      with None Cons show ?thesis by (simp add: loop_step_def dtor_can_step)
    qed (simp add: loop_step_def None)
  next
    case (Some c)
    have ok: "tc_act_ok (cb_view s) c"
      by (rule cb_act_ok [OF inv]) (use cb_nested_act [OF inv l] Some in simp)
    have key: "call_key (ta_call c) \<noteq> None" using cb_invD(6) [OF inv l] Some by (simp add: loop_ok_def)
    then obtain k where at: "tc_at (ta_call c) (ta_pc c) k" using ok by (auto simp: tc_act_ok_def)
    have "nest_step nd ma moves t c l s \<noteq> None"
    proof (cases "\<exists>r. ta_pc c = Returned r")
      case False
      with nested_can_step [OF at key, of nd ma t "tc_sh (cb_tc s)"] obtain pc' sh' where
        "nested_tc_step nd ma t (ta_call c) (ta_pc c) (tc_sh (cb_tc s)) = Some (pc', sh')" by auto
      with False show ?thesis by (cases "ta_pc c") (simp_all add: nest_step_def Let_def)
    qed (auto simp: nest_step_def Let_def)
    with Some show ?thesis by (simp add: loop_step_def)
  qed
  with a l show ?thesis by simp
qed

text \<open>The thread that is in the section.\<close>

lemma cb_owner_inside:
  assumes inv: "cb_inv k0 s" and own: "sh_owner (tc_sh (cb_tc s)) = Some u"
  shows "\<exists>b. tc_act (cb_tc s) u = Some b \<and> in_section (ta_pc b)"
proof (cases "cb_loops s u")
  case (Some l)
  from cb_invD(4) [OF inv this] show ?thesis by auto
next
  case None
  then have "cb_owner s = Some u" using own by (simp add: cb_owner_def)
  then obtain b where b: "cb_acts s u = Some b" "in_section (ta_pc b)"
    using cb_invD(1) [OF inv] by (auto simp: tc_inv_def tc_lock_inv_def)
  have "\<not> bit u 63"
  proof
    assume "bit u 63"
    then obtain l where "cb_loops s (outer u) = Some l"
      using b(1) by (cases "cb_loops s (outer u)") (auto simp: cb_acts_def)
    from cb_invD(3) [OF inv this] own \<open>bit u 63\<close> nested_simps(2) [of u] show False by simp
  qed
  with b None show ?thesis by (auto simp: cb_acts_def)
qed

lemma cb_inside_owner:
  assumes inv: "cb_inv k0 s" and a: "tc_act (cb_tc s) t = Some a" "in_section (ta_pc a)"
  shows "sh_owner (tc_sh (cb_tc s)) = Some t"
proof (cases "cb_loops s t")
  case (Some l)
  from cb_invD(3) [OF inv this] show ?thesis .
next
  case None
  have "cb_owner s = Some t"
    using cb_invD(1) [OF inv] cb_outer_act [OF inv a(1) None] a(2)
    by (auto simp: tc_inv_def tc_lock_inv_def)
  with cb_invD(2) [OF inv a(1)] show ?thesis
    by (auto simp: cb_owner_def split: option.splits if_splits)
qed

lemma cb_can_move:
  assumes inv: "cb_inv k0 s" and a: "tc_act (cb_tc s) t = Some a" and may: "dtors_behave s"
  shows "cb_exec nd ma moves prog (Cb_step t) s \<noteq> None \<or>
    (\<exists>u. u \<noteq> t \<and> sh_owner (tc_sh (cb_tc s)) = Some u \<and>
      cb_exec nd ma moves prog (Cb_step u) s \<noteq> None)"
proof -
  have go: "cb_exec nd ma moves prog (Cb_step u) s \<noteq> None \<or>
      \<not> in_section (ta_pc b) \<and> sh_owner (tc_sh (cb_tc s)) \<noteq> None"
    if b: "tc_act (cb_tc s) u = Some b" for u b
  proof (cases "ta_pc b = E_run \<or> cb_loops s u \<noteq> None")
    case True
    show ?thesis
    proof (cases "cb_loops s u")
      case None
      with True b show ?thesis by simp
    next
      case (Some l)
      from loop_can_step [OF inv this may] show ?thesis ..
    qed
  next
    case False
    then have "tc_act_ok (cb_view s) b" using cb_act_ok [OF inv] cb_outer_act [OF inv b] by simp
    from tc_can_step [OF this cb_live [OF inv], of nd ma "\<lambda>f v m. m" u "tc_tls (cb_tc s) u"] b False
    show ?thesis by (auto split: tc_pc.splits)
  qed
  show ?thesis
  proof (cases "cb_exec nd ma moves prog (Cb_step t) s = None")
    case True
    with go [OF a] obtain u where u: "\<not> in_section (ta_pc a)" "sh_owner (tc_sh (cb_tc s)) = Some u"
      by auto
    from cb_owner_inside [OF inv u(2)] obtain b where
      b: "tc_act (cb_tc s) u = Some b" "in_section (ta_pc b)" by blast
    with u a have "u \<noteq> t" by auto
    with go [OF b(1)] b(2) u(2) show ?thesis by blast
  qed simp
qed

lemma tc_act_not_faulted: "tc_act_ok s a \<Longrightarrow> ta_pc a \<noteq> Faulted e"
  by (cases "ta_call a") (auto simp: tc_act_ok_def tc_at_simps)

subsection \<open>The start, and an example\<close>

lemma cb_begin_inv:
  assumes "tc_inv k0 s" and "\<And>t. tc_act s t = None"
  shows "cb_inv k0 (cb_begin s)"
proof -
  have "sh_owner (tc_sh s) = None"
    using assms by (cases "sh_owner (tc_sh s)") (auto simp: tc_inv_def tc_lock_inv_def)
  then have "tc_inv k0 (cb_view (cb_begin s))"
    by (intro tc_inv_cong [OF assms(1)])
      (simp_all add: cb_begin_def cb_owner_def cb_acts_def assms(2) fun_eq_iff)
  then show ?thesis by (simp add: cb_inv_def cb_begin_def assms(2))
qed

lemma cb_begin_fresh: "cb_fresh moves (cb_begin s)"
  by (simp add: cb_fresh_def cb_begin_def)

text \<open>Thread 3 returns with a value for key 3, whose destructor creates key 9, sets it and frees
  key 4. While it is in that destructor, thread 2 creates key 5 and has to wait.\<close>

definition cb_example_prog :: dtor_prog where
  "cb_example_prog f v = (if f = 7 then [D_create 9 8, D_set 9 v, D_free 4] else [])"

definition cb_example_until :: "cb_move list" where
  "cb_example_until = Cb_call 2 (Do_create 4 6) # replicate 7 (Cb_step 2) @
     [Cb_set 3 3 5, Cb_call 3 Do_return] @ replicate 7 (Cb_step 3) @
     [Cb_call 2 (Do_create 5 0), Cb_step 2, Cb_step 2]"

definition cb_example :: "cb_move list" where
  "cb_example = cb_example_until @ replicate 18 (Cb_step 3)"

lemma cb_example_run:
  obtains s0 s1 s a where
    "tc_run False (\<lambda>n. True) (\<lambda>f v m. m) (tc_first_key 1 3 7) tc_start = Some s0"
    "cb_run False (\<lambda>n. True) (\<lambda>n. False) cb_example_prog cb_example_until (cb_begin s0) = Some s1"
    "tc_act (cb_tc s1) 2 = Some a" "ta_pc a = A_enter" "dtors_behave s1"
    "cb_exec False (\<lambda>n. True) (\<lambda>n. False) cb_example_prog (Cb_step 2) s1 = None"
    "cb_run False (\<lambda>n. True) (\<lambda>n. False) cb_example_prog cb_example (cb_begin s0) = Some s"
    "tls_calls (tc_tls (cb_tc s) 3) = [(7, 5)]" "tc_key (cb_tc s) 9 = In_use" "tc_key (cb_tc s) 4 = Unused"
proof -
  let ?go = "cb_run False (\<lambda>n. True) (\<lambda>n. False) cb_example_prog"
  let ?first = "tc_run False (\<lambda>n. True) (\<lambda>f v m. m) (tc_first_key 1 3 7) tc_start"
  have "map_option (\<lambda>s1. (map_option ta_pc (tc_act (cb_tc s1) 2), sh_owner (tc_sh (cb_tc s1)),
        map_option (\<lambda>l. map_option ta_pc (cl_call l)) (cb_loops s1 3),
        map_option cb_block (cb_exec False (\<lambda>n. True) (\<lambda>n. False) cb_example_prog (Cb_step 2) s1)))
      (Option.bind ?first (\<lambda>s0. ?go cb_example_until (cb_begin s0))) =
    Some (Some A_enter, Some 3, Some (Some (T_init I_ret)), None)"
    by code_simp
  then obtain s0 s1 a where s0: "?first = Some s0" and s1: "?go cb_example_until (cb_begin s0) = Some s1"
    and a: "tc_act (cb_tc s1) 2 = Some a" "ta_pc a = A_enter"
    and stuck: "cb_exec False (\<lambda>n. True) (\<lambda>n. False) cb_example_prog (Cb_step 2) s1 = None"
    and own: "sh_owner (tc_sh (cb_tc s1)) = Some 3"
    and loop: "map_option (\<lambda>l. map_option ta_pc (cl_call l)) (cb_loops s1 3) = Some (Some (T_init I_ret))"
    by (auto simp del: cb_exec.simps cb_run.simps tc_run.simps split: bind_splits)
  have "map_option (\<lambda>s. (tls_calls (tc_tls (cb_tc s) 3), tc_key (cb_tc s) 9, tc_key (cb_tc s) 4))
      (Option.bind ?first (\<lambda>s0. ?go cb_example (cb_begin s0))) = Some ([(7, 5)], In_use, Unused)"
    by code_simp
  then obtain s where s: "?go cb_example (cb_begin s0) = Some s"
    "tls_calls (tc_tls (cb_tc s) 3) = [(7, 5)]" "tc_key (cb_tc s) 9 = In_use" "tc_key (cb_tc s) 4 = Unused"
    using s0 by (auto simp del: cb_run.simps tc_run.simps)
  have first: "(3 :: dword) \<noteq> 0" "3 \<noteq> TLS_OUT_OF_INDEXES" by (simp_all add: TLS_OUT_OF_INDEXES_def)
  have "cb_inv 3 s1"
  proof (rule cb_run_inv [OF cb_begin_inv [OF tc_first_key_run [OF first TrueI s0]] _ _ _ s1])
    show "list_all (cb_keeps 3) cb_example_until"
      by (simp add: cb_example_until_def cb_keeps_def list_all_iff)
  qed (simp_all add: prog_keeps_def cb_example_prog_def)
  then have "dtors_behave s1"
    using cb_invD(3) own loop unfolding dtors_behave_def by fastforce
  from that [OF s0 s1 a this stuck s] show ?thesis .
qed

lemma cb_example_keeps: "list_all (cb_keeps 3) cb_example" "list_all (cb_keeps 3) cb_example_until"
  "prog_keeps 3 cb_example_prog" "stays_put (\<lambda>n. False) cb_example_prog"
  by (simp_all add: cb_example_def cb_example_until_def cb_keeps_def list_all_iff prog_keeps_def
    cb_example_prog_def stays_put_def)

subsection \<open>Properties\<close>

text \<open>C14: destructors may set, create and free keys, while other threads create and free keys,
  return and exit, in any interleaving, as long as one key, created by a thread before there are
  others, is never freed: no assertion fails and no thread enters a critical section that
  doesn't exist, in the calls of the threads and in those inside destructors; at most one
  thread is in the section; the counter is one more than the number of keys counted and the
  table stands for exactly the destructors of the keys that are listed. If moreover
  \<open>realloc\<close> doesn't move the table, or destructors create no keys, the loop over the table never
  reads a block that was given back.\<close>

theorem tss_callbacks_safe:
  assumes "k0 \<noteq> 0" and "k0 \<noteq> TLS_OUT_OF_INDEXES" and "\<And>n. may_alloc n"
    and "tc_run nd may_alloc run (tc_first_key t0 k0 f) tc_start = Some s0"
    and "list_all (cb_keeps k0) mvs" and "prog_keeps k0 prog"
    and "cb_run nd may_alloc moves prog mvs (cb_begin s0) = Some s"
  shows "(\<forall>t a e. tc_act (cb_tc s) t = Some a \<longrightarrow> ta_pc a \<noteq> Faulted e) \<and>
    (\<forall>t l c e. cb_loops s t = Some l \<longrightarrow> cl_call l = Some c \<longrightarrow> ta_pc c \<noteq> Faulted e) \<and>
    (\<forall>t u a b. tc_act (cb_tc s) t = Some a \<longrightarrow> tc_act (cb_tc s) u = Some b \<longrightarrow>
      in_section (ta_pc a) \<longrightarrow> in_section (ta_pc b) \<longrightarrow> t = u) \<and>
    lock_live (sh_global (tc_sh (cb_tc s))) \<and>
    inited (sh_global (tc_sh (cb_tc s))) =
      word_of_nat (tc_count (tc_used (cb_tc s)) (tc_key (cb_tc s)) + 1) \<and>
    (\<forall>k. destructors (cb_table (cb_tc s)) k =
      (if listed_state (tc_key (cb_tc s) k) \<and> tc_fun (cb_tc s) k \<noteq> NULL
       then Some (tc_fun (cb_tc s) k) else None)) \<and>
    (stays_put moves prog \<longrightarrow> \<not> cb_stale s)"
proof -
  have start: "cb_inv k0 (cb_begin s0)"
    by (rule cb_begin_inv [OF tc_first_key_run [OF assms(1,2) _ assms(4)]]) (rule assms(3))+
  have inv: "cb_inv k0 s" by (rule cb_run_inv [OF start assms(5,6) _ assms(7)]) (rule assms(3))
  note tc = cb_invD(1) [OF inv]
  have ok: "ta_pc b \<noteq> Faulted e" if "cb_acts s u = Some b" for u b e
    by (rule tc_act_not_faulted [OF cb_act_ok [OF inv that]])
  have "ta_pc a \<noteq> Faulted e" if a: "tc_act (cb_tc s) t = Some a" for t a e
  proof (cases "cb_loops s t")
    case None
    from ok [OF cb_outer_act [OF inv a None]] show ?thesis .
  next
    case (Some l)
    from cb_invD(4) [OF inv this] a show ?thesis by auto
  qed
  moreover have "ta_pc c \<noteq> Faulted e" if "cb_loops s t = Some l" "cl_call l = Some c" for t l c e
    using ok [of "nested t" c e] cb_nested_act [OF inv that(1)] that(2) by simp
  moreover have "t = u" if "tc_act (cb_tc s) t = Some a" "tc_act (cb_tc s) u = Some b"
    "in_section (ta_pc a)" "in_section (ta_pc b)" for t u a b
    using cb_inside_owner [OF inv that(1,3)] cb_inside_owner [OF inv that(2,4)] by simp
  moreover have "\<not> cb_stale s" if "stays_put moves prog"
  proof -
    have "cb_fresh moves s"
      by (rule cb_run_fresh [OF start cb_begin_fresh assms(5,6) that _ assms(7)]) (rule assms(3))
    then show ?thesis by (simp add: cb_fresh_def)
  qed
  ultimately show ?thesis
    using tc by (simp add: tc_inv_def tc_shared_ok_def table_agrees_def)
qed

theorem tss_callbacks_safe_witness:
  "\<exists>s0 s. tc_run False (\<lambda>n. True) (\<lambda>f v m. m) (tc_first_key 1 3 7) tc_start = Some s0 \<and>
     cb_run False (\<lambda>n. True) (\<lambda>n. False) cb_example_prog cb_example (cb_begin s0) = Some s \<and>
     tls_calls (tc_tls (cb_tc s) 3) = [(7, 5)] \<and> tc_key (cb_tc s) 9 = In_use \<and>
     tc_key (cb_tc s) 4 = Unused \<and> lock_live (sh_global (tc_sh (cb_tc s))) \<and> \<not> cb_stale s"
proof -
  obtain s0 s where s: "tc_run False (\<lambda>n. True) (\<lambda>f v m. m) (tc_first_key 1 3 7) tc_start = Some s0"
    "cb_run False (\<lambda>n. True) (\<lambda>n. False) cb_example_prog cb_example (cb_begin s0) = Some s"
    "tls_calls (tc_tls (cb_tc s) 3) = [(7, 5)]" "tc_key (cb_tc s) 9 = In_use" "tc_key (cb_tc s) 4 = Unused"
    by (rule cb_example_run)
  have first: "(3 :: dword) \<noteq> 0" "3 \<noteq> TLS_OUT_OF_INDEXES" by (simp_all add: TLS_OUT_OF_INDEXES_def)
  from tss_callbacks_safe [OF first TrueI s(1) cb_example_keeps(1,3) s(2)] cb_example_keeps(4) s
  show ?thesis by blast
qed

text \<open>C15: and no thread is stuck: a thread in one of the functions can go on, or it waits for
  another thread that is in the section and can go on; the one in the section may be running a
  destructor, whose calls enter the section again without waiting. Destructors keep to the
  rules here: they create keys with indices \<open>TlsAlloc\<close> gave them and free only keys in use.\<close>

theorem tss_callbacks_live:
  assumes "k0 \<noteq> 0" and "k0 \<noteq> TLS_OUT_OF_INDEXES" and "\<And>n. may_alloc n"
    and "tc_run nd may_alloc run (tc_first_key t0 k0 f) tc_start = Some s0"
    and "list_all (cb_keeps k0) mvs" and "prog_keeps k0 prog"
    and "cb_run nd may_alloc moves prog mvs (cb_begin s0) = Some s"
    and "tc_act (cb_tc s) t = Some a" and "dtors_behave s"
  shows "cb_exec nd may_alloc moves prog (Cb_step t) s \<noteq> None \<or>
    (\<exists>u. u \<noteq> t \<and> sh_owner (tc_sh (cb_tc s)) = Some u \<and>
      cb_exec nd may_alloc moves prog (Cb_step u) s \<noteq> None)"
proof -
  have start: "cb_inv k0 (cb_begin s0)"
    by (rule cb_begin_inv [OF tc_first_key_run [OF assms(1,2) _ assms(4)]]) (rule assms(3))+
  have "cb_inv k0 s" by (rule cb_run_inv [OF start assms(5,6) _ assms(7)]) (rule assms(3))
  from cb_can_move [OF this assms(8,9)] show ?thesis .
qed

theorem tss_callbacks_live_witness:
  "\<exists>s0 s. tc_run False (\<lambda>n. True) (\<lambda>f v m. m) (tc_first_key 1 3 7) tc_start = Some s0 \<and>
     cb_run False (\<lambda>n. True) (\<lambda>n. False) cb_example_prog cb_example_until (cb_begin s0) = Some s \<and>
     (\<exists>u. u \<noteq> 2 \<and> cb_exec False (\<lambda>n. True) (\<lambda>n. False) cb_example_prog (Cb_step u) s \<noteq> None)"
proof -
  obtain s0 s a where s: "tc_run False (\<lambda>n. True) (\<lambda>f v m. m) (tc_first_key 1 3 7) tc_start = Some s0"
    "cb_run False (\<lambda>n. True) (\<lambda>n. False) cb_example_prog cb_example_until (cb_begin s0) = Some s"
    "tc_act (cb_tc s) 2 = Some a" "dtors_behave s"
    "cb_exec False (\<lambda>n. True) (\<lambda>n. False) cb_example_prog (Cb_step 2) s = None"
    by (rule cb_example_run)
  have first: "(3 :: dword) \<noteq> 0" "3 \<noteq> TLS_OUT_OF_INDEXES" by (simp_all add: TLS_OUT_OF_INDEXES_def)
  from tss_callbacks_live [OF first TrueI s(1) cb_example_keeps(2,3) s(2,3,4)] s show ?thesis by blast
qed

end
