(* ===== verification/Spec2Isabelle.thy ===== *)
theory Spec2Isabelle
  imports Race_Yield Recursive_Mutex_Do Once_Leave Once_Fairness Result_Codes Once_Recursive_Leave Version_Check Thread_Return Once_Recursive_Order Recursive_Mutex_Refinement Win_Tss_Callback
begin

text \<open>
  A model of mulle-thread: cross-platform atomics, one-time initialization, mutexes, condition
  variables, threads and thread specific storage (\<open>src/src/\<close>), and its correctness.

  The parts and how they interact. Two backends implement atomic reads, writes, exchanges and
  additions of pointers: \<open>mulle-atomic-c11.h\<close> over \<open><stdatomic.h>\<close> and
  \<open>mulle-atomic-mintomic.h\<close> over the mintomic library. \<open>mulle-atomic.h\<close> picks one, by the macros
  the compiler and the user define, and adds the exchange loops and the integer operations. On
  the atomics rest the once functions (\<open>mulle-thread.c\<close>, \<open>mulle-thread.h\<close>), the recursive mutex
  (\<open>mulle-thread.c\<close>, together with a plain mutex) and the Windows mutex
  (\<open>mulle-thread-windows.h\<close>). Threads, plain mutexes,
  condition variables and thread specific storage are wrappers of pthreads
  (\<open>mulle-thread-pthreads.h\<close>), C11 threads (\<open>mulle-thread-c11.h\<close>) or Windows
  (\<open>mulle-thread-windows.h\<close>, \<open>mulle-thread-windows.c\<close>); Windows needs code of its own for
  destructors of thread specific storage, for non-recursive mutexes and for timed waits.

  How the code is modelled. Pointers and thread ids are 64-bit words, \<open>DWORD\<close> and \<open>LONG\<close> 32-bit
  words, \<open>int\<close> codes integers. A function that only one thread can be in is a function on its
  state, with \<open>assert\<close> as an error value that the build flag \<open>ndebug\<close> removes. A function meant
  for concurrency is a step function: one step is one access to shared memory, one call of the
  system or one assertion, and a run is any list of moves of any number of threads, so that a
  theorem about runs is about every interleaving. \<open>None\<close> is a move that isn't possible: the
  thread blocks there or isn't in the function. Functions of the system (pthreads, C11,
  Windows, mintomic) are parameters; what is documented of them is a locale, which a reference
  system interprets. Interfaces between components are locales too: the atomic backend, the
  contract of a plain mutex, of threads, of condition variables and of storage; the code's own
  definitions fulfil them by \<open>sublocale\<close> or \<open>interpretation\<close>.

  Theories, in the order of the code:
  \<^item> \<open>Prelude\<close>: machine types, status codes, assertions.
  \<^item> \<open>Atomic_Memory\<close>: memory with a log of accesses; the interface of an atomic backend.
  \<^item> \<open>Atomic_C11\<close>, \<open>Atomic_Mintomic\<close>: every operation of \<open>mulle-atomic-c11.h\<close> and of
    \<open>mulle-atomic-mintomic.h\<close>. Weak exchanges may fail spuriously where the log's parameter
    says so.
  \<^item> \<open>Atomic_Api\<close>: \<open>mulle-atomic.h\<close>. The exchange loops take the values found by their attempts
    from the outside (other threads write in between), and as many attempts as they are given;
    the lemmas show when they return and what they then have done; the two backends agree in
    every operation both headers have.
  \<^item> \<open>Config\<close>: the preprocessor's choice of atomics (\<open>mulle-atomic.h\<close>) and threads
    (\<open>mulle-thread.h\<close>), and of compiling mintomic in (\<open>mulle-thread.c\<close>), as functions of the
    macros; \<open>None\<close> where the preprocessor stops. \<open>Version_Check\<close>: the version, the check of
    the version of mulle-c11, the linkage and the detection of pthreads, from the headers under
    \<open>generic\<close> and \<open>reflect\<close>.
  \<^item> \<open>Once\<close>, \<open>Once_Invariant\<close>, \<open>Once_Properties\<close>, \<open>Once_Order\<close>: the functions and macros on a
    once flag. A thread is a stack of activations, because \<open>init\<close> may call again. The invariant
    ties the flag to the activations and to the history; the properties are about every
    reachable state. \<open>Once_Order\<close> tracks which writes a thread has synchronised with.
    \<open>Once_Fairness\<close> is about infinite executions: waiters return, if the scheduler is fair to
    them and to the owner.
    \<open>Once_Leave\<close> adds the move of leaving a macro's block by \<open>return\<close> or \<open>goto\<close> and shows what
    becomes of the flag; \<open>Once_Recursive_Leave\<close> does so for the recursive flag.
  \<^item> \<open>Once_Recursive\<close>, \<open>Once_Recursive_Properties\<close>, \<open>Once_Recursive_Order\<close>: the same for the
    recursive once flag.
  \<^item> \<open>Plain_Mutex\<close>: the mutex of pthreads and C11, its contract, \<open>mulle_thread_mutex_do\<close>.
  \<^item> \<open>Recursive_Mutex\<close>, \<open>Recursive_Mutex_Invariant\<close>: the recursive mutex over any backend and
    any plain mutex that keeps the contract, with its invariant. The depth is a signed word;
    the bound of \<open>rm_may_call\<close> keeps it from wrapping. \<open>Recursive_Mutex_Do\<close> runs the same steps
    to their end for one thread and adds the macro \<open>mulle_thread_recursive_mutex_do\<close>, with a
    small client language of blocks, lock and unlock pairs and trylocks nested in any way. \<open>Recursive_Mutex_Refinement\<close>: it implements a
    reentrant lock, each call at one of its steps.
  \<^item> \<open>Win_Mutex\<close>, \<open>Win_Mutex_Invariant\<close>: the Windows mutex over a critical section, and the wait.
    \<open>Win_Mutex_Refinement\<close>: it implements the plain mutex, each call at one of its steps.
    \<open>Win_Recursive_Mutex\<close>: the recursive mutex over the Windows mutex, the composition of both
    interleavings, where a call of the plain mutex is several steps, and its simulation by the
    recursive mutex over a plain mutex with atomic calls.
  \<^item> \<open>Win_Timedwait\<close>: the timed wait, with its arithmetic at the widths of the code.
  \<^item> \<open>Win_Tss_Table\<close>, \<open>Win_Tss\<close>: the table of destructors as a refinement of a finite map; the
    counter that makes and deletes its lock, as an interleaving; the functions under the lock;
    the life of keys from the first to the last. \<open>Win_Tss_Concurrent\<close>, \<open>Win_Tss_Safety\<close>: the same
    functions step by step for any number of threads that create and free keys, return and
    exit, with the invariant and what it promises. \<open>Win_Tss_Reentrant\<close>: destructors that use
    the library themselves, with the table as a block of a heap that can move and be freed
    under the loop. \<open>Win_Tss_Callback\<close> joins the last two: the loop over the table is a sequence
    of steps, and so are the calls a destructor makes in it, while other threads go on. Its
    invariant is that of \<open>Win_Tss_Safety\<close> for a view in which a call inside a destructor is a
    call of a thread of its own.
  \<^item> \<open>Thread_Api\<close>: threads in the three backends; the contract of creation, exit and joining.
    \<open>Thread_Return\<close>: the end of a thread function by \<open>mulle_thread_return\<close>.
  \<^item> \<open>Cond_Tss\<close>: condition variables and thread specific storage in pthreads and C11.
  \<^item> \<open>Result_Codes\<close>: the codes the wrappers can return as types, and that the pthreads and the
    C11 wrappers translate the same outcomes alike; destroying is the one difference.
  \<^item> \<open>Race_Yield\<close>: the random yield for tests.

  Groups of properties. Safety and invariants: initialization at most once, mutual exclusion,
  what a return promises, the lock of the destructor table while a key is kept, also with
  destructors that use the library. Liveness: waiters return, re-entry doesn't block, self-deadlocks where the documentation has them, a
  flag that is abandoned. Refinement: the once functions of their protocol, the destructor
  table of a map, the Windows mutex of a plain mutex, the recursive mutex of a reentrant lock,
  its composition with the Windows mutex of the one over atomic calls. Equivalence: the atomic
  backends, the wrappers, the two conditions for mintomic. Round trip: nested blocks give the recursive mutex back as it was. Types: the
  result codes. Bounds: the timed wait. Errors: what goes wrong (the exchange loop that loses a
  write, \<open>mulle_thread_tss_init\<close> with three threads, \<open>mulle_thread_exit\<close> without a key, a
  thread that returns while the last key is freed, destructors that change the table they are
  run from, timeouts beyond 49.7 days).

  Bounds chosen. At most 1088 indexes of thread specific storage exist on Windows, and index 0
  is excluded since the code asserts it never gets it; the counter then can't wrap. Deadlines
  are compared within 292 years, the range of nanoseconds in 64 bits. Waiting loops have no
  fuel: their liveness is stated over infinite executions, and a deadlock as a property of all
  runs.
  Loops over arrays and counters are functions with a measure.

  Not modelled: relaxed behaviours of memory beyond the edges of \<open>Once_Order\<close> and
  \<open>Once_Recursive_Order\<close> (accesses are interleaved); destructors that end their own
  thread; lines that only include or declare, build files and tests, which have no logic
  of the library.
\<close>

end
